(* ===== verification/Fibers_Prelude.thy ===== *)
theory Fibers_Prelude
  imports Main "HOL-Library.Word"
begin

text \<open>
  What the components of the development share: the C types of the module as word types,
  the Linux error numbers, the theorem collections, and generic lemmas on options, lists
  and words.

  An integer of the source keeps its width: \<open>pid_t\<close> and \<open>int\<close> are 32-bit words,
  \<open>long\<close>, \<open>unsigned long\<close>, \<open>long long\<close>, \<open>size_t\<close> and pointers 64-bit words (the
  module is x86-64 only). A signed comparison of the source is written with \<open>sint\<close>, an
  unsigned one with \<open>unat\<close> or the order of words.
\<close>

unbundle bit_operations_syntax

section \<open>C types\<close>

type_synonym pid_t = "32 word"
type_synonym c_int = "32 word"
type_synonym c_long = "64 word"
type_synonym c_ulong = "64 word"
type_synonym addr = "64 word"
type_synonym byte = "8 word"

section \<open>Error numbers and constants\<close>

text \<open>
  Handlers return an error as the negated number. The constants are used at the width of
  the function that returns them (\<open>pid_t\<close>, \<open>int\<close> or \<open>long\<close>), so they are polymorphic.
\<close>

abbreviation (input) EPERM :: "'a::len word" where "EPERM \<equiv> 1"
abbreviation (input) ENOENT :: "'a::len word" where "ENOENT \<equiv> 2"
abbreviation (input) ESRCH :: "'a::len word" where "ESRCH \<equiv> 3"
abbreviation (input) EAGAIN :: "'a::len word" where "EAGAIN \<equiv> 11"
abbreviation (input) EACCES :: "'a::len word" where "EACCES \<equiv> 13"
abbreviation (input) EEXIST :: "'a::len word" where "EEXIST \<equiv> 17"
abbreviation (input) EINVAL :: "'a::len word" where "EINVAL \<equiv> 22"
abbreviation (input) SUCCESS :: "'a::len word" where "SUCCESS \<equiv> 0"
abbreviation (input) NO_FIBERS :: "'a::len word" where "NO_FIBERS \<equiv> - 1"
abbreviation (input) FLS_MAX_SIZE :: nat where "FLS_MAX_SIZE \<equiv> 4096"
abbreviation (input) NAME_LENGHT :: nat where "NAME_LENGHT \<equiv> 256"

section \<open>Theorem collections\<close>

text \<open>
  \<open>table_simps\<close>: what a lookup returns after an update of a keyed table.
  \<open>object_defs\<close>: the operations on one object (a fiber, a thread), unfolded to record
  updates. \<open>handler_defs\<close>: the handlers of the module, unfolded to their branches.
\<close>

named_theorems table_simps
named_theorems object_defs
named_theorems handler_defs

section \<open>First match in a list\<close>

text \<open>
  A pointer obtained by walking a list to the first node that satisfies a test denotes
  that node: \<open>store_first\<close> writes through the pointer, \<open>remove_first\<close> unlinks the node.
\<close>

fun store_first :: "('a \<Rightarrow> bool) \<Rightarrow> ('a \<Rightarrow> 'a) \<Rightarrow> 'a list \<Rightarrow> 'a list" where
  "store_first P f [] = []"
| "store_first P f (x # xs) = (if P x then f x # xs else x # store_first P f xs)"

fun remove_first :: "('a \<Rightarrow> bool) \<Rightarrow> 'a list \<Rightarrow> 'a list" where
  "remove_first P [] = []"
| "remove_first P (x # xs) = (if P x then xs else x # remove_first P xs)"

lemma find_store_first:
  assumes "\<And>x. P x \<Longrightarrow> P (f x)"
  shows "find P (store_first P f xs) = map_option f (find P xs)"
  using assms by (induction xs) auto

lemma find_store_first_other:
  assumes "\<And>x. P x \<Longrightarrow> \<not> Q x" and "\<And>x. P x \<Longrightarrow> \<not> Q (f x)"
  shows "find Q (store_first P f xs) = find Q xs"
  using assms by (induction xs) auto

lemma find_remove_first_other:
  assumes "\<And>x. P x \<Longrightarrow> \<not> Q x"
  shows "find Q (remove_first P xs) = find Q xs"
  using assms by (induction xs) auto

lemma store_first_id: "find P xs = Some x \<Longrightarrow> f x = x \<Longrightarrow> store_first P f xs = xs"
  by (induction xs) (auto split: if_splits)

lemma map_store_first:
  assumes "\<And>x. P x \<Longrightarrow> g (f x) = g x"
  shows "map g (store_first P f xs) = map g xs"
  using assms by (induction xs) auto

lemma set_store_first: "set (store_first P f xs) \<subseteq> set xs \<union> f ` {x \<in> set xs. P x}"
  by (induction xs) auto

lemma set_remove_first: "set (remove_first P xs) \<subseteq> set xs"
  by (induction xs) auto

lemma distinct_map_remove_first:
  "distinct (map g xs) \<Longrightarrow> distinct (map g (remove_first P xs))"
proof (induction xs)
  case (Cons x xs)
  then show ?case using set_remove_first [of P xs] by auto
qed simp

lemma remove_first_key:
  assumes "distinct (map g xs)"
  shows "remove_first (\<lambda>x. g x = k) xs = filter (\<lambda>x. g x \<noteq> k) xs"
  using assms
proof (induction xs)
  case (Cons x xs)
  show ?case
  proof (cases "g x = k")
    case True
    with Cons.prems have "\<forall>y \<in> set xs. g y \<noteq> k" by (auto intro: rev_image_eqI)
    with True show ?thesis by (simp add: filter_id_conv)
  next
    case False
    with Cons show ?thesis by simp
  qed
qed simp

lemma find_key_in_set:
  assumes "distinct (map g xs)" and "x \<in> set xs"
  shows "find (\<lambda>y. g y = g x) xs = Some x"
  using assms by (induction xs) force+

lemma find_SomeD: "find P xs = Some x \<Longrightarrow> x \<in> set xs \<and> P x"
  by (induction xs) (auto split: if_splits)

section \<open>Words\<close>

text \<open>The successor of a counter that is not at its last value.\<close>

lemma unat_Suc_word:
  fixes x :: "'a::len word"
  assumes "x + 1 \<noteq> 0"
  shows "unat (x + 1) = Suc (unat x)"
  using assms by (simp add: unatSuc add.commute)

lemma unat_minus_1_32: "unat (- 1 :: 32 word) = 4294967295"
  by (simp add: unsigned_minus_1_eq_mask mask_eq_exp_minus_1)

text \<open>A word that is not negative as a signed value has the same unsigned value.\<close>

lemma uint_eq_sint:
  fixes i :: "'a::len word"
  assumes "0 \<le> sint i"
  shows "uint i = sint i"
proof -
  have "\<not> bit (uint i) (LENGTH('a) - 1)" using assms by (simp add: sint_uint)
  then show ?thesis
    by (simp add: sint_uint signed_take_bit_eq_take_bit_minus bintr_uint)
qed

lemma unat_eq_sint: "0 \<le> sint (i :: 'a::len word) \<Longrightarrow> int (unat i) = sint i"
  by (simp add: uint_eq_sint)

lemma sint_eq_unat:
  fixes i :: "'a::len word"
  assumes "unat i < 2 ^ (LENGTH('a) - 1)"
  shows "sint i = int (unat i)"
proof -
  have "uint i < 2 ^ (LENGTH('a) - 1)"
    using assms by (metis of_nat_less_iff of_nat_numeral of_nat_power uint_nat)
  then have "signed_take_bit (LENGTH('a) - 1) (uint i) = uint i"
    by (intro signed_take_bit_int_eq_self) (simp_all add: order.trans [of _ 0])
  then show ?thesis by (simp add: sint_uint)
qed

text \<open>A number below 2 to the 31 survives the casts between \<open>int\<close> and \<open>long\<close>.\<close>

lemma small_casts:
  assumes "k < 2 ^ 31"
  shows "unat (of_nat k :: c_ulong) = k" and "(ucast (of_nat k :: c_ulong) :: c_int) = of_nat k"
    and "unat (of_nat k :: c_int) = k" and "scast (of_nat k :: c_int) = (of_nat k :: c_long)"
proof -
  show 1: "unat (of_nat k :: c_ulong) = k" and 2: "unat (of_nat k :: c_int) = k"
    using assms by (simp_all add: unsigned_of_nat take_bit_nat_eq_self)
  show "(ucast (of_nat k :: c_ulong) :: c_int) = of_nat k"
    using 2 by (intro word_unat_eq_iff [THEN iffD2]) (simp add: unsigned_ucast_eq 1 unsigned_of_nat)
  have "sint (of_nat k :: c_int) = int k"
    using assms by (simp add: signed_of_nat signed_take_bit_int_eq_self)
  then show "scast (of_nat k :: c_int) = (of_nat k :: c_long)" unfolding scast_eq by simp
qed

end
