(* ===== verification/Hashtable.thy ===== *)
theory Hashtable
  imports Fibers_Prelude
begin

text \<open>
  The kernel's \<open>linux/hashtable.h\<close> as the module uses it (\<open>DECLARE_HASHTABLE\<close> with
  \<open>H_SIZE = 8\<close>): 256 chains, an insertion at the head of the chain of its key, a search
  that walks the chain of a key to the first object with that key
  (\<open>hash_for_each_possible_rcu\<close> with a \<open>break\<close>), an iteration over the chains in order
  (\<open>hash_for_each_rcu\<close>), and the unlinking of an object. The hash function of the kernel
  is a parameter; that it selects one of the 256 chains is its type.

  The interface that the rest of the development relies on is the locale \<open>keyed_table\<close>
  (lookup, insertion, a store through a pointer), extended by \<open>listed_table\<close> (iteration
  and deletion); both are interpreted here on the chains.
\<close>

section \<open>Chains\<close>

type_synonym hash_fn = "pid_t \<Rightarrow> 8 word"
type_synonym 'a htable = "8 word \<Rightarrow> 'a list"

definition hash_init :: "'a htable" where
  "hash_init = (\<lambda>_. [])"

definition hash_add_rcu :: "hash_fn \<Rightarrow> 'a htable \<Rightarrow> 'a \<Rightarrow> pid_t \<Rightarrow> 'a htable" where
  "hash_add_rcu h t x k = t(h k := x # t (h k))"

definition hash_search :: "hash_fn \<Rightarrow> ('a \<Rightarrow> pid_t) \<Rightarrow> pid_t \<Rightarrow> 'a htable \<Rightarrow> 'a option" where
  "hash_search h key k t = find (\<lambda>x. key x = k) (t (h k))"

definition hash_store ::
    "hash_fn \<Rightarrow> ('a \<Rightarrow> pid_t) \<Rightarrow> pid_t \<Rightarrow> ('a \<Rightarrow> 'a) \<Rightarrow> 'a htable \<Rightarrow> 'a htable" where
  "hash_store h key k f t = t(h k := store_first (\<lambda>x. key x = k) f (t (h k)))"

definition hash_del_rcu ::
    "hash_fn \<Rightarrow> ('a \<Rightarrow> pid_t) \<Rightarrow> pid_t \<Rightarrow> 'a htable \<Rightarrow> 'a htable" where
  "hash_del_rcu h key k t = t(h k := remove_first (\<lambda>x. key x = k) (t (h k)))"

definition bucket_order :: "8 word list" where
  "bucket_order = map of_nat [0..<256]"

definition hash_entries :: "'a htable \<Rightarrow> 'a list" where
  "hash_entries t = concat (map t bucket_order)"

text \<open>A table is well formed when every object is in the chain of its key, once.\<close>

definition hash_wf :: "hash_fn \<Rightarrow> ('a \<Rightarrow> pid_t) \<Rightarrow> 'a htable \<Rightarrow> bool" where
  "hash_wf h key t \<longleftrightarrow> (\<forall>b. distinct (map key (t b)) \<and> (\<forall>x \<in> set (t b). h (key x) = b))"

section \<open>The interfaces\<close>

locale keyed_table =
  fixes key :: "'a \<Rightarrow> 'k"
    and lookup :: "'k \<Rightarrow> 't \<Rightarrow> 'a option"
    and add :: "'a \<Rightarrow> 't \<Rightarrow> 't"
    and store :: "'k \<Rightarrow> ('a \<Rightarrow> 'a) \<Rightarrow> 't \<Rightarrow> 't"
  assumes lookup_key: "lookup k t = Some x \<Longrightarrow> key x = k"
    and lookup_add: "lookup k (add x t) = (if k = key x then Some x else lookup k t)"
    and lookup_store: "(\<And>x. key x = k' \<Longrightarrow> key (f x) = k') \<Longrightarrow>
      lookup k (store k' f t) = (if k = k' then map_option f (lookup k t) else lookup k t)"
begin

text \<open>A property of all stored objects survives an insertion and a store that respect it.\<close>

lemma all_add:
  assumes "\<And>k x. lookup k t = Some x \<Longrightarrow> P x" and "P y" and "lookup k (add y t) = Some x"
  shows "P x"
  using assms by (auto simp: lookup_add split: if_splits)

lemma all_store:
  assumes "\<And>k x. lookup k t = Some x \<Longrightarrow> P x"
    and "\<And>x. key x = k' \<Longrightarrow> key (f x) = k'" and "\<And>x. P x \<Longrightarrow> P (f x)"
    and "lookup k (store k' f t) = Some x"
  shows "P x"
  using assms by (auto simp: lookup_store split: if_splits)

lemma store_present:
  assumes "\<And>x. key x = k' \<Longrightarrow> key (f x) = k'"
  shows "(lookup k (store k' f t) = None) = (lookup k t = None)"
  using assms by (simp add: lookup_store)

end

locale listed_table = keyed_table key lookup add store
  for key :: "'a \<Rightarrow> 'k" and lookup :: "'k \<Rightarrow> 't \<Rightarrow> 'a option"
    and add :: "'a \<Rightarrow> 't \<Rightarrow> 't" and store :: "'k \<Rightarrow> ('a \<Rightarrow> 'a) \<Rightarrow> 't \<Rightarrow> 't" +
  fixes entries :: "'t \<Rightarrow> 'a list"
    and del :: "'k \<Rightarrow> 't \<Rightarrow> 't"
    and wf :: "'t \<Rightarrow> bool"
  assumes entries_lookup: "wf t \<Longrightarrow> x \<in> set (entries t) \<longleftrightarrow> lookup (key x) t = Some x"
    and entries_distinct: "wf t \<Longrightarrow> distinct (map key (entries t))"
    and lookup_del: "wf t \<Longrightarrow> lookup k (del k' t) = (if k = k' then None else lookup k t)"
    and wf_add: "wf t \<Longrightarrow> lookup (key x) t = None \<Longrightarrow> wf (add x t)"
    and wf_store: "wf t \<Longrightarrow> (\<And>x. key x = k \<Longrightarrow> key (f x) = k) \<Longrightarrow> wf (store k f t)"
    and wf_del: "wf t \<Longrightarrow> wf (del k t)"
begin

lemma entries_keys:
  assumes "wf t"
  shows "key ` set (entries t) = {k. lookup k t \<noteq> None}"
proof (intro set_eqI iffI)
  fix k assume "k \<in> key ` set (entries t)"
  then obtain x where "x \<in> set (entries t)" and "k = key x" by blast
  with assms have "lookup k t = Some x" by (simp add: entries_lookup)
  then show "k \<in> {k. lookup k t \<noteq> None}" by simp
next
  fix k assume "k \<in> {k. lookup k t \<noteq> None}"
  then obtain x where x: "lookup k t = Some x" by auto
  then have "key x = k" by (rule lookup_key)
  with x assms have "x \<in> set (entries t)" by (simp add: entries_lookup)
  with \<open>key x = k\<close> show "k \<in> key ` set (entries t)" by blast
qed

lemma length_entries: "wf t \<Longrightarrow> length (entries t) = card {k. lookup k t \<noteq> None}"
  using entries_keys [of t] entries_distinct [of t] distinct_card [of "map key (entries t)"]
  by simp

lemma entries_empty:
  assumes "wf t" and "\<And>k. lookup k t = None"
  shows "entries t = []"
  using entries_keys [OF assms(1)] assms(2) by simp

lemma length_entries_add:
  assumes "wf t" and "lookup (key x) t = None"
  shows "length (entries (add x t)) = Suc (length (entries t))"
proof -
  have "{k. lookup k (add x t) \<noteq> None} = insert (key x) {k. lookup k t \<noteq> None}"
    by (auto simp: lookup_add)
  moreover have "finite {k. lookup k t \<noteq> None}"
    using entries_keys [OF assms(1)] by (metis List.finite_set finite_imageI)
  ultimately show ?thesis
    using assms wf_add by (simp add: length_entries)
qed

lemma length_entries_store:
  assumes "wf t" and "\<And>x. key x = k \<Longrightarrow> key (f x) = k"
  shows "length (entries (store k f t)) = length (entries t)"
proof -
  have "wf (store k f t)" using assms by (rule wf_store)
  then show ?thesis using assms by (simp add: length_entries store_present)
qed

end

section \<open>The chains implement the interfaces\<close>

lemma hash_search_add:
  "hash_search h key k (hash_add_rcu h t x (key x)) =
     (if k = key x then Some x else hash_search h key k t)"
  by (auto simp: hash_search_def hash_add_rcu_def)

lemma hash_search_store:
  assumes "\<And>x. key x = k' \<Longrightarrow> key (f x) = k'"
  shows "hash_search h key k (hash_store h key k' f t) =
     (if k = k' then map_option f (hash_search h key k t) else hash_search h key k t)"
  using assms
  by (auto simp: hash_search_def hash_store_def find_store_first find_store_first_other)

interpretation chains: keyed_table key "hash_search h key"
    "\<lambda>x t. hash_add_rcu h t x (key x)" "hash_store h key"
  for h :: hash_fn and key :: "'a \<Rightarrow> pid_t"
proof unfold_locales
  fix k t x assume "hash_search h key k t = Some x"
  then show "key x = k" by (auto simp: hash_search_def dest: find_SomeD)
qed (simp_all add: hash_search_add hash_search_store)

lemma set_bucket_order: "set bucket_order = UNIV"
proof -
  have "b \<in> set bucket_order" for b :: "8 word"
    using unsigned_less [of b, where 'a = nat]
    by (auto simp: bucket_order_def image_iff intro!: bexI [of _ "unat b"])
  then show ?thesis by blast
qed

lemma distinct_bucket_order: "distinct bucket_order"
  by (auto simp: bucket_order_def distinct_map inj_on_def of_nat_inverse
      dest!: arg_cong [where f = unat] simp: unat_of_nat)

lemma set_hash_entries: "set (hash_entries t) = (\<Union>b. set (t b))"
  by (simp add: hash_entries_def set_bucket_order)

lemma distinct_map_concat:
  assumes "distinct bs" and "\<And>b. distinct (map key (t b))"
    and "\<And>b x. x \<in> set (t b) \<Longrightarrow> h (key x) = b"
  shows "distinct (map key (concat (map t bs)))"
  using assms(1)
proof (induction bs)
  case (Cons b bs)
  have "key x \<noteq> key y" if "x \<in> set (t b)" "c \<in> set bs" "y \<in> set (t c)" for x y c
    using that Cons.prems assms(3) by (metis distinct.simps(2))
  then have "set (map key (t b)) \<inter> set (map key (concat (map t bs))) = {}"
    by fastforce
  with Cons assms(2) show ?case by simp
qed simp

lemma hash_wf_entries:
  assumes "hash_wf h key t"
  shows "x \<in> set (hash_entries t) \<longleftrightarrow> hash_search h key (key x) t = Some x"
proof
  assume "x \<in> set (hash_entries t)"
  with assms have "x \<in> set (t (h (key x)))" and "distinct (map key (t (h (key x))))"
    by (auto simp: set_hash_entries hash_wf_def)
  then show "hash_search h key (key x) t = Some x"
    by (simp add: hash_search_def find_key_in_set)
next
  assume "hash_search h key (key x) t = Some x"
  then show "x \<in> set (hash_entries t)"
    by (auto simp: hash_search_def set_hash_entries dest: find_SomeD)
qed

lemma hash_wf_distinct: "hash_wf h key t \<Longrightarrow> distinct (map key (hash_entries t))"
  unfolding hash_entries_def
  by (rule distinct_map_concat [where h = h]) (auto simp: distinct_bucket_order hash_wf_def)

lemma hash_wf_init [simp]: "hash_wf h key hash_init"
  by (simp add: hash_wf_def hash_init_def)

lemma hash_search_init [simp]: "hash_search h key k hash_init = None"
  by (simp add: hash_search_def hash_init_def)

lemma hash_entries_init [simp]: "hash_entries hash_init = []"
  by (simp add: hash_entries_def hash_init_def)

lemma hash_wf_add:
  assumes "hash_wf h key t" and "hash_search h key (key x) t = None"
  shows "hash_wf h key (hash_add_rcu h t x (key x))"
proof -
  have "key x \<notin> key ` set (t (h (key x)))"
    using assms(2) by (auto simp: hash_search_def find_None_iff)
  then show ?thesis
    using assms(1) by (simp add: hash_wf_def hash_add_rcu_def)
qed

lemma hash_wf_store:
  assumes "hash_wf h key t" and "\<And>x. key x = k \<Longrightarrow> key (f x) = k"
  shows "hash_wf h key (hash_store h key k f t)"
proof -
  have "h (key y) = h k" if "y \<in> set (store_first (\<lambda>x. key x = k) f (t (h k)))" for y
  proof -
    from that consider "y \<in> set (t (h k))" | x where "key x = k" "y = f x"
      using set_store_first [of "\<lambda>x. key x = k" f "t (h k)"] by blast
    then show ?thesis using assms by cases (simp_all add: hash_wf_def)
  qed
  then show ?thesis
    using assms by (simp add: hash_wf_def hash_store_def map_store_first)
qed

lemma hash_wf_del: "hash_wf h key t \<Longrightarrow> hash_wf h key (hash_del_rcu h key k t)"
  using set_remove_first [of "\<lambda>x. key x = k" "t (h k)"]
  by (auto simp: hash_wf_def hash_del_rcu_def distinct_map_remove_first)

lemma hash_search_del:
  assumes "hash_wf h key t"
  shows "hash_search h key k (hash_del_rcu h key k' t) =
     (if k = k' then None else hash_search h key k t)"
proof (cases "k = k'")
  case True
  have "remove_first (\<lambda>x. key x = k) (t (h k)) = filter (\<lambda>x. key x \<noteq> k) (t (h k))"
    using assms by (intro remove_first_key) (simp add: hash_wf_def)
  with True show ?thesis
    by (simp add: hash_search_def hash_del_rcu_def find_None_iff)
next
  case False
  then show ?thesis
    by (simp add: hash_search_def hash_del_rcu_def find_remove_first_other)
qed

interpretation chains: listed_table key "hash_search h key"
    "\<lambda>x t. hash_add_rcu h t x (key x)" "hash_store h key" hash_entries "hash_del_rcu h key"
    "hash_wf h key"
  for h :: hash_fn and key :: "'a \<Rightarrow> pid_t"
  by unfold_locales
    (simp_all add: hash_wf_entries hash_wf_distinct hash_search_del hash_wf_add hash_wf_store
      hash_wf_del)

end
