(* ===== verification/Fls.thy ===== *)
theory Fls
  imports Fibers_Prelude
begin

text \<open>
  Fiber local storage: \<open>struct fls_s\<close> of \<open>fiber.h\<close> (an array of 4096 values and a bitmap
  of the slots in use) and the part of each \<open>do_fls_*\<close> handler of \<open>fiber.c\<close> that works on
  it once the handler has found the fiber of the calling thread. The locale \<open>slot_store\<close>
  is what a client of the storage may rely on, stated over the abstract view of a store
  as a partial map from slots to values; it is interpreted on these operations.
\<close>

section \<open>The data\<close>

record fls_t =
  fls_data :: "nat \<Rightarrow> c_long"
  fls_bmp :: "nat \<Rightarrow> bool"

definition PREPARE_FLS :: fls_t where
  "PREPARE_FLS = \<lparr>fls_data = (\<lambda>_. 0), fls_bmp = (\<lambda>_. False)\<rparr>"

text \<open>The bitmap operations of the kernel: the first clear bit (or the size), a toggle.\<close>

function scan_zero :: "(nat \<Rightarrow> bool) \<Rightarrow> nat \<Rightarrow> nat \<Rightarrow> nat" where
  "scan_zero bmp i sz = (if i < sz \<and> bmp i then scan_zero bmp (Suc i) sz else i)"
  by pat_completeness auto
termination
  by (relation "measure (\<lambda>(bmp, i, sz). sz - i)") auto

declare scan_zero.simps [simp del]

definition find_first_zero_bit :: "(nat \<Rightarrow> bool) \<Rightarrow> nat \<Rightarrow> nat" where
  "find_first_zero_bit bmp sz = scan_zero bmp 0 sz"

definition change_bit :: "nat \<Rightarrow> (nat \<Rightarrow> bool) \<Rightarrow> nat \<Rightarrow> bool" where
  "change_bit i bmp = bmp(i := \<not> bmp i)"

section \<open>The operations\<close>

definition fls_alloc_slot :: "fls_t \<Rightarrow> fls_t \<times> c_long" where
  "fls_alloc_slot f =
     (let idx = find_first_zero_bit (fls_bmp f) FLS_MAX_SIZE
      in if idx < FLS_MAX_SIZE
         then (f\<lparr>fls_bmp := change_bit idx (fls_bmp f)\<rparr>, of_nat idx)
         else (f, - EINVAL))"

definition fls_get_slot :: "fls_t \<Rightarrow> nat \<Rightarrow> c_long" where
  "fls_get_slot f i = (if \<not> fls_bmp f i then - EACCES else fls_data f i)"

definition fls_free_slot :: "fls_t \<Rightarrow> nat \<Rightarrow> fls_t \<times> c_long" where
  "fls_free_slot f i =
     (if \<not> fls_bmp f i then (f, - EACCES)
      else (f\<lparr>fls_bmp := change_bit i (fls_bmp f)\<rparr>, SUCCESS))"

definition fls_set_slot :: "fls_t \<Rightarrow> nat \<Rightarrow> c_long \<Rightarrow> fls_t \<times> c_long" where
  "fls_set_slot f i v =
     (if \<not> fls_bmp f i then (f, - EACCES)
      else (f\<lparr>fls_data := (fls_data f)(i := v)\<rparr>, of_nat i))"

section \<open>What a client relies on\<close>

text \<open>The abstract store: the slots in use with their values.\<close>

definition fls_view :: "fls_t \<Rightarrow> nat \<Rightarrow> c_long option" where
  "fls_view f i = (if i < FLS_MAX_SIZE \<and> fls_bmp f i then Some (fls_data f i) else None)"

locale slot_store =
  fixes view :: "'s \<Rightarrow> nat \<Rightarrow> 'v option"
    and cap :: nat
    and code :: "nat \<Rightarrow> 'v" and full denied success :: 'v
    and alloc :: "'s \<Rightarrow> 's \<times> 'v"
    and get :: "'s \<Rightarrow> nat \<Rightarrow> 'v"
    and release :: "'s \<Rightarrow> nat \<Rightarrow> 's \<times> 'v"
    and put :: "'s \<Rightarrow> nat \<Rightarrow> 'v \<Rightarrow> 's \<times> 'v"
  assumes view_cap: "view s i \<noteq> None \<Longrightarrow> i < cap"
    and code_inj: "i < cap \<Longrightarrow> j < cap \<Longrightarrow> code i = code j \<Longrightarrow> i = j"
    and code_full: "i < cap \<Longrightarrow> code i \<noteq> full"
    and alloc_first: "i < cap \<Longrightarrow> view s i = None \<Longrightarrow> (\<And>j. j < i \<Longrightarrow> view s j \<noteq> None) \<Longrightarrow>
      \<exists>s' v. alloc s = (s', code i) \<and> view s' = (view s)(i \<mapsto> v)"
    and alloc_full: "(\<And>i. i < cap \<Longrightarrow> view s i \<noteq> None) \<Longrightarrow> alloc s = (s, full)"
    and get_used: "view s i = Some v \<Longrightarrow> get s i = v"
    and get_unused: "i < cap \<Longrightarrow> view s i = None \<Longrightarrow> get s i = denied"
    and release_used: "view s i \<noteq> None \<Longrightarrow>
      \<exists>s'. release s i = (s', success) \<and> view s' = (view s)(i := None)"
    and release_unused: "i < cap \<Longrightarrow> view s i = None \<Longrightarrow> release s i = (s, denied)"
    and put_used: "view s i \<noteq> None \<Longrightarrow>
      \<exists>s'. put s i v = (s', code i) \<and> view s' = (view s)(i \<mapsto> v)"
    and put_unused: "i < cap \<Longrightarrow> view s i = None \<Longrightarrow> put s i v = (s, denied)"
begin

lemma alloc_cases:
  obtains (full) "\<And>i. i < cap \<Longrightarrow> view s i \<noteq> None" "alloc s = (s, full)"
  | (slot) i s' v where "i < cap" "view s i = None" "\<And>j. j < i \<Longrightarrow> view s j \<noteq> None"
      "alloc s = (s', code i)" "view s' = (view s)(i \<mapsto> v)"
proof (cases "\<forall>i < cap. view s i \<noteq> None")
  case True
  then show ?thesis using alloc_full full by blast
next
  case False
  let ?i = "LEAST i. view s i = None"
  obtain k where k: "k < cap" "view s k = None" using False by blast
  then have "view s ?i = None" "?i \<le> k" by (auto intro: LeastI Least_le)
  moreover have "view s j \<noteq> None" if "j < ?i" for j using that not_less_Least by blast
  moreover have "?i < cap" using k \<open>?i \<le> k\<close> by simp
  ultimately show ?thesis using alloc_first slot by metis
qed

lemma put_then_get:
  assumes "view s i \<noteq> None" and "j < cap"
  shows "get (fst (put s i v)) j = (if j = i then v else get s j)"
proof -
  obtain s' where s': "put s i v = (s', code i)" "view s' = (view s)(i \<mapsto> v)"
    using put_used [OF assms(1)] by blast
  show ?thesis
  proof (cases "j = i")
    case True
    then show ?thesis using s' by (simp add: get_used)
  next
    case False
    then have "view s' j = view s j" using s' by simp
    then show ?thesis using assms(2) s' False by (cases "view s j") (simp_all add: get_used get_unused)
  qed
qed

lemma release_then_get: "view s i \<noteq> None \<Longrightarrow> get (fst (release s i)) i = denied"
  using release_used [of s i] view_cap [of s i] get_unused by fastforce

lemma release_keeps: "view s i \<noteq> None \<Longrightarrow> j \<noteq> i \<Longrightarrow> view (fst (release s i)) j = view s j"
  using release_used [of s i] by fastforce

lemma alloc_keeps:
  assumes "view s i = Some v"
  shows "view (fst (alloc s)) i = Some v"
  using assms by (cases s rule: alloc_cases) auto

lemma alloc_new:
  assumes "alloc s = (s', r)" and "r \<noteq> full"
  obtains i where "i < cap" "r = code i" "view s i = None" "view s' i \<noteq> None"
    "\<And>j. j < i \<Longrightarrow> view s j \<noteq> None"
  using assms by (cases s rule: alloc_cases) auto

lemma alloc_distinct:
  assumes "alloc s = (s1, a)" and "alloc s1 = (s2, b)" and "a \<noteq> full" and "b \<noteq> full"
  shows "a \<noteq> b"
proof -
  obtain i where i: "i < cap" "a = code i" "view s1 i \<noteq> None"
    using alloc_new [OF assms(1,3)] by metis
  obtain j where j: "j < cap" "b = code j" "view s1 j = None"
    using alloc_new [OF assms(2,4)] by metis
  show ?thesis using i j code_inj by metis
qed

end

section \<open>The operations keep the promise\<close>

lemma scan_zero_spec:
  assumes "i \<le> sz"
  shows "i \<le> scan_zero bmp i sz \<and> scan_zero bmp i sz \<le> sz \<and>
    (\<forall>j. i \<le> j \<and> j < scan_zero bmp i sz \<longrightarrow> bmp j) \<and>
    (scan_zero bmp i sz < sz \<longrightarrow> \<not> bmp (scan_zero bmp i sz))"
  using assms
proof (induction bmp i sz rule: scan_zero.induct)
  case (1 bmp i sz)
  show ?case
  proof (cases "i < sz \<and> bmp i")
    case True
    with "1.IH" have IH: "Suc i \<le> scan_zero bmp (Suc i) sz \<and> scan_zero bmp (Suc i) sz \<le> sz \<and>
      (\<forall>j. Suc i \<le> j \<and> j < scan_zero bmp (Suc i) sz \<longrightarrow> bmp j) \<and>
      (scan_zero bmp (Suc i) sz < sz \<longrightarrow> \<not> bmp (scan_zero bmp (Suc i) sz))"
      by simp
    have "bmp j" if "i \<le> j" "j < scan_zero bmp (Suc i) sz" for j
      using that IH True by (cases "j = i") auto
    then show ?thesis
      using IH True by (simp add: scan_zero.simps [of bmp i sz])
  next
    case False
    then show ?thesis using "1.prems" by (auto simp: scan_zero.simps [of bmp i sz])
  qed
qed

lemma find_first_zero_bit_eqI:
  assumes "i < sz" and "\<not> bmp i" and "\<And>j. j < i \<Longrightarrow> bmp j"
  shows "find_first_zero_bit bmp sz = i"
proof -
  have s: "\<forall>j < find_first_zero_bit bmp sz. bmp j"
      "find_first_zero_bit bmp sz < sz \<longrightarrow> \<not> bmp (find_first_zero_bit bmp sz)"
    using scan_zero_spec [of 0 sz bmp] by (auto simp: find_first_zero_bit_def)
  have "\<not> i < find_first_zero_bit bmp sz" using s(1) assms(2) by blast
  moreover have "\<not> find_first_zero_bit bmp sz < i" using s(2) assms(1,3) by auto
  ultimately show ?thesis by simp
qed

lemma find_first_zero_bit_full:
  assumes "\<And>i. i < sz \<Longrightarrow> bmp i"
  shows "find_first_zero_bit bmp sz = sz"
  using scan_zero_spec [of 0 sz bmp] assms
  by (metis find_first_zero_bit_def le_eq_less_or_eq zero_le)

lemma of_nat_slot_inj:
  assumes "i < FLS_MAX_SIZE" and "j < FLS_MAX_SIZE" and "of_nat i = (of_nat j :: c_long)"
  shows "i = j"
  using arg_cong [OF assms(3), of unat] assms(1,2) by (simp add: unat_of_nat)

lemma of_nat_slot_not_error: "i < FLS_MAX_SIZE \<Longrightarrow> of_nat i \<noteq> (- EINVAL :: c_long)"
  by (auto dest!: arg_cong [of _ _ unat] simp: unat_of_nat)

lemma fls_view_used: "fls_view f i \<noteq> None \<longleftrightarrow> i < FLS_MAX_SIZE \<and> fls_bmp f i"
  by (simp add: fls_view_def)

interpretation fls: slot_store fls_view FLS_MAX_SIZE of_nat "- EINVAL" "- EACCES" SUCCESS
    fls_alloc_slot fls_get_slot fls_free_slot fls_set_slot
proof unfold_locales
  fix s :: fls_t and i
  assume i: "i < FLS_MAX_SIZE" "fls_view s i = None" "\<And>j. j < i \<Longrightarrow> fls_view s j \<noteq> None"
  then have "find_first_zero_bit (fls_bmp s) FLS_MAX_SIZE = i"
    using fls_view_used [of s] by (intro find_first_zero_bit_eqI) blast+
  with i show "\<exists>s' v. fls_alloc_slot s = (s', of_nat i) \<and> fls_view s' = (fls_view s)(i \<mapsto> v)"
    by (auto simp: fls_alloc_slot_def fls_view_def change_bit_def fun_eq_iff)
next
  fix s :: fls_t
  assume "\<And>i. i < FLS_MAX_SIZE \<Longrightarrow> fls_view s i \<noteq> None"
  then have "find_first_zero_bit (fls_bmp s) FLS_MAX_SIZE = FLS_MAX_SIZE"
    using fls_view_used [of s] by (intro find_first_zero_bit_full) auto
  then show "fls_alloc_slot s = (s, - EINVAL)"
    by (simp add: fls_alloc_slot_def)
qed (auto simp: fls_view_def fls_get_slot_def fls_free_slot_def fls_set_slot_def change_bit_def
    fun_eq_iff of_nat_slot_inj of_nat_slot_not_error split: if_splits)

end
