(* ===== verification/Format.thy ===== *)
theory Format
  imports Fibers_Prelude
begin

text \<open>
  The numeric conversions of the C library that the module uses: \<open>%d\<close>, \<open>%x\<close> and
  \<open>%lu\<close> of \<open>snprintf\<close>, its truncation to the size of the buffer, and \<open>kstrtoul\<close> in
  base 10 (a string that is not a number of \<open>unsigned long\<close> is an error and stores
  nothing). The lemmas relate printing and parsing.
\<close>

section \<open>Printing\<close>

fun digits :: "nat \<Rightarrow> nat \<Rightarrow> nat list" where
  "digits b n = (if b < 2 \<or> n < b then [n] else digits b (n div b) @ [n mod b])"

declare digits.simps [simp del]

definition digit_char :: "nat \<Rightarrow> char" where
  "digit_char d = (if d < 10 then char_of (48 + d) else char_of (87 + d))"

definition print_nat :: "nat \<Rightarrow> nat \<Rightarrow> string" where
  "print_nat b n = map digit_char (digits b n)"

definition fmt_d :: "32 word \<Rightarrow> string" where
  "fmt_d w = (if sint w < 0 then CHR ''-'' # print_nat 10 (nat (- sint w))
              else print_nat 10 (nat (sint w)))"

definition fmt_lu :: "64 word \<Rightarrow> string" where
  "fmt_lu w = print_nat 10 (unat w)"

definition fmt_x :: "32 word \<Rightarrow> string" where
  "fmt_x w = print_nat 16 (unat w)"

definition snprintf :: "nat \<Rightarrow> string \<Rightarrow> string" where
  "snprintf n s = take (n - 1) s"

section \<open>Parsing\<close>

definition char_digit :: "char \<Rightarrow> nat option" where
  "char_digit c = (let n = (of_char c :: nat) in if 48 \<le> n \<and> n \<le> 57 then Some (n - 48) else None)"

fun parse_digits :: "nat \<Rightarrow> string \<Rightarrow> nat option" where
  "parse_digits acc [] = Some acc"
| "parse_digits acc (c # cs) =
     (case char_digit c of None \<Rightarrow> None | Some d \<Rightarrow> parse_digits (acc * 10 + d) cs)"

text \<open>An optional plus sign, at least one digit, an optional newline at the end.\<close>

definition kstrtoul :: "string \<Rightarrow> c_ulong option" where
  "kstrtoul s =
     (let s1 = (case s of c # cs \<Rightarrow> if c = CHR ''+'' then cs else s | [] \<Rightarrow> s);
          s2 = (if s1 \<noteq> [] \<and> last s1 = CHR ''\<newline>'' then butlast s1 else s1)
      in if s2 = [] then None
         else (case parse_digits 0 s2 of
             None \<Rightarrow> None
           | Some n \<Rightarrow> if n < 2 ^ 64 then Some (of_nat n) else None))"

section \<open>Round trip\<close>

lemma digits_bound: "2 \<le> b \<Longrightarrow> d \<in> set (digits b n) \<Longrightarrow> d < b"
proof (induction b n rule: digits.induct)
  case (1 b n)
  then show ?case
    by (subst (asm) (2) digits.simps) (auto split: if_splits)
qed

lemma digits_nonempty [simp]: "digits b n \<noteq> []"
  by (subst digits.simps) simp

lemma digit_round_trip: "d < 10 \<Longrightarrow> char_digit (digit_char d) = Some d"
  by (simp add: char_digit_def digit_char_def Let_def)

lemma parse_digits_append:
  "parse_digits acc (xs @ ys) =
     (case parse_digits acc xs of None \<Rightarrow> None | Some n \<Rightarrow> parse_digits n ys)"
  by (induction xs arbitrary: acc) (auto split: option.splits)

lemma parse_print: "parse_digits 0 (print_nat 10 n) = Some n"
proof (induction n rule: less_induct)
  case (less n)
  show ?case
  proof (cases "n < 10")
    case True
    then show ?thesis by (simp add: print_nat_def digits.simps [of 10 n] digit_round_trip)
  next
    case False
    then have "parse_digits 0 (print_nat 10 (n div 10)) = Some (n div 10)"
      by (intro less.IH) simp
    with False show ?thesis
      by (simp add: print_nat_def digits.simps [of 10 n] parse_digits_append digit_round_trip)
  qed
qed

lemma digit_char_plain:
  assumes "d < 10"
  shows "digit_char d \<noteq> CHR ''+''" and "digit_char d \<noteq> CHR ''\<newline>''"
proof -
  have "of_char (digit_char d) = 48 + d"
    using assms by (simp add: digit_char_def)
  then show "digit_char d \<noteq> CHR ''+''" and "digit_char d \<noteq> CHR ''\<newline>''"
    by auto
qed

lemma print_nat_plain:
  assumes "c \<in> set (print_nat 10 n)"
  shows "c \<noteq> CHR ''+'' \<and> c \<noteq> CHR ''\<newline>''"
  using assms digits_bound [of 10] by (auto simp: print_nat_def digit_char_plain)

lemma print_nat_nonempty [simp]: "print_nat b n \<noteq> []"
  by (simp add: print_nat_def)

lemma kstrtoul_print: "n < 2 ^ 64 \<Longrightarrow> kstrtoul (print_nat 10 n) = Some (of_nat n)"
proof -
  assume n: "n < 2 ^ 64"
  obtain c cs where cs: "print_nat 10 n = c # cs"
    by (meson list.exhaust print_nat_nonempty)
  have plus: "c \<noteq> CHR ''+''"
    using print_nat_plain [of c n] cs by simp
  have newline: "last (c # cs) \<noteq> CHR ''\<newline>''"
    using print_nat_plain [of "last (c # cs)" n] cs last_in_set [of "c # cs"] by simp
  show ?thesis
    using plus newline n parse_print [of n]
    by (simp add: kstrtoul_def cs Let_def split: if_splits)
qed

lemma length_digits: "n < 10 ^ k \<Longrightarrow> 0 < k \<Longrightarrow> length (digits 10 n) \<le> k"
proof (induction k arbitrary: n)
  case (Suc k)
  show ?case
  proof (cases "n < 10")
    case True
    then show ?thesis by (simp add: digits.simps [of 10 n])
  next
    case False
    with Suc.prems have "0 < k" by (cases k) auto
    moreover from Suc.prems have "n div 10 < 10 ^ k" by (simp add: less_mult_imp_div_less)
    ultimately have "length (digits 10 (n div 10)) \<le> k" by (intro Suc.IH) auto
    with False show ?thesis by (simp add: digits.simps [of 10 n])
  qed
qed simp

lemma length_print_nat: "n < 10 ^ k \<Longrightarrow> 0 < k \<Longrightarrow> length (print_nat 10 n) \<le> k"
  by (simp add: print_nat_def length_digits)

lemma length_fmt_d: "length (fmt_d w) \<le> 11"
proof -
  have "nat (sint w) < 10 ^ 10" and "nat (- sint w) < 10 ^ 10"
    using sint_lt [of w] sint_ge [of w] by auto
  then show ?thesis
    using length_print_nat [of "nat (sint w)" 10] length_print_nat [of "nat (- sint w)" 10]
    by (simp add: fmt_d_def)
qed

end
