(* ===== verification/Fiber.thy ===== *)
theory Fiber
  imports Hashtable Fls Format
begin

text \<open>
  The core of the kernel module, \<open>fibers/fiber.c\<close> with the structures and macros of
  \<open>fibers/include/fiber.h\<close>: thread groups (one per process that uses fibers), their
  threads and fibers, the conversion of a thread, the creation of a fiber, the switch
  between fibers, fiber local storage and the cleanup.

  State. \<open>kstate\<close> holds the hash table \<open>groups\<close>, the number of \<open>kmalloc\<close> calls made so
  far, the number of live objects (a \<open>kmalloc\<close> that succeeded and was not freed), and the
  number of times a list traversal read the link of an object it had already freed.
  \<open>task\<close> is the calling task: its ids, its user registers (\<open>task_pt_regs(current)\<close>), the
  FPU registers of the CPU and the user time. The kernel's own functions are the
  parameters \<open>kenv\<close>: the hash function, and which calls of \<open>kmalloc\<close> succeed.

  Pointers. A handler holds pointers to objects it found in a table. A pointer is
  represented by the key it was found with: a store through it (\<open>mod_group\<close>,
  \<open>mod_thread\<close>, \<open>mod_fiber\<close>) changes the first object with that key in the chain, which
  is the object the search returned, and a second pointer to the same object sees it.

  Errors. A handler returns the negated error number, as in the source. A dereference of
  the error pointer that the \<open>generate_\<close> functions return is the outcome \<open>Oops\<close>.
\<close>

section \<open>Structures\<close>

text \<open>
  The module reads the registers below by name; it copies the others as a block, and they
  are one field. The FPU state is the FXSAVE area, copied as a block.
\<close>

record pt_regs =
  regs_ip :: c_ulong
  regs_di :: c_ulong
  regs_si :: c_ulong
  regs_sp :: c_ulong
  regs_bp :: c_ulong
  regs_rest :: "string \<Rightarrow> c_ulong"

type_synonym fpu = "byte list"

record context_t =
  ctx_regs :: pt_regs
  ctx_fpu :: fpu

record info_t =
  info_name :: string
  info_parent :: pid_t
  info_state :: c_int
  info_successful_activations :: c_ulong
  info_failed_activations :: c_int
  info_last_activation_time :: c_ulong
  info_total_running_time :: c_ulong
  info_entry_point :: c_ulong
  info_param :: addr

text \<open>\<open>f_flock\<close> is true while the spin lock of the fiber is held.\<close>

record fiber =
  f_fid :: pid_t
  f_flock :: bool
  f_stack_base :: addr
  f_stack_limit :: c_ulong
  f_guaranteed_stack_bytes :: c_ulong
  f_context :: context_t
  f_fls :: fls_t
  f_info :: info_t

record thread =
  t_pid :: pid_t
  t_current_fid :: pid_t

record thread_group =
  tg_tgid :: pid_t
  tg_fid_count :: c_int
  tg_threads :: "thread htable"
  tg_fibers :: "fiber htable"

record task =
  tsk_tgid :: pid_t
  tsk_pid :: pid_t
  tsk_regs :: pt_regs
  tsk_fx :: fpu
  tsk_utime :: c_ulong

record kenv =
  hash_min :: hash_fn
  kmalloc_ok :: "nat \<Rightarrow> bool"

record kstate =
  groups :: "thread_group htable"
  kmalloc_calls :: nat
  live_objects :: nat
  freed_reads :: nat

datatype 'r outcome = Done kstate task 'r | Oops

section \<open>Lookups and stores\<close>

definition get_group :: "kenv \<Rightarrow> pid_t \<Rightarrow> kstate \<Rightarrow> thread_group option" where
  "get_group e tgid s = hash_search (hash_min e) tg_tgid tgid (groups s)"

definition get_thread :: "kenv \<Rightarrow> pid_t \<Rightarrow> thread_group \<Rightarrow> thread option" where
  "get_thread e pid tg = hash_search (hash_min e) t_pid pid (tg_threads tg)"

definition get_fiber :: "kenv \<Rightarrow> pid_t \<Rightarrow> thread_group \<Rightarrow> fiber option" where
  "get_fiber e fid tg = hash_search (hash_min e) f_fid fid (tg_fibers tg)"

definition mod_group ::
    "kenv \<Rightarrow> pid_t \<Rightarrow> (thread_group \<Rightarrow> thread_group) \<Rightarrow> kstate \<Rightarrow> kstate" where
  "mod_group e tgid g s = s\<lparr>groups := hash_store (hash_min e) tg_tgid tgid g (groups s)\<rparr>"

definition mod_thread ::
    "kenv \<Rightarrow> pid_t \<Rightarrow> (thread \<Rightarrow> thread) \<Rightarrow> thread_group \<Rightarrow> thread_group" where
  "mod_thread e pid g tg = tg\<lparr>tg_threads := hash_store (hash_min e) t_pid pid g (tg_threads tg)\<rparr>"

definition mod_fiber ::
    "kenv \<Rightarrow> pid_t \<Rightarrow> (fiber \<Rightarrow> fiber) \<Rightarrow> thread_group \<Rightarrow> thread_group" where
  "mod_fiber e fid g tg = tg\<lparr>tg_fibers := hash_store (hash_min e) f_fid fid g (tg_fibers tg)\<rparr>"

definition add_group :: "kenv \<Rightarrow> thread_group \<Rightarrow> kstate \<Rightarrow> kstate" where
  "add_group e tg s = s\<lparr>groups := hash_add_rcu (hash_min e) (groups s) tg (tg_tgid tg)\<rparr>"

definition add_thread :: "kenv \<Rightarrow> thread \<Rightarrow> thread_group \<Rightarrow> thread_group" where
  "add_thread e t tg =
     tg\<lparr>tg_threads := hash_add_rcu (hash_min e) (tg_threads tg) t (t_pid t)\<rparr>"

definition add_fiber :: "kenv \<Rightarrow> fiber \<Rightarrow> thread_group \<Rightarrow> thread_group" where
  "add_fiber e f tg =
     tg\<lparr>tg_fibers := hash_add_rcu (hash_min e) (tg_fibers tg) f (f_fid f)\<rparr>"

text \<open>
  A handler that has worked on the object behind the group pointer leaves it in the table.
\<close>

definition set_group :: "kenv \<Rightarrow> thread_group \<Rightarrow> kstate \<Rightarrow> kstate" where
  "set_group e tg = mod_group e (tg_tgid tg) (\<lambda>_. tg)"

section \<open>Allocation of groups, threads and fibers\<close>

definition kmalloc :: "kenv \<Rightarrow> kstate \<Rightarrow> bool \<times> kstate" where
  "kmalloc e s =
     (let ok = kmalloc_ok e (kmalloc_calls s)
      in (ok, s\<lparr>kmalloc_calls := Suc (kmalloc_calls s),
                live_objects := live_objects s + (if ok then 1 else 0)\<rparr>))"

definition generate_group :: "kenv \<Rightarrow> kstate \<Rightarrow> pid_t \<Rightarrow> (c_int + thread_group) \<times> kstate" where
  "generate_group e s tgid =
     (case kmalloc e s of
        (False, s1) \<Rightarrow> (Inl (- ESRCH), s1)
      | (True, s1) \<Rightarrow>
          let tg = \<lparr>tg_tgid = tgid, tg_fid_count = NO_FIBERS,
                    tg_threads = hash_init, tg_fibers = hash_init\<rparr>
          in (Inr tg, add_group e tg s1))"

definition generate_thread ::
    "kenv \<Rightarrow> kstate \<Rightarrow> thread_group \<Rightarrow> pid_t \<Rightarrow> (c_int + thread) \<times> thread_group \<times> kstate" where
  "generate_thread e s tg pid =
     (case kmalloc e s of
        (False, s1) \<Rightarrow> (Inl (- ESRCH), tg, s1)
      | (True, s1) \<Rightarrow>
          let t = \<lparr>t_pid = pid, t_current_fid = NO_FIBERS\<rparr>
          in (Inr t, add_thread e t tg, s1))"

definition PREPARE_INFO :: "pid_t \<Rightarrow> thread \<Rightarrow> task \<Rightarrow> info_t" where
  "PREPARE_INFO fid t tsk =
     \<lparr>info_name = snprintf NAME_LENGHT (fmt_d fid), info_parent = t_pid t, info_state = 0,
      info_successful_activations = 0, info_failed_activations = 0,
      info_last_activation_time = 0, info_total_running_time = 0,
      info_entry_point = regs_ip (tsk_regs tsk), info_param = regs_di (tsk_regs tsk)\<rparr>"

definition PREPARE_CONTEXT :: "task \<Rightarrow> context_t" where
  "PREPARE_CONTEXT tsk = \<lparr>ctx_regs = tsk_regs tsk, ctx_fpu = tsk_fx tsk\<rparr>"

text \<open>The new id is the incremented counter of the group, at the width of \<open>atomic_t\<close>.\<close>

definition new_fiber :: "thread_group \<Rightarrow> thread \<Rightarrow> task \<Rightarrow> fiber" where
  "new_fiber tg t tsk =
     (let fid = tg_fid_count tg + 1
      in \<lparr>f_fid = fid, f_flock = False, f_stack_base = 0, f_stack_limit = 0,
          f_guaranteed_stack_bytes = 0, f_context = PREPARE_CONTEXT tsk, f_fls = PREPARE_FLS,
          f_info = PREPARE_INFO fid t tsk\<rparr>)"

definition generate_fiber ::
    "kenv \<Rightarrow> kstate \<Rightarrow> thread_group \<Rightarrow> thread \<Rightarrow> task \<Rightarrow>
     (c_int + fiber) \<times> thread_group \<times> kstate" where
  "generate_fiber e s tg t tsk =
     (case kmalloc e s of
        (False, s1) \<Rightarrow> (Inl (- ESRCH), tg, s1)
      | (True, s1) \<Rightarrow>
          let f = new_fiber tg t tsk
          in (Inr f, add_fiber e f (tg\<lparr>tg_fid_count := f_fid f\<rparr>), s1))"

section \<open>Operations on one fiber\<close>

definition spin_trylock :: "fiber \<Rightarrow> fiber" where
  "spin_trylock f = f\<lparr>f_flock := True\<rparr>"

definition spin_unlock :: "fiber \<Rightarrow> fiber" where
  "spin_unlock f = f\<lparr>f_flock := False\<rparr>"

definition fail_activation :: "fiber \<Rightarrow> fiber" where
  "fail_activation f =
     f\<lparr>f_info := (f_info f)\<lparr>info_failed_activations := info_failed_activations (f_info f) + 1\<rparr>\<rparr>"

definition activate :: "pid_t \<Rightarrow> c_ulong \<Rightarrow> fiber \<Rightarrow> fiber" where
  "activate pid utime f =
     f\<lparr>f_info := (f_info f)
        \<lparr>info_state := pid,
         info_successful_activations := info_successful_activations (f_info f) + 1,
         info_last_activation_time := utime\<rparr>\<rparr>"

definition ALLOC_STACK :: "addr \<Rightarrow> c_ulong \<Rightarrow> fiber \<Rightarrow> fiber" where
  "ALLOC_STACK sb ss f =
     f\<lparr>f_stack_base := sb, f_stack_limit := sb + ss, f_guaranteed_stack_bytes := ss\<rparr>"

definition ALLOC_CONTEXT :: "c_ulong \<Rightarrow> addr \<Rightarrow> fiber \<Rightarrow> fiber" where
  "ALLOC_CONTEXT ep arg f =
     (let sp = f_stack_limit f - 8
      in f\<lparr>f_context := (f_context f)
             \<lparr>ctx_regs := (ctx_regs (f_context f))
               \<lparr>regs_ip := ep, regs_di := arg, regs_sp := sp, regs_bp := sp\<rparr>\<rparr>,
           f_info := (f_info f)\<lparr>info_entry_point := ep, info_param := arg\<rparr>\<rparr>)"

definition save_context :: "task \<Rightarrow> fiber \<Rightarrow> fiber" where
  "save_context tsk f = f\<lparr>f_context := \<lparr>ctx_regs = tsk_regs tsk, ctx_fpu = tsk_fx tsk\<rparr>\<rparr>"

definition account_time :: "c_ulong \<Rightarrow> fiber \<Rightarrow> fiber" where
  "account_time utime f =
     f\<lparr>f_info := (f_info f)
        \<lparr>info_total_running_time := info_total_running_time (f_info f) +
           (utime - info_last_activation_time (f_info f))\<rparr>\<rparr>"

definition clear_state :: "fiber \<Rightarrow> fiber" where
  "clear_state f = f\<lparr>f_info := (f_info f)\<lparr>info_state := 0\<rparr>\<rparr>"

definition ACTIVATE_FIBER_FROM_THREAD ::
    "kenv \<Rightarrow> pid_t \<Rightarrow> pid_t \<Rightarrow> task \<Rightarrow> thread_group \<Rightarrow> thread_group" where
  "ACTIVATE_FIBER_FROM_THREAD e fid pid tsk tg =
     mod_thread e pid (\<lambda>t. t\<lparr>t_current_fid := fid\<rparr>)
       (mod_fiber e fid (activate pid (tsk_utime tsk)) tg)"

lemmas [object_defs] = spin_trylock_def spin_unlock_def fail_activation_def activate_def
  ALLOC_STACK_def ALLOC_CONTEXT_def save_context_def account_time_def clear_state_def

section \<open>The handlers\<close>

definition do_convert_thread_to_fiber :: "kenv \<Rightarrow> kstate \<Rightarrow> task \<Rightarrow> pid_t outcome" where
  "do_convert_thread_to_fiber e s tsk =
     (case (case get_group e (tsk_tgid tsk) s of
              Some tg \<Rightarrow> (Inr tg, s)
            | None \<Rightarrow> generate_group e s (tsk_tgid tsk)) of
        (Inl _, _) \<Rightarrow> Oops
      | (Inr tg, s1) \<Rightarrow>
        (case get_thread e (tsk_pid tsk) tg of
           Some t \<Rightarrow> Done s1 tsk (- EEXIST)
         | None \<Rightarrow>
           (case generate_thread e s1 tg (tsk_pid tsk) of
              (Inl _, _, _) \<Rightarrow> Oops
            | (Inr t, tg1, s2) \<Rightarrow>
              (case generate_fiber e s2 tg1 t tsk of
                 (Inl _, _, _) \<Rightarrow> Oops
               | (Inr f, tg2, s3) \<Rightarrow>
                 (let tg3 = mod_fiber e (f_fid f) spin_trylock tg2
                  in if f_flock f \<or> info_state (f_info f) \<noteq> 0
                     then Done (set_group e (mod_fiber e (f_fid f) fail_activation tg3) s3) tsk
                            (- EAGAIN)
                     else Done (set_group e
                                  (ACTIVATE_FIBER_FROM_THREAD e (f_fid f) (t_pid t) tsk tg3) s3)
                            tsk (f_fid f))))))"

definition do_create_fiber ::
    "kenv \<Rightarrow> kstate \<Rightarrow> task \<Rightarrow> addr \<Rightarrow> c_ulong \<Rightarrow> c_ulong \<Rightarrow> addr \<Rightarrow> pid_t outcome" where
  "do_create_fiber e s tsk stack_base stack_size entry_point param =
     (case get_group e (tsk_tgid tsk) s of
        None \<Rightarrow> Done s tsk (- ESRCH)
      | Some tg \<Rightarrow>
        (case get_thread e (tsk_pid tsk) tg of
           None \<Rightarrow> Done s tsk (- ESRCH)
         | Some t \<Rightarrow>
           (case generate_fiber e s tg t tsk of
              (Inl _, _, _) \<Rightarrow> Oops
            | (Inr f, tg1, s1) \<Rightarrow>
              (let tg2 = mod_fiber e (f_fid f) (ALLOC_STACK stack_base stack_size) tg1;
                   tg3 = mod_fiber e (f_fid f) (ALLOC_CONTEXT entry_point param) tg2
               in Done (set_group e tg3 s1) tsk (f_fid f)))))"

definition do_switch_to_fiber :: "kenv \<Rightarrow> kstate \<Rightarrow> task \<Rightarrow> pid_t \<Rightarrow> c_int outcome" where
  "do_switch_to_fiber e s tsk next_fiber =
     (case get_group e (tsk_tgid tsk) s of
        None \<Rightarrow> Done s tsk (- ESRCH)
      | Some tg \<Rightarrow>
        (case get_thread e (tsk_pid tsk) tg of
           None \<Rightarrow> Done s tsk (- ESRCH)
         | Some t \<Rightarrow>
           (case get_fiber e next_fiber tg of
              None \<Rightarrow> Done s tsk (- ESRCH)
            | Some new_f \<Rightarrow>
              (let tg1 = mod_fiber e next_fiber spin_trylock tg
               in if f_flock new_f \<or> info_state (f_info new_f) \<noteq> 0
                  then Done (set_group e (mod_fiber e next_fiber fail_activation tg1) s) tsk
                         (- EAGAIN)
                  else
                    (case get_fiber e (t_current_fid t) tg1 of
                       None \<Rightarrow> Done (set_group e tg1 s) tsk (- ESRCH)
                     | Some old_f \<Rightarrow>
                       (let old = t_current_fid t;
                            tg2 = ACTIVATE_FIBER_FROM_THREAD e next_fiber (t_pid t) tsk tg1;
                            tg3 = mod_fiber e old (save_context tsk) tg2;
                            tg4 = mod_fiber e old (account_time (tsk_utime tsk)) tg3;
                            tg5 = mod_fiber e old clear_state tg4;
                            tg6 = mod_fiber e old spin_unlock tg5
                        in (case get_fiber e next_fiber tg6 of
                              None \<Rightarrow> Oops
                            | Some f \<Rightarrow>
                                Done (set_group e tg6 s)
                                  (tsk\<lparr>tsk_regs := ctx_regs (f_context f),
                                       tsk_fx := ctx_fpu (f_context f)\<rparr>)
                                  SUCCESS)))))))"

text \<open>
  The four storage handlers begin with the same three lookups: the group of the process,
  the thread, and the fiber the thread runs.
\<close>

definition find_current ::
    "kenv \<Rightarrow> kstate \<Rightarrow> task \<Rightarrow> (thread_group \<times> thread \<times> fiber) option" where
  "find_current e s tsk =
     (case get_group e (tsk_tgid tsk) s of
        None \<Rightarrow> None
      | Some tg \<Rightarrow>
        (case get_thread e (tsk_pid tsk) tg of
           None \<Rightarrow> None
         | Some t \<Rightarrow>
           (case get_fiber e (t_current_fid t) tg of
              None \<Rightarrow> None
            | Some f \<Rightarrow> Some (tg, t, f))))"

definition put_fls :: "kenv \<Rightarrow> kstate \<Rightarrow> thread_group \<Rightarrow> thread \<Rightarrow> fls_t \<Rightarrow> kstate" where
  "put_fls e s tg t x =
     set_group e (mod_fiber e (t_current_fid t) (\<lambda>f. f\<lparr>f_fls := x\<rparr>) tg) s"

definition do_fls_alloc :: "kenv \<Rightarrow> kstate \<Rightarrow> task \<Rightarrow> c_long outcome" where
  "do_fls_alloc e s tsk =
     (case find_current e s tsk of
        None \<Rightarrow> Done s tsk (- ESRCH)
      | Some (tg, t, f) \<Rightarrow>
        (case fls_alloc_slot (f_fls f) of (x, r) \<Rightarrow> Done (put_fls e s tg t x) tsk r))"

definition bad_index :: "c_long \<Rightarrow> bool" where
  "bad_index index \<longleftrightarrow> sint index < 0 \<or> int FLS_MAX_SIZE \<le> sint index"

definition do_fls_get_value :: "kenv \<Rightarrow> kstate \<Rightarrow> task \<Rightarrow> c_long \<Rightarrow> c_long outcome" where
  "do_fls_get_value e s tsk index =
     (if bad_index index then Done s tsk (- ESRCH)
      else (case find_current e s tsk of
              None \<Rightarrow> Done s tsk (- ESRCH)
            | Some (tg, t, f) \<Rightarrow> Done s tsk (fls_get_slot (f_fls f) (unat index))))"

definition do_fls_free :: "kenv \<Rightarrow> kstate \<Rightarrow> task \<Rightarrow> c_long \<Rightarrow> c_long outcome" where
  "do_fls_free e s tsk index =
     (if bad_index index then Done s tsk (- EINVAL)
      else (case find_current e s tsk of
              None \<Rightarrow> Done s tsk (- ESRCH)
            | Some (tg, t, f) \<Rightarrow>
              (case fls_free_slot (f_fls f) (unat index) of
                 (x, r) \<Rightarrow> Done (put_fls e s tg t x) tsk r)))"

definition do_fls_set_value :: "kenv \<Rightarrow> kstate \<Rightarrow> task \<Rightarrow> c_long \<Rightarrow> c_long \<Rightarrow> c_long outcome" where
  "do_fls_set_value e s tsk index value =
     (if bad_index index then Done s tsk (- EINVAL)
      else (case find_current e s tsk of
              None \<Rightarrow> Done s tsk (- ESRCH)
            | Some (tg, t, f) \<Rightarrow>
              (case fls_set_slot (f_fls f) (unat index) value of
                 (x, r) \<Rightarrow> Done (put_fls e s tg t x) tsk r)))"

lemmas [handler_defs] = do_convert_thread_to_fiber_def do_create_fiber_def do_switch_to_fiber_def
  do_fls_alloc_def do_fls_get_value_def do_fls_free_def do_fls_set_value_def

section \<open>Cleanup\<close>

text \<open>
  The loops of the cleanup unlink and free the object they stand on, and then read its link
  to find the next one. Unlinking leaves the link of the removed object as it was; that the
  allocator does too, until the read, is what the loops rely on, and every such read is
  counted in \<open>freed_reads\<close>.
\<close>

fun free_chain :: "'a list \<Rightarrow> kstate \<Rightarrow> kstate" where
  "free_chain [] s = s"
| "free_chain (x # xs) s =
     free_chain xs (s\<lparr>live_objects := live_objects s - 1, freed_reads := Suc (freed_reads s)\<rparr>)"

fun free_buckets :: "8 word list \<Rightarrow> 'a htable \<Rightarrow> kstate \<Rightarrow> kstate" where
  "free_buckets [] t s = s"
| "free_buckets (b # bs) t s = free_buckets bs (t(b := [])) (free_chain (t b) s)"

definition cleanup_process :: "kenv \<Rightarrow> kstate \<Rightarrow> pid_t \<Rightarrow> kstate \<times> c_int" where
  "cleanup_process e s tgid =
     (case get_group e tgid s of
        None \<Rightarrow> (s, 0)
      | Some tg \<Rightarrow>
        (let s1 = free_buckets bucket_order (tg_threads tg) s;
             s2 = free_buckets bucket_order (tg_fibers tg) s1;
             s3 = s2\<lparr>groups := hash_del_rcu (hash_min e) tg_tgid tgid (groups s2)\<rparr>
         in (s3\<lparr>live_objects := live_objects s3 - 1\<rparr>, SUCCESS)))"

fun cleanup_chain :: "kenv \<Rightarrow> thread_group list \<Rightarrow> kstate \<Rightarrow> kstate" where
  "cleanup_chain e [] s = s"
| "cleanup_chain e (tg # tgs) s =
     (let s1 = fst (cleanup_process e s (tg_tgid tg))
      in cleanup_chain e tgs (s1\<lparr>freed_reads := Suc (freed_reads s1)\<rparr>))"

fun cleanup_buckets :: "kenv \<Rightarrow> 8 word list \<Rightarrow> kstate \<Rightarrow> kstate" where
  "cleanup_buckets e [] s = s"
| "cleanup_buckets e (b # bs) s = cleanup_buckets e bs (cleanup_chain e (groups s b) s)"

definition cleanup_all :: "kenv \<Rightarrow> kstate \<Rightarrow> kstate \<times> c_int" where
  "cleanup_all e s = (cleanup_buckets e bucket_order s, SUCCESS)"

text \<open>The state of the module when it is loaded: no group.\<close>

definition init_kstate :: kstate where
  "init_kstate = \<lparr>groups = hash_init, kmalloc_calls = 0, live_objects = 0, freed_reads = 0\<rparr>"

end
