(* ===== verification/Fiber_Tables.thy ===== *)
theory Fiber_Tables
  imports Fiber
begin

text \<open>
  The tables of the module meet the interfaces of \<open>Hashtable\<close>: the fibers and the threads
  of a group, and the groups of the module. The facts of the interpretations, together
  with the frame equations between the three tables, form the collection \<open>table_simps\<close>,
  which computes every lookup after every store of a handler.
\<close>

section \<open>Interpretations\<close>

interpretation fib: keyed_table f_fid "get_fiber e" "add_fiber e" "mod_fiber e" for e
  by unfold_locales
    (auto simp: get_fiber_def add_fiber_def mod_fiber_def chains.lookup_add chains.lookup_store
      dest: chains.lookup_key)

interpretation thr: keyed_table t_pid "get_thread e" "add_thread e" "mod_thread e" for e
  by unfold_locales
    (auto simp: get_thread_def add_thread_def mod_thread_def chains.lookup_add chains.lookup_store
      dest: chains.lookup_key)

interpretation grp: keyed_table tg_tgid "get_group e" "add_group e" "mod_group e" for e
  by unfold_locales
    (auto simp: get_group_def add_group_def mod_group_def chains.lookup_add chains.lookup_store
      dest: chains.lookup_key)

definition fiber_list :: "thread_group \<Rightarrow> fiber list" where
  "fiber_list tg = hash_entries (tg_fibers tg)"

definition thread_list :: "thread_group \<Rightarrow> thread list" where
  "thread_list tg = hash_entries (tg_threads tg)"

interpretation fib: listed_table f_fid "get_fiber e" "add_fiber e" "mod_fiber e" fiber_list
    "\<lambda>k tg. tg\<lparr>tg_fibers := hash_del_rcu (hash_min e) f_fid k (tg_fibers tg)\<rparr>"
    "\<lambda>tg. hash_wf (hash_min e) f_fid (tg_fibers tg)" for e
  by unfold_locales
    (simp_all add: get_fiber_def add_fiber_def mod_fiber_def fiber_list_def hash_wf_entries
      hash_wf_distinct hash_search_del hash_wf_add hash_wf_store hash_wf_del)

interpretation thr: listed_table t_pid "get_thread e" "add_thread e" "mod_thread e" thread_list
    "\<lambda>k tg. tg\<lparr>tg_threads := hash_del_rcu (hash_min e) t_pid k (tg_threads tg)\<rparr>"
    "\<lambda>tg. hash_wf (hash_min e) t_pid (tg_threads tg)" for e
  by unfold_locales
    (simp_all add: get_thread_def add_thread_def mod_thread_def thread_list_def hash_wf_entries
      hash_wf_distinct hash_search_del hash_wf_add hash_wf_store hash_wf_del)

interpretation grp: listed_table tg_tgid "get_group e" "add_group e" "mod_group e"
    "\<lambda>s. hash_entries (groups s)"
    "\<lambda>k s. s\<lparr>groups := hash_del_rcu (hash_min e) tg_tgid k (groups s)\<rparr>"
    "\<lambda>s. hash_wf (hash_min e) tg_tgid (groups s)" for e
  by unfold_locales
    (simp_all add: get_group_def add_group_def mod_group_def hash_wf_entries
      hash_wf_distinct hash_search_del hash_wf_add hash_wf_store hash_wf_del)

section \<open>Keys\<close>

lemma object_keys [simp]:
  "f_fid (spin_trylock f) = f_fid f" "f_fid (spin_unlock f) = f_fid f"
  "f_fid (fail_activation f) = f_fid f" "f_fid (activate p u f) = f_fid f"
  "f_fid (ALLOC_STACK sb ss f) = f_fid f" "f_fid (ALLOC_CONTEXT ep arg f) = f_fid f"
  "f_fid (save_context tsk f) = f_fid f" "f_fid (account_time u f) = f_fid f"
  "f_fid (clear_state f) = f_fid f" "f_fid (new_fiber tg t tsk) = tg_fid_count tg + 1"
  by (simp_all add: object_defs Let_def new_fiber_def)

lemma store_keys [simp]:
  "tg_tgid (mod_fiber e k f tg) = tg_tgid tg" "tg_tgid (mod_thread e k g tg) = tg_tgid tg"
  "tg_tgid (add_fiber e x tg) = tg_tgid tg" "tg_tgid (add_thread e y tg) = tg_tgid tg"
  "tg_tgid (ACTIVATE_FIBER_FROM_THREAD e k p tsk tg) = tg_tgid tg"
  by (simp_all add: mod_fiber_def mod_thread_def add_fiber_def add_thread_def
      ACTIVATE_FIBER_FROM_THREAD_def)

lemma store_counts [simp]:
  "tg_fid_count (mod_fiber e k f tg) = tg_fid_count tg"
  "tg_fid_count (mod_thread e k g tg) = tg_fid_count tg"
  "tg_fid_count (add_fiber e x tg) = tg_fid_count tg"
  "tg_fid_count (add_thread e y tg) = tg_fid_count tg"
  "tg_fid_count (ACTIVATE_FIBER_FROM_THREAD e k p tsk tg) = tg_fid_count tg"
  by (simp_all add: mod_fiber_def mod_thread_def add_fiber_def add_thread_def
      ACTIVATE_FIBER_FROM_THREAD_def)

section \<open>Lookups after stores\<close>

lemmas [table_simps] = fib.lookup_add fib.lookup_store thr.lookup_add thr.lookup_store

lemma frame_lookups [table_simps]:
  "get_thread e k (mod_fiber e' k' f tg) = get_thread e k tg"
  "get_thread e k (add_fiber e' x tg) = get_thread e k tg"
  "get_thread e k (tg\<lparr>tg_fid_count := c\<rparr>) = get_thread e k tg"
  "get_fiber e k (mod_thread e' k' g tg) = get_fiber e k tg"
  "get_fiber e k (add_thread e' y tg) = get_fiber e k tg"
  "get_fiber e k (tg\<lparr>tg_fid_count := c\<rparr>) = get_fiber e k tg"
  by (simp_all add: get_thread_def get_fiber_def mod_fiber_def mod_thread_def add_fiber_def
      add_thread_def)

lemma activate_lookups [table_simps]:
  "get_fiber e k (ACTIVATE_FIBER_FROM_THREAD e k' p tsk tg) =
     (if k = k' then map_option (activate p (tsk_utime tsk)) (get_fiber e k tg)
      else get_fiber e k tg)"
  "get_thread e q (ACTIVATE_FIBER_FROM_THREAD e k' p tsk tg) =
     (if q = p then map_option (\<lambda>t. t\<lparr>t_current_fid := k'\<rparr>) (get_thread e q tg)
      else get_thread e q tg)"
  by (simp_all add: ACTIVATE_FIBER_FROM_THREAD_def table_simps)

lemma get_group_set [table_simps]:
  "get_group e k (set_group e tg s) =
     (if k = tg_tgid tg then map_option (\<lambda>_. tg) (get_group e k s) else get_group e k s)"
  by (simp add: set_group_def grp.lookup_store)

lemma get_group_cong: "groups s = groups s' \<Longrightarrow> get_group e k s = get_group e k s'"
  by (simp add: get_group_def)

lemma get_group_init [simp]: "get_group e k init_kstate = None"
  by (simp add: get_group_def init_kstate_def)

section \<open>Allocation\<close>

lemma kmalloc_groups: "kmalloc e s = (ok, s') \<Longrightarrow> groups s' = groups s"
  by (auto simp: kmalloc_def Let_def)

lemma get_group_kmalloc: "kmalloc e s = (ok, s') \<Longrightarrow> get_group e' k s' = get_group e' k s"
  by (rule get_group_cong) (rule kmalloc_groups)

section \<open>Well-formed chains after stores\<close>

lemma wf_frames [simp]:
  "tg_threads (mod_fiber e k f tg) = tg_threads tg" "tg_threads (add_fiber e x tg) = tg_threads tg"
  "tg_fibers (mod_thread e k g tg) = tg_fibers tg" "tg_fibers (add_thread e y tg) = tg_fibers tg"
  by (simp_all add: mod_fiber_def add_fiber_def mod_thread_def add_thread_def)

lemma list_frames [simp]:
  "thread_list (mod_fiber e k f tg) = thread_list tg" "thread_list (add_fiber e x tg) = thread_list tg"
  "fiber_list (mod_thread e k g tg) = fiber_list tg" "fiber_list (add_thread e y tg) = fiber_list tg"
  "thread_list (tg\<lparr>tg_fid_count := c\<rparr>) = thread_list tg"
  "fiber_list (tg\<lparr>tg_fid_count := c\<rparr>) = fiber_list tg"
  by (simp_all add: thread_list_def fiber_list_def)

end
