(* ===== verification/Fiber_Inv.thy ===== *)
theory Fiber_Inv
  imports Fiber_Tables
begin

text \<open>
  The invariant of the core and its preservation by every handler.

  \<open>tables_wf\<close>: every thread and every fiber of a group is in its chain, once.
  \<open>fids_dense\<close>: the ids in use are exactly those below the counter of the group.
  \<open>owner_inv\<close>: a fiber's lock is held exactly when its \<open>state\<close> names a thread, that thread
  exists and runs this fiber, and every thread runs a fiber whose state names it.
  \<open>kstate_inv\<close>: all groups of the module satisfy the three, the chains of the groups are
  well formed, and the live objects are exactly the objects in the tables.

  Groups are changed by few group-level operations (\<open>convert_group\<close>, \<open>create_group\<close>,
  \<open>switch_group\<close> and single-fiber stores); the handlers are characterised by them first.
\<close>

section \<open>The invariant\<close>

definition tables_wf :: "kenv \<Rightarrow> thread_group \<Rightarrow> bool" where
  "tables_wf e tg \<longleftrightarrow>
     hash_wf (hash_min e) t_pid (tg_threads tg) \<and> hash_wf (hash_min e) f_fid (tg_fibers tg)"

definition fids_dense :: "kenv \<Rightarrow> thread_group \<Rightarrow> bool" where
  "fids_dense e tg \<longleftrightarrow>
     (\<forall>k. get_fiber e k tg \<noteq> None \<longleftrightarrow> unat k < unat (tg_fid_count tg + 1))"

definition fiber_owned :: "kenv \<Rightarrow> thread_group \<Rightarrow> pid_t \<Rightarrow> fiber \<Rightarrow> bool" where
  "fiber_owned e tg k f \<longleftrightarrow>
     (f_flock f \<longleftrightarrow> info_state (f_info f) \<noteq> 0) \<and>
     (info_state (f_info f) \<noteq> 0 \<longrightarrow>
        (\<exists>t. get_thread e (info_state (f_info f)) tg = Some t \<and> t_current_fid t = k))"

definition thread_running :: "kenv \<Rightarrow> thread_group \<Rightarrow> pid_t \<Rightarrow> thread \<Rightarrow> bool" where
  "thread_running e tg p t \<longleftrightarrow>
     p \<noteq> 0 \<and> (\<exists>f. get_fiber e (t_current_fid t) tg = Some f \<and> info_state (f_info f) = p)"

definition owner_inv :: "kenv \<Rightarrow> thread_group \<Rightarrow> bool" where
  "owner_inv e tg \<longleftrightarrow>
     (\<forall>k f. get_fiber e k tg = Some f \<longrightarrow> fiber_owned e tg k f) \<and>
     (\<forall>p t. get_thread e p tg = Some t \<longrightarrow> thread_running e tg p t)"

definition group_inv :: "kenv \<Rightarrow> thread_group \<Rightarrow> bool" where
  "group_inv e tg \<longleftrightarrow> tables_wf e tg \<and> fids_dense e tg \<and> owner_inv e tg"

definition group_objects :: "thread_group \<Rightarrow> nat" where
  "group_objects tg = 1 + length (thread_list tg) + length (fiber_list tg)"

definition objects_at :: "kenv \<Rightarrow> kstate \<Rightarrow> pid_t \<Rightarrow> nat" where
  "objects_at e s k = (case get_group e k s of None \<Rightarrow> 0 | Some tg \<Rightarrow> group_objects tg)"

definition kstate_inv :: "kenv \<Rightarrow> kstate \<Rightarrow> bool" where
  "kstate_inv e s \<longleftrightarrow>
     hash_wf (hash_min e) tg_tgid (groups s) \<and>
     (\<forall>k tg. get_group e k s = Some tg \<longrightarrow> group_inv e tg) \<and>
     live_objects s = (\<Sum>k \<in> UNIV. objects_at e s k)"

section \<open>The group-level operations\<close>

definition convert_group :: "kenv \<Rightarrow> task \<Rightarrow> thread_group \<Rightarrow> thread_group" where
  "convert_group e tsk tg =
     (let t = \<lparr>t_pid = tsk_pid tsk, t_current_fid = NO_FIBERS\<rparr>;
          f = new_fiber tg t tsk
      in ACTIVATE_FIBER_FROM_THREAD e (f_fid f) (tsk_pid tsk) tsk
           (mod_fiber e (f_fid f) spin_trylock
             (add_fiber e f ((add_thread e t tg)\<lparr>tg_fid_count := f_fid f\<rparr>))))"

definition create_group ::
    "kenv \<Rightarrow> task \<Rightarrow> thread \<Rightarrow> addr \<Rightarrow> c_ulong \<Rightarrow> c_ulong \<Rightarrow> addr \<Rightarrow> thread_group \<Rightarrow> thread_group" where
  "create_group e tsk t sb ss ep arg tg =
     (let f = new_fiber tg t tsk
      in mod_fiber e (f_fid f) (ALLOC_CONTEXT ep arg)
           (mod_fiber e (f_fid f) (ALLOC_STACK sb ss)
             (add_fiber e f (tg\<lparr>tg_fid_count := f_fid f\<rparr>))))"

definition leave_fiber :: "task \<Rightarrow> fiber \<Rightarrow> fiber" where
  "leave_fiber tsk f =
     spin_unlock (clear_state (account_time (tsk_utime tsk) (save_context tsk f)))"

definition enter_fiber :: "task \<Rightarrow> pid_t \<Rightarrow> fiber \<Rightarrow> fiber" where
  "enter_fiber tsk p f = activate p (tsk_utime tsk) (spin_trylock f)"

definition switch_group ::
    "kenv \<Rightarrow> task \<Rightarrow> pid_t \<Rightarrow> pid_t \<Rightarrow> pid_t \<Rightarrow> thread_group \<Rightarrow> thread_group" where
  "switch_group e tsk p old nxt tg =
     mod_fiber e old spin_unlock (mod_fiber e old clear_state
       (mod_fiber e old (account_time (tsk_utime tsk)) (mod_fiber e old (save_context tsk)
         (ACTIVATE_FIBER_FROM_THREAD e nxt p tsk (mod_fiber e nxt spin_trylock tg)))))"

lemmas [object_defs] = leave_fiber_def enter_fiber_def

lemma new_fiber_unlocked [simp]:
  "f_flock (new_fiber tg t tsk) = False" "info_state (f_info (new_fiber tg t tsk)) = 0"
  by (simp_all add: new_fiber_def PREPARE_INFO_def Let_def)

section \<open>The handlers in terms of the group-level operations\<close>

lemma new_fiber_add_thread [simp]: "new_fiber (add_thread e t tg) t' tsk = new_fiber tg t' tsk"
  by (simp add: new_fiber_def)

text \<open>
  The group a converting thread works on: the one it finds, or a new one.
\<close>

definition find_or_generate :: "kenv \<Rightarrow> kstate \<Rightarrow> pid_t \<Rightarrow> (c_int + thread_group) \<times> kstate" where
  "find_or_generate e s tgid =
     (case get_group e tgid s of Some tg \<Rightarrow> (Inr tg, s) | None \<Rightarrow> generate_group e s tgid)"

lemma do_convert_eq:
  "do_convert_thread_to_fiber e s tsk =
     (case find_or_generate e s (tsk_tgid tsk) of
        (Inl _, _) \<Rightarrow> Oops
      | (Inr tg, s1) \<Rightarrow>
        (case get_thread e (tsk_pid tsk) tg of
           Some t \<Rightarrow> Done s1 tsk (- EEXIST)
         | None \<Rightarrow>
           (case kmalloc e s1 of
              (False, _) \<Rightarrow> Oops
            | (True, s2) \<Rightarrow>
              (case kmalloc e s2 of
                 (False, _) \<Rightarrow> Oops
               | (True, s3) \<Rightarrow>
                   Done (set_group e (convert_group e tsk tg) s3) tsk (tg_fid_count tg + 1)))))"
proof -
  obtain g s1 where g: "find_or_generate e s (tsk_tgid tsk) = (g, s1)" by (meson surj_pair)
  obtain a s2 where 2: "kmalloc e s1 = (a, s2)" by (meson surj_pair)
  obtain b s3 where 3: "kmalloc e s2 = (b, s3)" by (meson surj_pair)
  show ?thesis
    unfolding do_convert_thread_to_fiber_def find_or_generate_def [symmetric] g
    using 2 3 by (cases g; cases a; cases b)
      (simp_all add: generate_thread_def generate_fiber_def convert_group_def Let_def
        split: option.split)
qed

lemma do_convert_cases:
  assumes "do_convert_thread_to_fiber e s tsk = Done s' tsk' r"
  obtains (exists) tg t where "find_or_generate e s (tsk_tgid tsk) = (Inr tg, s')"
      "get_thread e (tsk_pid tsk) tg = Some t" "tsk' = tsk" "r = - EEXIST"
  | (new) tg s1 s2 s3 where "find_or_generate e s (tsk_tgid tsk) = (Inr tg, s1)"
      "get_thread e (tsk_pid tsk) tg = None" "kmalloc e s1 = (True, s2)" "kmalloc e s2 = (True, s3)"
      "s' = set_group e (convert_group e tsk tg) s3" "tsk' = tsk" "r = tg_fid_count tg + 1"
proof -
  obtain g s1 where g: "find_or_generate e s (tsk_tgid tsk) = (g, s1)" by (meson surj_pair)
  with assms obtain tg where tg: "g = Inr tg" by (cases g) (auto simp: do_convert_eq)
  show ?thesis
  proof (cases "get_thread e (tsk_pid tsk) tg")
    case None
    obtain a s2 where 2: "kmalloc e s1 = (a, s2)" by (meson surj_pair)
    obtain b s3 where 3: "kmalloc e s2 = (b, s3)" by (meson surj_pair)
    have "a \<and> b" using assms g tg None 2 3 by (cases a; cases b) (simp_all add: do_convert_eq)
    with assms g tg None 2 3
    have "s' = set_group e (convert_group e tsk tg) s3 \<and> tsk' = tsk \<and> r = tg_fid_count tg + 1"
      by (auto simp: do_convert_eq)
    with \<open>a \<and> b\<close> g tg None 2 3 show ?thesis by (intro new) auto
  next
    case (Some t)
    with assms g tg have "s1 = s' \<and> tsk' = tsk \<and> r = - EEXIST" by (simp add: do_convert_eq)
    with g tg Some show ?thesis by (intro exists) auto
  qed
qed

lemma do_create_eq:
  "do_create_fiber e s tsk sb ss ep arg =
     (case get_group e (tsk_tgid tsk) s of
        None \<Rightarrow> Done s tsk (- ESRCH)
      | Some tg \<Rightarrow>
        (case get_thread e (tsk_pid tsk) tg of
           None \<Rightarrow> Done s tsk (- ESRCH)
         | Some t \<Rightarrow>
           (case kmalloc e s of
              (False, _) \<Rightarrow> Oops
            | (True, s1) \<Rightarrow>
                Done (set_group e (create_group e tsk t sb ss ep arg tg) s1) tsk
                  (tg_fid_count tg + 1))))"
proof -
  obtain a s1 where "kmalloc e s = (a, s1)" by (meson surj_pair)
  then show ?thesis
    by (cases a) (simp_all add: do_create_fiber_def generate_fiber_def create_group_def Let_def
        split: option.split)
qed

lemma do_create_cases:
  assumes "do_create_fiber e s tsk sb ss ep arg = Done s' tsk' r"
  obtains (absent) "s' = s" "tsk' = tsk" "r = - ESRCH"
  | (created) tg t s1 where "get_group e (tsk_tgid tsk) s = Some tg"
      "get_thread e (tsk_pid tsk) tg = Some t" "kmalloc e s = (True, s1)"
      "s' = set_group e (create_group e tsk t sb ss ep arg tg) s1" "tsk' = tsk"
      "r = tg_fid_count tg + 1"
proof (cases "get_group e (tsk_tgid tsk) s")
  case None
  then show ?thesis using assms absent by (simp add: do_create_eq)
next
  case (Some tg)
  note tg = Some
  show ?thesis
  proof (cases "get_thread e (tsk_pid tsk) tg")
    case None
    then show ?thesis using tg assms absent by (simp add: do_create_eq)
  next
    case (Some t)
    obtain a s1 where k: "kmalloc e s = (a, s1)" by (meson surj_pair)
    with assms tg Some have a by (cases a) (simp_all add: do_create_eq)
    with assms tg Some k
    have "s' = set_group e (create_group e tsk t sb ss ep arg tg) s1 \<and> tsk' = tsk \<and>
        r = tg_fid_count tg + 1"
      by (auto simp: do_create_eq)
    with \<open>a\<close> tg Some k show ?thesis by (intro created) auto
  qed
qed

lemma map_option_enter:
  "map_option (activate p (tsk_utime tsk)) (map_option spin_trylock x) = map_option (enter_fiber tsk p) x"
  by (cases x) (simp_all add: enter_fiber_def)

lemma map_option_leave:
  "map_option spin_unlock (map_option clear_state (map_option (account_time (tsk_utime tsk))
     (map_option (save_context tsk) x))) = map_option (leave_fiber tsk) x"
  by (cases x) (simp_all add: leave_fiber_def)

lemma switch_group_fiber:
  assumes "old \<noteq> nxt"
  shows "get_fiber e k (switch_group e tsk p old nxt tg) =
     (if k = nxt then map_option (enter_fiber tsk p) (get_fiber e k tg)
      else if k = old then map_option (leave_fiber tsk) (get_fiber e k tg)
      else get_fiber e k tg)"
  using assms by (simp add: switch_group_def table_simps map_option_enter map_option_leave)

lemma switch_group_thread:
  "get_thread e q (switch_group e tsk p old nxt tg) =
     (if q = p then map_option (\<lambda>t. t\<lparr>t_current_fid := nxt\<rparr>) (get_thread e q tg)
      else get_thread e q tg)"
  by (simp add: switch_group_def table_simps)

lemma switch_group_keys [simp]:
  "tg_tgid (switch_group e tsk p old nxt tg) = tg_tgid tg"
  "tg_fid_count (switch_group e tsk p old nxt tg) = tg_fid_count tg"
  by (simp_all add: switch_group_def)

lemma switch_group_present:
  "get_fiber e k (switch_group e tsk p old nxt tg) = None \<longleftrightarrow> get_fiber e k tg = None"
  by (simp add: switch_group_def table_simps)

lemma do_switch_eq:
  "do_switch_to_fiber e s tsk nxt =
     (case get_group e (tsk_tgid tsk) s of
        None \<Rightarrow> Done s tsk (- ESRCH)
      | Some tg \<Rightarrow>
        (case get_thread e (tsk_pid tsk) tg of
           None \<Rightarrow> Done s tsk (- ESRCH)
         | Some t \<Rightarrow>
           (case get_fiber e nxt tg of
              None \<Rightarrow> Done s tsk (- ESRCH)
            | Some new_f \<Rightarrow>
              if f_flock new_f \<or> info_state (f_info new_f) \<noteq> 0
              then Done (set_group e (mod_fiber e nxt fail_activation
                     (mod_fiber e nxt spin_trylock tg)) s) tsk (- EAGAIN)
              else if get_fiber e (t_current_fid t) tg = None
              then Done (set_group e (mod_fiber e nxt spin_trylock tg) s) tsk (- ESRCH)
              else (let tg' = switch_group e tsk (t_pid t) (t_current_fid t) nxt tg;
                        f = the (get_fiber e nxt tg')
                    in Done (set_group e tg' s)
                         (tsk\<lparr>tsk_regs := ctx_regs (f_context f), tsk_fx := ctx_fpu (f_context f)\<rparr>)
                         SUCCESS))))"
proof -
  have present: "get_fiber e k (mod_fiber e nxt spin_trylock tg) = None \<longleftrightarrow> get_fiber e k tg = None"
    for k tg by (simp add: table_simps)
  have after: "(case get_fiber e nxt (switch_group e tsk p old nxt tg) of
        None \<Rightarrow> Oops | Some f \<Rightarrow> F f) = F (the (get_fiber e nxt (switch_group e tsk p old nxt tg)))"
    if "get_fiber e nxt tg = Some f" for p old tg f and F :: "fiber \<Rightarrow> c_int outcome"
    using that switch_group_present [of e nxt tsk p old nxt tg]
    by (cases "get_fiber e nxt (switch_group e tsk p old nxt tg)") simp_all
  have old: "(case get_fiber e k (mod_fiber e nxt spin_trylock tg) of
        None \<Rightarrow> x | Some f \<Rightarrow> y) = (if get_fiber e k tg = None then x else y)"
    for k tg and x y :: "c_int outcome"
    using present [of k tg]
    by (cases "get_fiber e k (mod_fiber e nxt spin_trylock tg)"; cases "get_fiber e k tg") simp_all
  show ?thesis
    by (simp add: do_switch_to_fiber_def Let_def switch_group_def [symmetric] after old
        cong: option.case_cong split: option.split)
qed

lemma do_switch_cases:
  assumes "do_switch_to_fiber e s tsk nxt = Done s' tsk' r"
  obtains (absent) "s' = s" "tsk' = tsk" "r = - ESRCH"
  | (busy) tg t f where "get_group e (tsk_tgid tsk) s = Some tg"
      "get_thread e (tsk_pid tsk) tg = Some t" "get_fiber e nxt tg = Some f"
      "f_flock f \<or> info_state (f_info f) \<noteq> 0" "tsk' = tsk" "r = - EAGAIN"
      "s' = set_group e (mod_fiber e nxt fail_activation (mod_fiber e nxt spin_trylock tg)) s"
  | (orphan) tg t f where "get_group e (tsk_tgid tsk) s = Some tg"
      "get_thread e (tsk_pid tsk) tg = Some t" "get_fiber e nxt tg = Some f"
      "\<not> f_flock f" "info_state (f_info f) = 0" "get_fiber e (t_current_fid t) tg = None"
      "tsk' = tsk" "r = - ESRCH" "s' = set_group e (mod_fiber e nxt spin_trylock tg) s"
  | (switched) tg t f old_f f' where "get_group e (tsk_tgid tsk) s = Some tg"
      "get_thread e (tsk_pid tsk) tg = Some t" "get_fiber e nxt tg = Some f"
      "\<not> f_flock f" "info_state (f_info f) = 0"
      "get_fiber e (t_current_fid t) tg = Some old_f"
      "get_fiber e nxt (switch_group e tsk (t_pid t) (t_current_fid t) nxt tg) = Some f'"
      "s' = set_group e (switch_group e tsk (t_pid t) (t_current_fid t) nxt tg) s"
      "tsk' = tsk\<lparr>tsk_regs := ctx_regs (f_context f'), tsk_fx := ctx_fpu (f_context f')\<rparr>"
      "r = SUCCESS"
proof (cases "get_group e (tsk_tgid tsk) s")
  case None
  then show ?thesis using assms absent by (simp add: do_switch_eq)
next
  case (Some tg)
  note tg = Some
  show ?thesis
  proof (cases "get_thread e (tsk_pid tsk) tg")
    case None
    then show ?thesis using tg assms absent by (simp add: do_switch_eq)
  next
    case (Some t)
    note t = Some
    show ?thesis
    proof (cases "get_fiber e nxt tg")
      case None
      then show ?thesis using tg t assms absent by (simp add: do_switch_eq)
    next
      case (Some f)
      note eq = assms [unfolded do_switch_eq tg t Some option.case Let_def]
      obtain f' where f':
        "get_fiber e nxt (switch_group e tsk (t_pid t) (t_current_fid t) nxt tg) = Some f'"
        using Some switch_group_present by (metis not_None_eq)
      consider "f_flock f \<or> info_state (f_info f) \<noteq> 0"
        | "\<not> f_flock f" "info_state (f_info f) = 0" "get_fiber e (t_current_fid t) tg = None"
        | old_f where "\<not> f_flock f" "info_state (f_info f) = 0"
            "get_fiber e (t_current_fid t) tg = Some old_f"
        by (cases "get_fiber e (t_current_fid t) tg") blast+
      then show ?thesis
      proof cases
        case 1
        with eq have "tsk' = tsk \<and> r = - EAGAIN \<and> s' = set_group e
            (mod_fiber e nxt fail_activation (mod_fiber e nxt spin_trylock tg)) s"
          by simp
        with 1 tg t Some show ?thesis by (intro busy) auto
      next
        case 2
        with eq have "tsk' = tsk \<and> r = - ESRCH \<and> s' = set_group e (mod_fiber e nxt spin_trylock tg) s"
          by simp
        with 2 tg t Some show ?thesis by (intro orphan) auto
      next
        case 3
        with eq f' have "r = SUCCESS \<and>
            s' = set_group e (switch_group e tsk (t_pid t) (t_current_fid t) nxt tg) s \<and>
            tsk' = tsk\<lparr>tsk_regs := ctx_regs (f_context f'), tsk_fx := ctx_fpu (f_context f')\<rparr>"
          by simp
        with 3 tg t Some f' show ?thesis by (intro switched) auto
      qed
    qed
  qed
qed

end
