(* ===== verification/Fiber_Pres.thy ===== *)
theory Fiber_Pres
  imports Fiber_Inv
begin

text \<open>
  Every handler of \<open>fiber.c\<close> preserves the invariant \<open>kstate_inv\<close>, as long as the id
  counter of the group is not about to wrap (\<open>tg_fid_count tg \<noteq> - 2\<close>: the next creation
  would use the last id). First the group-level operations, then their lifting to the
  state of the module, then the handlers.
\<close>

section \<open>Lookups after the group-level operations\<close>

lemma convert_group_fiber:
  "get_fiber e k (convert_group e tsk tg) =
     (if k = tg_fid_count tg + 1
      then Some (enter_fiber tsk (tsk_pid tsk)
             (new_fiber tg \<lparr>t_pid = tsk_pid tsk, t_current_fid = NO_FIBERS\<rparr> tsk))
      else get_fiber e k tg)"
  by (simp add: convert_group_def table_simps Let_def enter_fiber_def)

lemma convert_group_thread:
  "get_thread e q (convert_group e tsk tg) =
     (if q = tsk_pid tsk then Some \<lparr>t_pid = tsk_pid tsk, t_current_fid = tg_fid_count tg + 1\<rparr>
      else get_thread e q tg)"
  by (simp add: convert_group_def table_simps Let_def)

lemma convert_group_keys [simp]:
  "tg_tgid (convert_group e tsk tg) = tg_tgid tg"
  "tg_fid_count (convert_group e tsk tg) = tg_fid_count tg + 1"
  by (simp_all add: convert_group_def Let_def)

lemma create_group_fiber:
  "get_fiber e k (create_group e tsk t sb ss ep arg tg) =
     (if k = tg_fid_count tg + 1
      then Some (ALLOC_CONTEXT ep arg (ALLOC_STACK sb ss (new_fiber tg t tsk)))
      else get_fiber e k tg)"
  by (simp add: create_group_def table_simps Let_def)

lemma create_group_thread:
  "get_thread e q (create_group e tsk t sb ss ep arg tg) = get_thread e q tg"
  by (simp add: create_group_def table_simps Let_def)

lemma create_group_keys [simp]:
  "tg_tgid (create_group e tsk t sb ss ep arg tg) = tg_tgid tg"
  "tg_fid_count (create_group e tsk t sb ss ep arg tg) = tg_fid_count tg + 1"
  by (simp_all add: create_group_def Let_def)

section \<open>Lock and owner of a fiber after one operation\<close>

lemma fiber_owner_fields [simp]:
  "f_flock (enter_fiber tsk p f) = True" "info_state (f_info (enter_fiber tsk p f)) = p"
  "f_flock (leave_fiber tsk f) = False" "info_state (f_info (leave_fiber tsk f)) = 0"
  "f_flock (ALLOC_CONTEXT ep arg f) = f_flock f"
  "info_state (f_info (ALLOC_CONTEXT ep arg f)) = info_state (f_info f)"
  "f_flock (ALLOC_STACK sb ss f) = f_flock f"
  "info_state (f_info (ALLOC_STACK sb ss f)) = info_state (f_info f)"
  "f_flock (fail_activation f) = f_flock f"
  "info_state (f_info (fail_activation f)) = info_state (f_info f)"
  "f_flock (spin_trylock f) = True" "info_state (f_info (spin_trylock f)) = info_state (f_info f)"
  by (simp_all add: object_defs Let_def)

section \<open>Well-formed tables and dense ids\<close>

lemma tables_wf_mod_fiber:
  "tables_wf e tg \<Longrightarrow> (\<And>f. f_fid f = k \<Longrightarrow> f_fid (g f) = k) \<Longrightarrow> tables_wf e (mod_fiber e k g tg)"
  using fib.wf_store [of e tg k g] by (simp add: tables_wf_def)

lemma tables_wf_mod_thread:
  "tables_wf e tg \<Longrightarrow> (\<And>t. t_pid t = k \<Longrightarrow> t_pid (g t) = k) \<Longrightarrow> tables_wf e (mod_thread e k g tg)"
  using thr.wf_store [of e tg k g] by (simp add: tables_wf_def)

lemma tables_wf_add_fiber:
  "tables_wf e tg \<Longrightarrow> get_fiber e (f_fid f) tg = None \<Longrightarrow> tables_wf e (add_fiber e f tg)"
  using fib.wf_add [of e tg f] by (simp add: tables_wf_def)

lemma tables_wf_add_thread:
  "tables_wf e tg \<Longrightarrow> get_thread e (t_pid t) tg = None \<Longrightarrow> tables_wf e (add_thread e t tg)"
  using thr.wf_add [of e tg t] by (simp add: tables_wf_def)

lemma tables_wf_count [simp]: "tables_wf e (tg\<lparr>tg_fid_count := c\<rparr>) = tables_wf e tg"
  by (simp add: tables_wf_def)

lemma tables_wf_activate:
  "tables_wf e tg \<Longrightarrow> tables_wf e (ACTIVATE_FIBER_FROM_THREAD e k p tsk tg)"
  by (simp add: ACTIVATE_FIBER_FROM_THREAD_def tables_wf_mod_fiber tables_wf_mod_thread)

lemma next_fid_fresh: "fids_dense e tg \<Longrightarrow> get_fiber e (tg_fid_count tg + 1) tg = None"
  unfolding fids_dense_def by (metis less_irrefl)

lemma tables_wf_convert:
  assumes "tables_wf e tg" and "fids_dense e tg" and "get_thread e (tsk_pid tsk) tg = None"
  shows "tables_wf e (convert_group e tsk tg)"
  using assms next_fid_fresh [OF assms(2)]
  by (auto simp: convert_group_def Let_def table_simps
      intro!: tables_wf_activate tables_wf_mod_fiber tables_wf_add_fiber tables_wf_add_thread)

lemma tables_wf_create:
  assumes "tables_wf e tg" and "fids_dense e tg"
  shows "tables_wf e (create_group e tsk t sb ss ep arg tg)"
  using assms next_fid_fresh [OF assms(2)]
  by (auto simp: create_group_def Let_def table_simps
      intro!: tables_wf_mod_fiber tables_wf_add_fiber)

lemma tables_wf_switch: "tables_wf e tg \<Longrightarrow> tables_wf e (switch_group e tsk p old nxt tg)"
  by (simp add: switch_group_def tables_wf_mod_fiber tables_wf_activate)

lemma next_count:
  fixes c :: "32 word"
  assumes "c \<noteq> - 2"
  shows "unat (c + 1 + 1) = Suc (unat (c + 1))"
proof (rule unat_Suc_word)
  show "c + 1 + 1 \<noteq> 0"
  proof
    assume "c + 1 + 1 = 0"
    then have "c = - 2" by (simp add: add.assoc eq_neg_iff_add_eq_0)
    with assms show False by simp
  qed
qed

lemma fids_dense_grow:
  assumes "fids_dense e tg" and "tg_fid_count tg \<noteq> - 2"
    and "tg_fid_count tg' = tg_fid_count tg + 1"
    and "\<And>k. get_fiber e k tg' = None \<longleftrightarrow> k \<noteq> tg_fid_count tg + 1 \<and> get_fiber e k tg = None"
  shows "fids_dense e tg'"
proof -
  let ?c = "tg_fid_count tg + 1"
  have "(get_fiber e k tg' \<noteq> None) = (unat k < unat (?c + 1))" for k
  proof -
    have "(get_fiber e k tg' \<noteq> None) = (k = ?c \<or> unat k < unat ?c)"
      using assms(1,4) by (auto simp: fids_dense_def)
    also have "\<dots> = (unat k \<le> unat ?c)" by (metis le_eq_less_or_eq word_unat_eq_iff)
    also have "\<dots> = (unat k < unat (?c + 1))" by (simp only: next_count [OF assms(2)] less_Suc_eq_le)
    finally show ?thesis .
  qed
  then show ?thesis using assms(3) by (simp add: fids_dense_def)
qed

lemma fids_dense_same:
  assumes "fids_dense e tg" and "tg_fid_count tg' = tg_fid_count tg"
    and "\<And>k. get_fiber e k tg' = None \<longleftrightarrow> get_fiber e k tg = None"
  shows "fids_dense e tg'"
  using assms by (simp add: fids_dense_def)

section \<open>Ownership\<close>

lemma owner_invD:
  assumes "owner_inv e tg"
  shows "get_fiber e k tg = Some f \<Longrightarrow> fiber_owned e tg k f"
    and "get_thread e p tg = Some t \<Longrightarrow> thread_running e tg p t"
  using assms by (auto simp: owner_inv_def)

text \<open>The thread that a running fiber names runs it, and nobody else does.\<close>

lemma owner_unique:
  assumes "owner_inv e tg" and "get_fiber e k tg = Some f" and "info_state (f_info f) = q" "q \<noteq> 0"
  shows "get_thread e p tg = Some t \<Longrightarrow> t_current_fid t = k \<longleftrightarrow> p = q"
proof -
  assume t: "get_thread e p tg = Some t"
  obtain t' where "get_thread e q tg = Some t'" and "t_current_fid t' = k"
    using owner_invD(1) [OF assms(1,2)] assms(3,4) by (auto simp: fiber_owned_def)
  moreover have "\<exists>f'. get_fiber e (t_current_fid t) tg = Some f' \<and> info_state (f_info f') = p"
    using owner_invD(2) [OF assms(1) t] by (simp add: thread_running_def)
  ultimately show ?thesis using t assms(2,3) by auto
qed

lemma owner_inv_convert:
  assumes inv: "owner_inv e tg" and fresh: "get_fiber e (tg_fid_count tg + 1) tg = None"
    and new: "get_thread e (tsk_pid tsk) tg = None" and pid: "tsk_pid tsk \<noteq> 0"
  shows "owner_inv e (convert_group e tsk tg)"
  unfolding owner_inv_def
proof (intro conjI allI impI)
  fix k f assume f: "get_fiber e k (convert_group e tsk tg) = Some f"
  show "fiber_owned e (convert_group e tsk tg) k f"
  proof (cases "k = tg_fid_count tg + 1")
    case True
    with f pid show ?thesis
      by (auto simp: convert_group_fiber convert_group_thread fiber_owned_def)
  next
    case False
    with f have "fiber_owned e tg k f" using owner_invD(1) [OF inv] by (simp add: convert_group_fiber)
    with new show ?thesis by (auto simp: fiber_owned_def convert_group_thread)
  qed
next
  fix p t assume t: "get_thread e p (convert_group e tsk tg) = Some t"
  show "thread_running e (convert_group e tsk tg) p t"
  proof (cases "p = tsk_pid tsk")
    case True
    with t pid show ?thesis
      by (auto simp: convert_group_fiber convert_group_thread thread_running_def)
  next
    case False
    with t have "thread_running e tg p t"
      using owner_invD(2) [OF inv] by (simp add: convert_group_thread)
    with fresh show ?thesis by (auto simp: thread_running_def convert_group_fiber)
  qed
qed

lemma owner_inv_create:
  assumes inv: "owner_inv e tg" and fresh: "get_fiber e (tg_fid_count tg + 1) tg = None"
  shows "owner_inv e (create_group e tsk t sb ss ep arg tg)"
  using assms
  by (auto simp: owner_inv_def fiber_owned_def thread_running_def create_group_fiber
      create_group_thread split: if_splits) fastforce+

lemma owner_inv_mod_fiber:
  assumes inv: "owner_inv e tg" and key: "\<And>f. f_fid f = k \<Longrightarrow> f_fid (g f) = k"
    and same: "\<And>f. get_fiber e k tg = Some f \<Longrightarrow>
      f_flock (g f) = f_flock f \<and> info_state (f_info (g f)) = info_state (f_info f)"
  shows "owner_inv e (mod_fiber e k g tg)"
  unfolding owner_inv_def
proof (intro conjI allI impI)
  fix j f assume "get_fiber e j (mod_fiber e k g tg) = Some f"
  then obtain f0 where f0: "get_fiber e j tg = Some f0" "f_flock f = f_flock f0"
      "info_state (f_info f) = info_state (f_info f0)"
    using key same by (auto simp: fib.lookup_store split: if_splits)
  with owner_invD(1) [OF inv] show "fiber_owned e (mod_fiber e k g tg) j f"
    by (auto simp: fiber_owned_def frame_lookups)
next
  fix p t assume "get_thread e p (mod_fiber e k g tg) = Some t"
  then have "thread_running e tg p t" using owner_invD(2) [OF inv] by (simp add: frame_lookups)
  then show "thread_running e (mod_fiber e k g tg) p t"
    using key same by (auto simp: thread_running_def fib.lookup_store)
qed

lemma owner_inv_switch:
  assumes inv: "owner_inv e tg" and t: "get_thread e p tg = Some t"
    and f: "get_fiber e nxt tg = Some f" and free: "info_state (f_info f) = 0"
  shows "owner_inv e (switch_group e tsk p (t_current_fid t) nxt tg)"
proof -
  let ?old = "t_current_fid t"
  obtain f0 where f0: "get_fiber e ?old tg = Some f0" "info_state (f_info f0) = p" and p: "p \<noteq> 0"
    using owner_invD(2) [OF inv t] by (auto simp: thread_running_def)
  have ne: "?old \<noteq> nxt" using f free f0 p by auto
  note look = switch_group_fiber [OF ne] switch_group_thread
  show ?thesis
    unfolding owner_inv_def
  proof (intro conjI allI impI)
    fix k g assume g: "get_fiber e k (switch_group e tsk p ?old nxt tg) = Some g"
    show "fiber_owned e (switch_group e tsk p ?old nxt tg) k g"
    proof (cases "k = nxt \<or> k = ?old")
      case True
      with g f f0 t p ne show ?thesis by (auto simp: look fiber_owned_def)
    next
      case False
      with g have g': "get_fiber e k tg = Some g" by (simp add: look)
      have "info_state (f_info g) \<noteq> p"
        using owner_unique [OF inv g' refl _ t] False p by auto
      with owner_invD(1) [OF inv g'] show ?thesis by (auto simp: look fiber_owned_def)
    qed
  next
    fix q u assume u: "get_thread e q (switch_group e tsk p ?old nxt tg) = Some u"
    show "thread_running e (switch_group e tsk p ?old nxt tg) q u"
    proof (cases "q = p")
      case True
      with u t f p show ?thesis by (auto simp: look thread_running_def)
    next
      case False
      with u have u': "get_thread e q tg = Some u" by (simp add: look)
      have "t_current_fid u \<noteq> ?old" using owner_unique [OF inv f0 p u'] False by simp
      moreover have "t_current_fid u \<noteq> nxt"
        using owner_invD(2) [OF inv u'] f free by (auto simp: thread_running_def)
      ultimately show ?thesis
        using owner_invD(2) [OF inv u'] by (simp add: look thread_running_def)
    qed
  qed
qed

section \<open>The group invariant\<close>

lemma group_inv_convert:
  assumes "group_inv e tg" and "get_thread e (tsk_pid tsk) tg = None" and "tsk_pid tsk \<noteq> 0"
    and "tg_fid_count tg \<noteq> - 2"
  shows "group_inv e (convert_group e tsk tg)"
  using assms next_fid_fresh [of e tg]
  by (auto simp: group_inv_def convert_group_fiber split: if_splits
      intro!: tables_wf_convert owner_inv_convert fids_dense_grow [of e tg])

lemma group_inv_create:
  assumes "group_inv e tg" and "tg_fid_count tg \<noteq> - 2"
  shows "group_inv e (create_group e tsk t sb ss ep arg tg)"
  using assms next_fid_fresh [of e tg]
  by (auto simp: group_inv_def create_group_fiber split: if_splits
      intro!: tables_wf_create owner_inv_create fids_dense_grow [of e tg])

lemma group_inv_switch:
  assumes "group_inv e tg" and "get_thread e p tg = Some t" and "get_fiber e nxt tg = Some f"
    and "info_state (f_info f) = 0"
  shows "group_inv e (switch_group e tsk p (t_current_fid t) nxt tg)"
  using assms
  by (auto simp: group_inv_def switch_group_present
      intro!: tables_wf_switch owner_inv_switch fids_dense_same [of e tg])

lemma group_inv_mod_fiber:
  assumes "group_inv e tg" and "\<And>f. f_fid f = k \<Longrightarrow> f_fid (g f) = k"
    and "\<And>f. get_fiber e k tg = Some f \<Longrightarrow>
      f_flock (g f) = f_flock f \<and> info_state (f_info (g f)) = info_state (f_info f)"
  shows "group_inv e (mod_fiber e k g tg)"
  using assms
  by (auto simp: group_inv_def fib.store_present
      intro!: tables_wf_mod_fiber owner_inv_mod_fiber fids_dense_same [of e tg])

lemma group_inv_empty:
  "group_inv e \<lparr>tg_tgid = k, tg_fid_count = NO_FIBERS, tg_threads = hash_init, tg_fibers = hash_init\<rparr>"
  by (simp add: group_inv_def tables_wf_def fids_dense_def owner_inv_def get_fiber_def get_thread_def)

text \<open>A thread that exists always has a current fiber, so the switch never misses it.\<close>

lemma current_fiber_exists:
  assumes "group_inv e tg" and "get_thread e p tg = Some t"
  shows "\<exists>f. get_fiber e (t_current_fid t) tg = Some f \<and> info_state (f_info f) = p \<and> f_flock f \<and> p \<noteq> 0"
  using assms owner_invD [of e tg] unfolding group_inv_def thread_running_def fiber_owned_def
  by blast

end
