(* ===== verification/Fiber_Run.thy ===== *)
theory Fiber_Run
  imports Fiber_Pres
begin

text \<open>
  The invariant of the module over whole runs. \<open>syscall\<close> is one operation of the module
  by one task: a conversion, a creation, a switch, a storage operation, or the release of
  the device, which cleans up the process. \<open>reachable e n s\<close> says that \<open>s\<close> is reached from
  the loaded module by \<open>n\<close> operations of any tasks in any order; each handler is one
  step, and between two steps of a task its registers may change in any way.
\<close>

section \<open>Counting the live objects\<close>

lemma sum_objects_upd:
  fixes F G :: "pid_t \<Rightarrow> nat"
  assumes "\<And>k. k \<noteq> a \<Longrightarrow> G k = F k"
  shows "(\<Sum>k \<in> UNIV. G k) + F a = (\<Sum>k \<in> UNIV. F k) + G a"
proof -
  have "(\<Sum>k \<in> UNIV - {a}. G k) = (\<Sum>k \<in> UNIV - {a}. F k)"
    using assms by (intro sum.cong) auto
  moreover have "(\<Sum>k \<in> UNIV. G k) = G a + (\<Sum>k \<in> UNIV - {a}. G k)"
    and "(\<Sum>k \<in> UNIV. F k) = F a + (\<Sum>k \<in> UNIV - {a}. F k)"
    by (simp_all add: sum.remove [of UNIV a])
  ultimately show ?thesis by simp
qed

lemma group_objects_mod_fiber [simp]:
  "tables_wf e tg \<Longrightarrow> (\<And>f. f_fid f = k \<Longrightarrow> f_fid (g f) = k) \<Longrightarrow>
     group_objects (mod_fiber e k g tg) = group_objects tg"
  using fib.length_entries_store [of e tg k g] by (simp add: group_objects_def tables_wf_def)

lemma group_objects_mod_thread [simp]:
  "tables_wf e tg \<Longrightarrow> (\<And>t. t_pid t = k \<Longrightarrow> t_pid (g t) = k) \<Longrightarrow>
     group_objects (mod_thread e k g tg) = group_objects tg"
  using thr.length_entries_store [of e tg k g] by (simp add: group_objects_def tables_wf_def)

lemma group_objects_activate [simp]:
  "tables_wf e tg \<Longrightarrow> group_objects (ACTIVATE_FIBER_FROM_THREAD e k p tsk tg) = group_objects tg"
  by (simp add: ACTIVATE_FIBER_FROM_THREAD_def tables_wf_mod_fiber)

lemma group_objects_add_fiber [simp]:
  "tables_wf e tg \<Longrightarrow> get_fiber e (f_fid f) tg = None \<Longrightarrow>
     group_objects (add_fiber e f tg) = Suc (group_objects tg)"
  using fib.length_entries_add [of e tg f] by (simp add: group_objects_def tables_wf_def)

lemma group_objects_add_thread [simp]:
  "tables_wf e tg \<Longrightarrow> get_thread e (t_pid t) tg = None \<Longrightarrow>
     group_objects (add_thread e t tg) = Suc (group_objects tg)"
  using thr.length_entries_add [of e tg t] by (simp add: group_objects_def tables_wf_def)

lemma group_objects_count [simp]: "group_objects (tg\<lparr>tg_fid_count := c\<rparr>) = group_objects tg"
  by (simp add: group_objects_def)

lemma group_objects_convert:
  assumes "group_inv e tg" and "get_thread e (tsk_pid tsk) tg = None"
  shows "group_objects (convert_group e tsk tg) = group_objects tg + 2"
  using assms next_fid_fresh [of e tg]
  by (simp add: convert_group_def Let_def group_inv_def tables_wf_add_thread tables_wf_add_fiber
      tables_wf_mod_fiber table_simps)

lemma group_objects_create:
  assumes "group_inv e tg"
  shows "group_objects (create_group e tsk t sb ss ep arg tg) = group_objects tg + 1"
  using assms next_fid_fresh [of e tg]
  by (simp add: create_group_def Let_def group_inv_def tables_wf_add_fiber tables_wf_mod_fiber
      table_simps)

lemma group_objects_switch:
  "tables_wf e tg \<Longrightarrow> group_objects (switch_group e tsk p old nxt tg) = group_objects tg"
  by (simp add: switch_group_def tables_wf_mod_fiber tables_wf_activate)

section \<open>Lifting to the state of the module\<close>

lemma kstate_invD:
  "kstate_inv e s \<Longrightarrow> get_group e k s = Some tg \<Longrightarrow> group_inv e tg"
  by (simp add: kstate_inv_def)

lemma set_group_counters [simp]:
  "live_objects (set_group e tg s) = live_objects s"
  "kmalloc_calls (set_group e tg s) = kmalloc_calls s"
  "freed_reads (set_group e tg s) = freed_reads s"
  by (simp_all add: set_group_def mod_group_def)

lemma set_group_inv:
  assumes inv: "kstate_inv e s" and tg: "get_group e k s = Some tg"
    and tg': "group_inv e tg'" "tg_tgid tg' = k" "group_objects tg' = group_objects tg + n"
    and s': "groups s' = groups s" "live_objects s' = live_objects s + n"
  shows "kstate_inv e (set_group e tg' s')"
proof -
  have look: "get_group e j (set_group e tg' s') = (if j = k then Some tg' else get_group e j s)" for j
    using tg tg'(2) get_group_cong [OF s'(1)] by (simp add: get_group_set)
  have wf: "hash_wf (hash_min e) tg_tgid (groups (set_group e tg' s'))"
    using inv s'(1) grp.wf_store [of e s' "tg_tgid tg'" "\<lambda>_. tg'"]
    by (simp add: kstate_inv_def set_group_def)
  have obj: "(\<Sum>j \<in> UNIV. objects_at e (set_group e tg' s') j) + objects_at e s k =
      (\<Sum>j \<in> UNIV. objects_at e s j) + objects_at e (set_group e tg' s') k"
    by (rule sum_objects_upd) (simp add: objects_at_def look)
  have "live_objects (set_group e tg' s') = (\<Sum>j \<in> UNIV. objects_at e (set_group e tg' s') j)"
    using inv s'(2) tg tg'(3) obj by (simp add: kstate_inv_def objects_at_def look)
  then show ?thesis
    using inv wf tg'(1) by (auto simp: kstate_inv_def look split: if_splits)
qed

lemma find_or_generate_inv:
  assumes inv: "kstate_inv e s" and fg: "find_or_generate e s k = (Inr tg, s')"
  shows "kstate_inv e s'" and "get_group e k s' = Some tg"
    and "\<And>j. j \<noteq> k \<Longrightarrow> get_group e j s' = get_group e j s"
proof -
  consider "get_group e k s = Some tg" "s' = s"
    | s1 where "get_group e k s = None" "kmalloc e s = (True, s1)" "s' = add_group e tg s1"
      "tg = \<lparr>tg_tgid = k, tg_fid_count = NO_FIBERS, tg_threads = hash_init, tg_fibers = hash_init\<rparr>"
  proof (cases "get_group e k s")
    case None
    obtain a s1 where k: "kmalloc e s = (a, s1)" by (meson surj_pair)
    with None fg have a by (cases a) (simp_all add: find_or_generate_def generate_group_def)
    with None fg k have "s' = add_group e tg s1" "kmalloc e s = (True, s1)"
      "tg = \<lparr>tg_tgid = k, tg_fid_count = NO_FIBERS, tg_threads = hash_init, tg_fibers = hash_init\<rparr>"
      by (auto simp: find_or_generate_def generate_group_def Let_def)
    with None show ?thesis by (intro that(2))
  next
    case (Some tg')
    with fg have "tg' = tg" "s' = s" by (simp_all add: find_or_generate_def)
    with Some show ?thesis by (intro that(1)) simp_all
  qed
  then have "kstate_inv e s' \<and> get_group e k s' = Some tg \<and>
      (\<forall>j. j \<noteq> k \<longrightarrow> get_group e j s' = get_group e j s)"
  proof cases
    case 1
    with inv show ?thesis by simp
  next
    case (2 s1)
    have s1: "groups s1 = groups s" "live_objects s1 = Suc (live_objects s)"
      using 2(2) by (auto simp: kmalloc_def Let_def)
    have look: "get_group e j s' = (if j = k then Some tg else get_group e j s)" for j
      using 2(3,4) get_group_cong [OF s1(1)] by (simp add: grp.lookup_add)
    have obj: "(\<Sum>j \<in> UNIV. objects_at e s' j) + objects_at e s k =
        (\<Sum>j \<in> UNIV. objects_at e s j) + objects_at e s' k"
      by (rule sum_objects_upd) (simp add: objects_at_def look)
    have "objects_at e s' k = 1"
      using 2(4) by (simp add: objects_at_def look group_objects_def thread_list_def fiber_list_def)
    then have "live_objects s' = (\<Sum>j \<in> UNIV. objects_at e s' j)"
      using inv obj s1(2) 2(1,3) by (simp add: kstate_inv_def objects_at_def add_group_def)
    moreover have "hash_wf (hash_min e) tg_tgid (groups s')"
      using inv 2 s1(1) get_group_cong [OF s1(1)] grp.wf_add [of e s1 tg] by (simp add: kstate_inv_def)
    ultimately show ?thesis
      using inv 2(4) group_inv_empty by (auto simp: kstate_inv_def look split: if_splits)
  qed
  then show "kstate_inv e s'" and "get_group e k s' = Some tg"
    and "\<And>j. j \<noteq> k \<Longrightarrow> get_group e j s' = get_group e j s" by simp_all
qed

section \<open>The handlers preserve the invariant\<close>

text \<open>The ids of the task's group are not used up.\<close>

definition fids_left :: "kenv \<Rightarrow> kstate \<Rightarrow> task \<Rightarrow> bool" where
  "fids_left e s tsk \<longleftrightarrow> (\<forall>tg. get_group e (tsk_tgid tsk) s = Some tg \<longrightarrow> tg_fid_count tg \<noteq> - 2)"

lemma find_or_generate_fids_left:
  assumes "find_or_generate e s (tsk_tgid tsk) = (Inr tg, s')" and "fids_left e s tsk"
  shows "tg_fid_count tg \<noteq> - 2"
  using assms
  by (auto simp: find_or_generate_def generate_group_def fids_left_def Let_def
      split: option.splits prod.splits bool.splits)

lemma group_key: "get_group e k s = Some tg \<Longrightarrow> tg_tgid tg = k"
  by (rule grp.lookup_key)

lemma kmalloc_live: "kmalloc e s = (True, s') \<Longrightarrow> live_objects s' = live_objects s + 1"
  by (auto simp: kmalloc_def Let_def)

lemma convert_inv:
  assumes inv: "kstate_inv e s" and "tsk_pid tsk \<noteq> 0" and left: "fids_left e s tsk"
    and "do_convert_thread_to_fiber e s tsk = Done s' tsk' r"
  shows "kstate_inv e s'"
  using assms(4)
proof (cases rule: do_convert_cases)
  case (exists tg t)
  then show ?thesis using find_or_generate_inv(1) [OF inv] by blast
next
  case (new tg s1 s2 s3)
  note fg = find_or_generate_inv [OF inv new(1)]
  have tg: "group_inv e tg" "tg_tgid tg = tsk_tgid tsk"
    using kstate_invD [OF fg(1,2)] group_key [OF fg(2)] by simp_all
  have "group_inv e (convert_group e tsk tg)"
    using tg new(2) assms(2) find_or_generate_fids_left [OF new(1) left] by (intro group_inv_convert)
  then show ?thesis
    unfolding new(5)
    using tg new(2) kmalloc_groups [OF new(3)] kmalloc_groups [OF new(4)]
      kmalloc_live [OF new(3)] kmalloc_live [OF new(4)]
    by (intro set_group_inv [OF fg(1,2), where n = 2]) (simp_all add: group_objects_convert)
qed

lemma create_inv:
  assumes inv: "kstate_inv e s" and left: "fids_left e s tsk"
    and "do_create_fiber e s tsk sb ss ep arg = Done s' tsk' r"
  shows "kstate_inv e s'"
  using assms(3)
proof (cases rule: do_create_cases)
  case absent
  with inv show ?thesis by simp
next
  case (created tg t s1)
  have tg: "group_inv e tg" "tg_tgid tg = tsk_tgid tsk"
    using kstate_invD [OF inv created(1)] group_key [OF created(1)] by simp_all
  have "group_inv e (create_group e tsk t sb ss ep arg tg)"
    using tg created(1) left by (intro group_inv_create) (auto simp: fids_left_def)
  then show ?thesis
    unfolding created(4)
    using tg kmalloc_groups [OF created(3)] kmalloc_live [OF created(3)]
    by (intro set_group_inv [OF inv created(1), where n = 1]) (simp_all add: group_objects_create)
qed

lemma mod_fiber_inv:
  assumes inv: "kstate_inv e s" and tg: "get_group e k s = Some tg"
    and key: "\<And>f. f_fid f = j \<Longrightarrow> f_fid (g f) = j"
    and same: "\<And>f. get_fiber e j tg = Some f \<Longrightarrow>
      f_flock (g f) = f_flock f \<and> info_state (f_info (g f)) = info_state (f_info f)"
  shows "kstate_inv e (set_group e (mod_fiber e j g tg) s)"
proof (rule set_group_inv [OF inv tg, where n = 0])
  have gi: "group_inv e tg" using kstate_invD [OF inv tg] .
  then show "group_inv e (mod_fiber e j g tg)" using key same by (rule group_inv_mod_fiber)
  show "group_objects (mod_fiber e j g tg) = group_objects tg + 0"
    using gi key by (simp add: group_inv_def)
qed (use group_key [OF tg] in simp_all)

text \<open>
  In a state that satisfies the invariant, a switch to a fiber that is in use leaves the
  lock as it is, and the two branches that would leave a lock behind are not taken.
\<close>

lemma busy_locked:
  assumes "group_inv e tg" and "get_fiber e k tg = Some f" and "f_flock f \<or> info_state (f_info f) \<noteq> 0"
  shows "f_flock f" and "info_state (f_info f) \<noteq> 0"
  using assms owner_invD(1) [of e tg k f] by (auto simp: group_inv_def fiber_owned_def)

lemma mod_fiber_busy:
  assumes "group_inv e tg" and "get_fiber e k tg = Some f" and "f_flock f \<or> info_state (f_info f) \<noteq> 0"
  shows "mod_fiber e k fail_activation (mod_fiber e k spin_trylock tg) = mod_fiber e k fail_activation tg"
proof -
  have find: "find (\<lambda>x. f_fid x = k) (tg_fibers tg (hash_min e k)) = Some f"
    using assms(2) by (simp add: get_fiber_def hash_search_def)
  have "spin_trylock f = f"
    using busy_locked(1) [OF assms] by (simp add: spin_trylock_def)
  with find have "store_first (\<lambda>x. f_fid x = k) spin_trylock (tg_fibers tg (hash_min e k)) =
      tg_fibers tg (hash_min e k)"
    by (rule store_first_id)
  then show ?thesis by (simp add: mod_fiber_def hash_store_def)
qed

lemma switch_inv:
  assumes inv: "kstate_inv e s" and "do_switch_to_fiber e s tsk nxt = Done s' tsk' r"
  shows "kstate_inv e s'"
  using assms(2)
proof (cases rule: do_switch_cases)
  case absent
  with inv show ?thesis by simp
next
  case (busy tg t f)
  note gi = kstate_invD [OF inv busy(1)]
  show ?thesis
    unfolding busy(7) mod_fiber_busy [OF gi busy(3,4)]
    by (rule mod_fiber_inv [OF inv busy(1)]) simp_all
next
  case (orphan tg t f)
  then show ?thesis using current_fiber_exists kstate_invD [OF inv orphan(1)] by fastforce
next
  case (switched tg t f old_f f')
  note gi = kstate_invD [OF inv switched(1)]
  have p: "t_pid t = tsk_pid tsk" using thr.lookup_key [OF switched(2)] .
  have "group_inv e (switch_group e tsk (t_pid t) (t_current_fid t) nxt tg)"
    using gi switched p by (intro group_inv_switch) simp_all
  then show ?thesis
    unfolding switched(8) using group_key [OF switched(1)] gi
    by (intro set_group_inv [OF inv switched(1), where n = 0])
      (simp_all add: group_objects_switch group_inv_def)
qed

lemma find_current_SomeD:
  assumes "find_current e s tsk = Some (tg, t, f)"
  shows "get_group e (tsk_tgid tsk) s = Some tg" and "get_thread e (tsk_pid tsk) tg = Some t"
    and "get_fiber e (t_current_fid t) tg = Some f"
  using assms by (auto simp: find_current_def split: option.splits)

lemma put_fls_inv:
  assumes "kstate_inv e s" and "find_current e s tsk = Some (tg, t, f)"
  shows "kstate_inv e (put_fls e s tg t x)"
  unfolding put_fls_def
  by (rule mod_fiber_inv [OF assms(1) find_current_SomeD(1) [OF assms(2)]]) simp_all

lemma fls_inv:
  assumes "kstate_inv e s"
  shows "do_fls_alloc e s tsk = Done s' tsk' r \<Longrightarrow> kstate_inv e s'"
    and "do_fls_get_value e s tsk i = Done s' tsk' r \<Longrightarrow> kstate_inv e s'"
    and "do_fls_free e s tsk i = Done s' tsk' r \<Longrightarrow> kstate_inv e s'"
    and "do_fls_set_value e s tsk i v = Done s' tsk' r \<Longrightarrow> kstate_inv e s'"
  using assms put_fls_inv [OF assms]
  by (auto simp: do_fls_alloc_def do_fls_get_value_def do_fls_free_def do_fls_set_value_def
      split: option.splits prod.splits if_splits)

end
