(* ===== verification/Fiber_Cleanup.thy ===== *)
theory Fiber_Cleanup
  imports Fiber_Run
begin

text \<open>
  The cleanup of \<open>fiber.c\<close>: \<open>cleanup_process\<close> removes exactly the group of the process
  and frees exactly its objects, \<open>cleanup_all\<close> empties the module. The traversals read one
  link of a freed object per object of the tables they walk.
\<close>

section \<open>The freeing loops\<close>

lemma free_chain_eq:
  "free_chain xs s = s\<lparr>live_objects := live_objects s - length xs,
     freed_reads := freed_reads s + length xs\<rparr>"
  by (induction xs arbitrary: s) simp_all

lemma free_buckets_eq:
  assumes "distinct bs"
  shows "free_buckets bs t s = s\<lparr>live_objects := live_objects s - length (concat (map t bs)),
     freed_reads := freed_reads s + length (concat (map t bs))\<rparr>"
  using assms
proof (induction bs arbitrary: t s)
  case (Cons b bs)
  then have "map (t(b := [])) bs = map t bs" by simp
  with Cons show ?case by (simp add: free_chain_eq)
qed simp

lemma free_table_eq:
  "free_buckets bucket_order t s = s\<lparr>live_objects := live_objects s - length (hash_entries t),
     freed_reads := freed_reads s + length (hash_entries t)\<rparr>"
  by (simp add: free_buckets_eq distinct_bucket_order hash_entries_def)

section \<open>One process\<close>

lemma cleanup_process_eq:
  "cleanup_process e s k =
     (case get_group e k s of
        None \<Rightarrow> (s, 0)
      | Some tg \<Rightarrow>
        (s\<lparr>groups := hash_del_rcu (hash_min e) tg_tgid k (groups s),
           live_objects := live_objects s - group_objects tg,
           freed_reads := freed_reads s + length (thread_list tg) + length (fiber_list tg)\<rparr>, 0))"
  by (simp add: cleanup_process_def free_table_eq Let_def group_objects_def thread_list_def
      fiber_list_def add.assoc split: option.split)

lemma cleanup_process_lookup:
  assumes "hash_wf (hash_min e) tg_tgid (groups s)"
  shows "get_group e j (fst (cleanup_process e s k)) = (if j = k then None else get_group e j s)"
proof (cases "get_group e k s")
  case None
  then show ?thesis by (auto simp: cleanup_process_eq)
next
  case (Some tg)
  have "get_group e j (fst (cleanup_process e s k)) =
      get_group e j (s\<lparr>groups := hash_del_rcu (hash_min e) tg_tgid k (groups s)\<rparr>)"
    using Some by (simp add: cleanup_process_eq get_group_def)
  then show ?thesis using grp.lookup_del [OF assms] by simp
qed

lemma cleanup_process_wf:
  "hash_wf (hash_min e) tg_tgid (groups s) \<Longrightarrow>
     hash_wf (hash_min e) tg_tgid (groups (fst (cleanup_process e s k)))"
  by (simp add: cleanup_process_eq hash_wf_del split: option.split)

lemma cleanup_process_inv:
  assumes inv: "kstate_inv e s"
  shows "kstate_inv e (fst (cleanup_process e s k))" (is "kstate_inv e ?s")
proof (cases "get_group e k s")
  case None
  with inv show ?thesis by (simp add: cleanup_process_eq)
next
  case (Some tg)
  have wf: "hash_wf (hash_min e) tg_tgid (groups s)" using inv by (simp add: kstate_inv_def)
  note look = cleanup_process_lookup [OF wf]
  have "(\<Sum>j \<in> UNIV. objects_at e ?s j) + objects_at e s k =
      (\<Sum>j \<in> UNIV. objects_at e s j) + objects_at e ?s k"
    by (rule sum_objects_upd) (simp add: objects_at_def look)
  then have "live_objects ?s = (\<Sum>j \<in> UNIV. objects_at e ?s j)"
    using inv Some by (simp add: kstate_inv_def objects_at_def look) (simp add: cleanup_process_eq)
  then show ?thesis
    using inv cleanup_process_wf [OF wf] by (auto simp: kstate_inv_def look split: if_splits)
qed

section \<open>All processes\<close>

lemma get_group_freed [simp]: "get_group e k (s\<lparr>freed_reads := n\<rparr>) = get_group e k s"
  by (simp add: get_group_def)

lemma kstate_inv_freed [simp]: "kstate_inv e (s\<lparr>freed_reads := n\<rparr>) = kstate_inv e s"
  by (simp add: kstate_inv_def objects_at_def)

lemma cleanup_chain_spec:
  assumes "kstate_inv e s"
  shows "kstate_inv e (cleanup_chain e tgs s) \<and>
    (\<forall>j. get_group e j (cleanup_chain e tgs s) =
      (if j \<in> tg_tgid ` set tgs then None else get_group e j s))"
  using assms
proof (induction tgs arbitrary: s)
  case (Cons tg tgs)
  let ?s = "(fst (cleanup_process e s (tg_tgid tg)))
    \<lparr>freed_reads := Suc (freed_reads (fst (cleanup_process e s (tg_tgid tg))))\<rparr>"
  have inv: "kstate_inv e ?s" using cleanup_process_inv [OF Cons.prems] by simp
  have "hash_wf (hash_min e) tg_tgid (groups s)" using Cons.prems by (simp add: kstate_inv_def)
  note look = cleanup_process_lookup [OF this]
  show ?case using Cons.IH [OF inv] by (auto simp: Let_def look)
qed simp

lemma group_in_chain:
  assumes "get_group e j s = Some tg"
  shows "tg \<in> set (groups s (hash_min e j))" and "tg_tgid tg = j"
  using assms by (auto simp: get_group_def hash_search_def dest: find_SomeD)

lemma chain_groups_hash:
  assumes "kstate_inv e s" and "j \<in> tg_tgid ` set (groups s b)"
  shows "hash_min e j = b"
  using assms by (auto simp: kstate_inv_def hash_wf_def)

lemma cleanup_buckets_spec:
  assumes "kstate_inv e s"
  shows "kstate_inv e (cleanup_buckets e bs s) \<and>
    (\<forall>j. get_group e j (cleanup_buckets e bs s) =
      (if hash_min e j \<in> set bs then None else get_group e j s))"
  using assms
proof (induction bs arbitrary: s)
  case (Cons b bs)
  let ?s = "cleanup_chain e (groups s b) s"
  have c: "kstate_inv e ?s"
      "\<And>j. get_group e j ?s = (if j \<in> tg_tgid ` set (groups s b) then None else get_group e j s)"
    using cleanup_chain_spec [OF Cons.prems, of "groups s b"] by simp_all
  have "get_group e j ?s = (if hash_min e j = b then None else get_group e j s)" for j
  proof (cases "get_group e j s")
    case None
    then show ?thesis by (simp add: c(2))
  next
    case (Some tg)
    have "j \<in> tg_tgid ` set (groups s b) \<longleftrightarrow> hash_min e j = b"
      using group_in_chain [OF Some] chain_groups_hash [OF Cons.prems] by blast
    then show ?thesis by (simp add: c(2))
  qed
  with Cons.IH [OF c(1)] show ?case by auto
qed simp

lemma cleanup_all_spec:
  assumes "kstate_inv e s"
  shows "kstate_inv e (fst (cleanup_all e s))" and "get_group e j (fst (cleanup_all e s)) = None"
  using cleanup_buckets_spec [OF assms, of bucket_order]
  by (simp_all add: cleanup_all_def set_bucket_order)

lemma no_groups_empty:
  assumes "kstate_inv e s" and "\<And>j. get_group e j s = None"
  shows "groups s = hash_init" and "live_objects s = 0"
proof -
  have "groups s b = []" for b
  proof (rule ccontr)
    assume "groups s b \<noteq> []"
    then obtain tg where tg: "tg \<in> set (groups s b)" by (cases "groups s b") auto
    with assms(1) have "get_group e (tg_tgid tg) s = Some tg"
      using grp.entries_lookup [of e s tg] by (auto simp: kstate_inv_def set_hash_entries)
    with assms(2) show False by simp
  qed
  then show "groups s = hash_init" by (simp add: hash_init_def fun_eq_iff)
  show "live_objects s = 0" using assms by (simp add: kstate_inv_def objects_at_def)
qed

end
