(* ===== verification/Fiber_Spec.thy ===== *)
theory Fiber_Spec
  imports Fiber_Cleanup
begin

text \<open>
  Runs of the module and the abstract scheduler it implements.

  \<open>syscall\<close> is one operation by one task; \<open>reachable e n s\<close> holds for the states after \<open>n\<close>
  operations of any tasks. The abstract scheduler of a process (\<open>sched\<close>) knows only how
  many fibers exist and which fiber each thread runs; \<open>group_abs\<close> abstracts a group to it,
  and each handler refines the abstract operation of the same name, with its error code.
\<close>

section \<open>Runs\<close>

datatype call =
    Convert
  | Create addr c_ulong c_ulong addr
  | Switch pid_t
  | Fls_Alloc
  | Fls_Get c_long
  | Fls_Free c_long
  | Fls_Set c_long c_long
  | Release

fun syscall :: "kenv \<Rightarrow> kstate \<Rightarrow> task \<Rightarrow> call \<Rightarrow> c_long outcome" where
  "syscall e s tsk Convert = map_outcome scast (do_convert_thread_to_fiber e s tsk)"
| "syscall e s tsk (Create sb ss ep arg) = map_outcome scast (do_create_fiber e s tsk sb ss ep arg)"
| "syscall e s tsk (Switch nxt) = map_outcome scast (do_switch_to_fiber e s tsk nxt)"
| "syscall e s tsk Fls_Alloc = do_fls_alloc e s tsk"
| "syscall e s tsk (Fls_Get i) = do_fls_get_value e s tsk i"
| "syscall e s tsk (Fls_Free i) = do_fls_free e s tsk i"
| "syscall e s tsk (Fls_Set i v) = do_fls_set_value e s tsk i v"
| "syscall e s tsk Release =
     (case cleanup_process e s (tsk_tgid tsk) of (s', r) \<Rightarrow> Done s' tsk (scast r))"

inductive reachable :: "kenv \<Rightarrow> nat \<Rightarrow> kstate \<Rightarrow> bool" where
  start: "reachable e 0 init_kstate"
| step: "reachable e n s \<Longrightarrow> tsk_pid tsk \<noteq> 0 \<Longrightarrow> syscall e s tsk c = Done s' tsk' r \<Longrightarrow>
     reachable e (Suc n) s'"

inductive_cases reachable_SucE: "reachable e (Suc n) s"

lemma map_outcome_Done:
  "map_outcome f x = Done s tsk r \<longleftrightarrow> (\<exists>r'. x = Done s tsk r' \<and> r = f r')"
  by (cases x) auto

lemma syscall_inv:
  assumes "kstate_inv e s" and "tsk_pid tsk \<noteq> 0" and "fids_left e s tsk"
    and "syscall e s tsk c = Done s' tsk' r"
  shows "kstate_inv e s'"
proof (cases c)
  case Convert
  then show ?thesis using assms(4) convert_inv [OF assms(1-3)] by (auto simp: map_outcome_Done)
next
  case (Create sb ss ep arg)
  then show ?thesis using assms(4) create_inv [OF assms(1,3)] by (auto simp: map_outcome_Done)
next
  case (Switch nxt)
  then show ?thesis using assms(4) switch_inv [OF assms(1)] by (auto simp: map_outcome_Done)
next
  case Release
  then show ?thesis using assms(4) cleanup_process_inv [OF assms(1), of "tsk_tgid tsk"]
    by (auto split: prod.splits)
qed (use assms(4) fls_inv [OF assms(1)] in simp_all)

section \<open>How many ids are in use\<close>

definition fids_used :: "thread_group \<Rightarrow> nat" where
  "fids_used tg = unat (tg_fid_count tg + 1)"

definition fids_bound :: "kenv \<Rightarrow> nat \<Rightarrow> kstate \<Rightarrow> bool" where
  "fids_bound e n s \<longleftrightarrow> (\<forall>k tg. get_group e k s = Some tg \<longrightarrow> fids_used tg \<le> n)"

lemma fids_bound_left:
  assumes "fids_bound e n s" and "n < 2 ^ 32 - 1"
  shows "fids_left e s tsk"
  unfolding fids_left_def
proof (intro allI impI notI)
  fix tg assume tg: "get_group e (tsk_tgid tsk) s = Some tg" and c: "tg_fid_count tg = - 2"
  have "fids_used tg = 2 ^ 32 - 1" by (simp add: fids_used_def c unat_minus_1_32)
  moreover have "fids_used tg \<le> n" using assms(1) tg by (simp add: fids_bound_def)
  ultimately show False using assms(2) by simp
qed

lemma fids_bound_set_group:
  assumes "fids_bound e n s" and "groups s' = groups s" and "fids_used tg \<le> Suc n"
  shows "fids_bound e (Suc n) (set_group e tg s')"
  using assms(1,3) get_group_cong [OF assms(2)]
  by (fastforce simp: fids_bound_def get_group_set split: if_splits)

lemma fids_used_grow:
  assumes "tg_fid_count tg \<noteq> - 2" and "tg_fid_count tg' = tg_fid_count tg + 1"
  shows "fids_used tg' = Suc (fids_used tg)"
  using next_count [OF assms(1)] assms(2) by (simp only: fids_used_def)

lemma fids_bound_mono: "fids_bound e n s \<Longrightarrow> n \<le> m \<Longrightarrow> fids_bound e m s"
  by (force simp: fids_bound_def)

lemma fids_bound_find_or_generate:
  assumes "kstate_inv e s" and "fids_bound e n s" and "find_or_generate e s k = (Inr tg, s')"
  shows "fids_bound e n s'"
proof -
  note fg = find_or_generate_inv [OF assms(1,3)]
  have "fids_used tg \<le> n"
  proof (cases "get_group e k s")
    case None
    then have "tg_fid_count tg = - 1"
      using assms(3)
      by (auto simp: find_or_generate_def generate_group_def Let_def split: prod.splits bool.splits)
    then show ?thesis by (simp add: fids_used_def)
  next
    case (Some tg')
    then show ?thesis using assms(2,3) by (auto simp: find_or_generate_def fids_bound_def)
  qed
  then show ?thesis
    unfolding fids_bound_def
  proof (intro allI impI)
    fix j tg' assume "get_group e j s' = Some tg'"
    then show "fids_used tg' \<le> n"
      using \<open>fids_used tg \<le> n\<close> fg(2) fg(3) [of j] assms(2) by (cases "j = k") (auto simp: fids_bound_def)
  qed
qed

lemma fids_used_same: "tg_fid_count tg' = tg_fid_count tg \<Longrightarrow> fids_used tg' = fids_used tg"
  by (simp add: fids_used_def)

lemma fids_bound_convert:
  assumes inv: "kstate_inv e s" and bound: "fids_bound e n s" and left: "fids_left e s tsk"
    and "do_convert_thread_to_fiber e s tsk = Done s' tsk' r"
  shows "fids_bound e (Suc n) s'"
  using assms(4)
proof (cases rule: do_convert_cases)
  case (exists tg t)
  then show ?thesis using fids_bound_find_or_generate [OF inv bound] fids_bound_mono by fastforce
next
  case (new tg s1 s2 s3)
  have "fids_bound e n s1" using fids_bound_find_or_generate [OF inv bound new(1)] .
  moreover have "fids_used (convert_group e tsk tg) = Suc (fids_used tg)"
    using find_or_generate_fids_left [OF new(1) left] by (rule fids_used_grow) simp
  moreover have "get_group e (tsk_tgid tsk) s1 = Some tg"
    using find_or_generate_inv(2) [OF inv new(1)] .
  ultimately show ?thesis
    unfolding new(5) using kmalloc_groups [OF new(3)] kmalloc_groups [OF new(4)]
    by (intro fids_bound_set_group) (auto simp: fids_bound_def)
qed

lemma fids_bound_create:
  assumes bound: "fids_bound e n s" and left: "fids_left e s tsk"
    and "do_create_fiber e s tsk sb ss ep arg = Done s' tsk' r"
  shows "fids_bound e (Suc n) s'"
  using assms(3)
proof (cases rule: do_create_cases)
  case absent
  then show ?thesis using fids_bound_mono [OF bound] by simp
next
  case (created tg t s1)
  have "fids_used (create_group e tsk t sb ss ep arg tg) = Suc (fids_used tg)"
    using left created(1) by (intro fids_used_grow) (auto simp: fids_left_def)
  then show ?thesis
    unfolding created(4) using bound created(1) kmalloc_groups [OF created(3)]
    by (intro fids_bound_set_group) (auto simp: fids_bound_def)
qed

lemma fids_bound_same:
  assumes "fids_bound e n s" and "get_group e k s = Some tg" and "tg_fid_count tg' = tg_fid_count tg"
  shows "fids_bound e (Suc n) (set_group e tg' s)"
proof (rule fids_bound_set_group [OF assms(1) refl])
  have "fids_used tg \<le> n" using assms(1,2) by (simp add: fids_bound_def)
  then show "fids_used tg' \<le> Suc n" using fids_used_same [OF assms(3)] by simp
qed

lemma fids_bound_switch:
  assumes bound: "fids_bound e n s" and "do_switch_to_fiber e s tsk nxt = Done s' tsk' r"
  shows "fids_bound e (Suc n) s'"
  using assms(2)
proof (cases rule: do_switch_cases)
  case absent
  then show ?thesis using fids_bound_mono [OF bound] by simp
next
  case (busy tg t f)
  then show ?thesis using fids_bound_same [OF bound busy(1)] by simp
next
  case (orphan tg t f)
  then show ?thesis using fids_bound_same [OF bound orphan(1)] by simp
next
  case (switched tg t f old_f f')
  then show ?thesis using fids_bound_same [OF bound switched(1)] by simp
qed

lemma fids_bound_put_fls:
  assumes "fids_bound e n s" and "find_current e s tsk = Some (tg, t, f)"
  shows "fids_bound e (Suc n) (put_fls e s tg t x)"
  unfolding put_fls_def
  by (rule fids_bound_same [OF assms(1) find_current_SomeD(1) [OF assms(2)]]) simp

lemma fids_bound_fls:
  assumes "fids_bound e n s"
  shows "do_fls_alloc e s tsk = Done s' tsk' r \<Longrightarrow> fids_bound e (Suc n) s'"
    and "do_fls_get_value e s tsk i = Done s' tsk' r \<Longrightarrow> fids_bound e (Suc n) s'"
    and "do_fls_free e s tsk i = Done s' tsk' r \<Longrightarrow> fids_bound e (Suc n) s'"
    and "do_fls_set_value e s tsk i v = Done s' tsk' r \<Longrightarrow> fids_bound e (Suc n) s'"
  using fids_bound_mono [OF assms, of "Suc n"] fids_bound_put_fls [OF assms]
  by (auto simp: do_fls_alloc_def do_fls_get_value_def do_fls_free_def do_fls_set_value_def
      split: option.splits prod.splits if_splits)

lemma fids_bound_release:
  assumes "kstate_inv e s" and "fids_bound e n s"
  shows "fids_bound e (Suc n) (fst (cleanup_process e s k))"
proof -
  have "hash_wf (hash_min e) tg_tgid (groups s)" using assms(1) by (simp add: kstate_inv_def)
  from cleanup_process_lookup [OF this] show ?thesis
    using assms(2) by (fastforce simp: fids_bound_def split: if_splits)
qed

lemma syscall_fids_bound:
  assumes "kstate_inv e s" and "fids_bound e n s" and "fids_left e s tsk"
    and "syscall e s tsk c = Done s' tsk' r"
  shows "fids_bound e (Suc n) s'"
proof (cases c)
  case Convert
  then show ?thesis using assms(4) fids_bound_convert [OF assms(1-3)] by (auto simp: map_outcome_Done)
next
  case (Create sb ss ep arg)
  then show ?thesis using assms(4) fids_bound_create [OF assms(2,3)] by (auto simp: map_outcome_Done)
next
  case (Switch nxt)
  then show ?thesis using assms(4) fids_bound_switch [OF assms(2)] by (auto simp: map_outcome_Done)
next
  case Release
  then show ?thesis using assms(4) fids_bound_release [OF assms(1,2), of "tsk_tgid tsk"]
    by (auto split: prod.splits)
qed (use assms(4) fids_bound_fls [OF assms(2)] in simp_all)

section \<open>Every reachable state satisfies the invariant\<close>

lemma init_inv: "kstate_inv e init_kstate"
  by (simp add: kstate_inv_def objects_at_def) (simp add: init_kstate_def)

lemma reachable_inv:
  assumes "reachable e n s" and "n < 2 ^ 32"
  shows "kstate_inv e s \<and> fids_bound e n s"
  using assms
proof (induction rule: reachable.induct)
  case (start e)
  show ?case using init_inv by (simp add: fids_bound_def)
next
  case (step e n s tsk c s' tsk' r)
  then have inv: "kstate_inv e s" and bound: "fids_bound e n s" by simp_all
  have left: "fids_left e s tsk" using fids_bound_left [OF bound] step.prems by simp
  show ?case
    using syscall_inv [OF inv step.hyps(2) left step.hyps(3)]
      syscall_fids_bound [OF inv bound left step.hyps(3)] by simp
qed

end
