(* ===== verification/Fiber_Demo.thy ===== *)
theory Fiber_Demo
  imports Fiber_Spec
begin

text \<open>
  A concrete run of the module, on which the general theorems are instantiated: process
  100 with the threads 100 and 101. Thread 100 converts (fiber 0) and creates fiber 1;
  thread 101 converts (fiber 2). The hash function of the run takes the low byte of the
  key, and every allocation succeeds.
\<close>

fun run_calls :: "kenv \<Rightarrow> kstate \<Rightarrow> (task \<times> call) list \<Rightarrow> kstate option" where
  "run_calls e s [] = Some s"
| "run_calls e s ((tsk, c) # cs) =
     (case syscall e s tsk c of Done s' _ _ \<Rightarrow> run_calls e s' cs | Oops \<Rightarrow> None)"

lemma run_calls_reachable:
  assumes "reachable e n s" and "run_calls e s cs = Some s'" and "\<forall>(tsk, c) \<in> set cs. tsk_pid tsk \<noteq> 0"
  shows "reachable e (n + length cs) s'"
  using assms
proof (induction cs arbitrary: n s)
  case (Cons x cs)
  obtain tsk c where x: "x = (tsk, c)" by (cases x)
  with Cons.prems(2) obtain s1 tsk1 r where 1: "syscall e s tsk c = Done s1 tsk1 r"
    and 2: "run_calls e s1 cs = Some s'" by (auto split: outcome.splits)
  have "reachable e (Suc n) s1" using Cons.prems(1,3) x 1 by (auto intro: reachable.step)
  from Cons.IH [OF this 2] show ?case using Cons.prems(3) by simp
qed simp

definition demo_env :: kenv where
  "demo_env = \<lparr>hash_min = ucast, kmalloc_ok = (\<lambda>_. True)\<rparr>"

definition demo_regs :: "c_ulong \<Rightarrow> pt_regs" where
  "demo_regs n = \<lparr>regs_ip = n, regs_di = n + 1, regs_si = n + 2, regs_sp = n + 3, regs_bp = n + 4,
     regs_rest = (\<lambda>_. n + 5)\<rparr>"

definition demo_task :: "pid_t \<Rightarrow> c_ulong \<Rightarrow> task" where
  "demo_task p u = \<lparr>tsk_tgid = 100, tsk_pid = p, tsk_regs = demo_regs (u + 4096), tsk_fx = [ucast u],
     tsk_utime = u\<rparr>"

definition demo_calls :: "(task \<times> call) list" where
  "demo_calls = [(demo_task 100 10, Convert), (demo_task 100 20, Create 65536 8192 4194304 7),
     (demo_task 101 30, Convert)]"

definition demo_state :: kstate where
  "demo_state = (case run_calls demo_env init_kstate demo_calls of Some s \<Rightarrow> s | None \<Rightarrow> init_kstate)"

lemmas demo_defs = demo_env_def demo_regs_def demo_task_def demo_calls_def

lemmas eval_defs = handler_defs object_defs get_group_def get_thread_def get_fiber_def mod_group_def
  mod_thread_def mod_fiber_def add_group_def add_thread_def add_fiber_def set_group_def kmalloc_def
  generate_group_def generate_thread_def generate_fiber_def new_fiber_def PREPARE_INFO_def
  PREPARE_CONTEXT_def ACTIVATE_FIBER_FROM_THREAD_def hash_search_def hash_store_def hash_add_rcu_def
  hash_init_def init_kstate_def Let_def find_current_def put_fls_def

lemma demo_run: "run_calls demo_env init_kstate demo_calls = Some demo_state"
  by (simp add: demo_state_def demo_defs eval_defs)

lemma demo_reachable: "reachable demo_env 3 demo_state"
  using run_calls_reachable [OF reachable.start demo_run]
  by (simp add: demo_calls_def demo_task_def numeral_3_eq_3)

lemma demo_inv: "kstate_inv demo_env demo_state"
  using reachable_inv [OF demo_reachable] by simp

definition demo_group :: thread_group where
  "demo_group = (case get_group demo_env 100 demo_state of Some tg \<Rightarrow> tg)"

lemma demo_get_group: "get_group demo_env 100 demo_state = Some demo_group"
  by (simp add: demo_group_def demo_state_def demo_defs eval_defs)

lemma demo_threads:
  "get_thread demo_env 100 demo_group = Some \<lparr>t_pid = 100, t_current_fid = 0\<rparr>"
  "get_thread demo_env 101 demo_group = Some \<lparr>t_pid = 101, t_current_fid = 2\<rparr>"
  by (simp_all add: demo_group_def demo_state_def demo_defs eval_defs)

lemma demo_fibers:
  "map_option (\<lambda>f. (f_flock f, info_state (f_info f))) (get_fiber demo_env 0 demo_group) = Some (True, 100)"
  "map_option (\<lambda>f. (f_flock f, info_state (f_info f))) (get_fiber demo_env 1 demo_group) = Some (False, 0)"
  "map_option (\<lambda>f. (f_flock f, info_state (f_info f))) (get_fiber demo_env 2 demo_group) = Some (True, 101)"
  by (simp_all add: demo_group_def demo_state_def demo_defs eval_defs)

lemma demo_task_ids [simp]: "tsk_tgid (demo_task p u) = 100" "tsk_pid (demo_task p u) = p"
  by (simp_all add: demo_task_def)

end
