(* ===== verification/Fiber_Sched.thy ===== *)
theory Fiber_Sched
  imports Fiber_Demo
begin

text \<open>
  The module as a scheduler. \<open>fiber_at\<close> and \<open>thread_at\<close> read a fiber or a thread of a
  process out of the state of the module. The abstract scheduler of one process, \<open>sched\<close>,
  is the number of its fibers and the map from its threads to the fibers they run; its
  three operations say when each error is returned. The handlers refine them, and leave
  every other process alone.
\<close>

definition fiber_at :: "kenv \<Rightarrow> kstate \<Rightarrow> pid_t \<Rightarrow> pid_t \<Rightarrow> fiber option" where
  "fiber_at e s g k = (case get_group e g s of None \<Rightarrow> None | Some tg \<Rightarrow> get_fiber e k tg)"

definition thread_at :: "kenv \<Rightarrow> kstate \<Rightarrow> pid_t \<Rightarrow> pid_t \<Rightarrow> thread option" where
  "thread_at e s g p = (case get_group e g s of None \<Rightarrow> None | Some tg \<Rightarrow> get_thread e p tg)"

section \<open>The abstract scheduler\<close>

record sched =
  sched_fibers :: nat
  sched_runs :: "pid_t \<Rightarrow> pid_t option"

definition sched_empty :: sched where
  "sched_empty = \<lparr>sched_fibers = 0, sched_runs = (\<lambda>_. None)\<rparr>"

definition sched_convert :: "pid_t \<Rightarrow> sched \<Rightarrow> sched \<times> pid_t" where
  "sched_convert p S =
     (case sched_runs S p of
        Some _ \<Rightarrow> (S, - EEXIST)
      | None \<Rightarrow>
          (\<lparr>sched_fibers = Suc (sched_fibers S),
            sched_runs = (sched_runs S)(p \<mapsto> of_nat (sched_fibers S))\<rparr>, of_nat (sched_fibers S)))"

definition sched_create :: "pid_t \<Rightarrow> sched \<Rightarrow> sched \<times> pid_t" where
  "sched_create p S =
     (case sched_runs S p of
        None \<Rightarrow> (S, - ESRCH)
      | Some _ \<Rightarrow> (S\<lparr>sched_fibers := Suc (sched_fibers S)\<rparr>, of_nat (sched_fibers S)))"

definition sched_switch :: "pid_t \<Rightarrow> pid_t \<Rightarrow> sched \<Rightarrow> sched \<times> c_int" where
  "sched_switch p k S =
     (case sched_runs S p of
        None \<Rightarrow> (S, - ESRCH)
      | Some _ \<Rightarrow>
        if sched_fibers S \<le> unat k then (S, - ESRCH)
        else if k \<in> ran (sched_runs S) then (S, - EAGAIN)
        else (S\<lparr>sched_runs := (sched_runs S)(p \<mapsto> k)\<rparr>, SUCCESS))"

text \<open>
  A process that has no group yet is the scheduler without fibers and threads.
\<close>

definition group_abs :: "kenv \<Rightarrow> thread_group \<Rightarrow> sched" where
  "group_abs e tg = \<lparr>sched_fibers = fids_used tg,
     sched_runs = (\<lambda>p. map_option t_current_fid (get_thread e p tg))\<rparr>"

definition kstate_abs :: "kenv \<Rightarrow> kstate \<Rightarrow> pid_t \<Rightarrow> sched" where
  "kstate_abs e s g =
     (case get_group e g s of None \<Rightarrow> sched_empty | Some tg \<Rightarrow> group_abs e tg)"

section \<open>Refinement\<close>

lemma of_nat_fids_used: "of_nat (fids_used tg) = tg_fid_count tg + 1"
  by (simp add: fids_used_def)

lemma kstate_abs_set_group:
  assumes "get_group e g s = Some tg" and "tg_tgid tg' = g" and "groups s' = groups s"
  shows "kstate_abs e (set_group e tg' s') = (kstate_abs e s)(g := group_abs e tg')"
proof
  fix j
  show "kstate_abs e (set_group e tg' s') j = ((kstate_abs e s)(g := group_abs e tg')) j"
    using assms get_group_cong [OF assms(3), of e j] get_group_cong [OF assms(3), of e g]
    by (simp add: kstate_abs_def get_group_set)
qed

lemma group_abs_convert:
  assumes "get_thread e (tsk_pid tsk) tg = None" and "tg_fid_count tg \<noteq> - 2"
  shows "sched_convert (tsk_pid tsk) (group_abs e tg) =
    (group_abs e (convert_group e tsk tg), tg_fid_count tg + 1)"
proof -
  have "fids_used (convert_group e tsk tg) = Suc (fids_used tg)"
    using assms(2) by (rule fids_used_grow) simp
  then show ?thesis
    using assms(1)
    by (auto simp: sched_convert_def group_abs_def convert_group_thread of_nat_fids_used fun_eq_iff)
qed

lemma group_abs_create:
  assumes "get_thread e p tg = Some t" and "tg_fid_count tg \<noteq> - 2"
  shows "sched_create p (group_abs e tg) =
    (group_abs e (create_group e tsk u sb ss ep arg tg), tg_fid_count tg + 1)"
proof -
  have "fids_used (create_group e tsk u sb ss ep arg tg) = Suc (fids_used tg)"
    using assms(2) by (rule fids_used_grow) simp
  then show ?thesis
    using assms(1)
    by (simp add: sched_create_def group_abs_def create_group_thread of_nat_fids_used)
qed

lemma group_abs_mod_fiber [simp]: "group_abs e (mod_fiber e k g tg) = group_abs e tg"
  by (simp add: group_abs_def frame_lookups fids_used_def)

lemma ran_group_abs:
  assumes "group_inv e tg" and "get_fiber e k tg = Some f"
  shows "k \<in> ran (sched_runs (group_abs e tg)) \<longleftrightarrow> info_state (f_info f) \<noteq> 0"
proof -
  have own: "owner_inv e tg" using assms(1) by (simp add: group_inv_def)
  have "(k \<in> ran (sched_runs (group_abs e tg))) = (\<exists>p t. get_thread e p tg = Some t \<and> t_current_fid t = k)"
    by (auto simp: ran_def group_abs_def)
  also have "\<dots> = (info_state (f_info f) \<noteq> 0)"
  proof
    assume "\<exists>p t. get_thread e p tg = Some t \<and> t_current_fid t = k"
    then obtain p t where "get_thread e p tg = Some t" "t_current_fid t = k" by blast
    with owner_invD(2) [OF own] assms(2) show "info_state (f_info f) \<noteq> 0"
      by (fastforce simp: thread_running_def)
  next
    assume "info_state (f_info f) \<noteq> 0"
    with owner_invD(1) [OF own assms(2)] show "\<exists>p t. get_thread e p tg = Some t \<and> t_current_fid t = k"
      by (auto simp: fiber_owned_def)
  qed
  finally show ?thesis .
qed

lemma absent_fiber:
  assumes "group_inv e tg"
  shows "get_fiber e k tg = None \<longleftrightarrow> sched_fibers (group_abs e tg) \<le> unat k"
proof -
  have "get_fiber e k tg \<noteq> None \<longleftrightarrow> unat k < fids_used tg"
    using assms by (simp add: group_inv_def fids_dense_def fids_used_def)
  then show ?thesis by (auto simp: group_abs_def)
qed

lemma group_abs_switch:
  "group_abs e (switch_group e tsk p old nxt tg) =
     (case get_thread e p tg of
        None \<Rightarrow> group_abs e tg
      | Some t \<Rightarrow> (group_abs e tg)\<lparr>sched_runs := (sched_runs (group_abs e tg))(p \<mapsto> nxt)\<rparr>)"
  by (auto simp: group_abs_def switch_group_thread fids_used_def fun_eq_iff split: option.split)

lemma sched_switch_abs:
  assumes inv: "group_inv e tg" and t: "get_thread e p tg = Some t" and f: "get_fiber e k tg = Some f"
  shows "sched_switch p k (group_abs e tg) =
    (if info_state (f_info f) \<noteq> 0 then (group_abs e tg, - EAGAIN)
     else ((group_abs e tg)\<lparr>sched_runs := (sched_runs (group_abs e tg))(p \<mapsto> k)\<rparr>, SUCCESS))"
proof -
  have "\<not> sched_fibers (group_abs e tg) \<le> unat k" using absent_fiber [OF inv, of k] f by auto
  moreover have "sched_runs (group_abs e tg) p = Some (t_current_fid t)"
    using t by (simp add: group_abs_def)
  ultimately show ?thesis using ran_group_abs [OF inv f] by (simp add: sched_switch_def)
qed

lemma set_group_same_abs:
  assumes "get_group e g s = Some tg" and "tg_tgid tg' = g" and "group_abs e tg' = group_abs e tg"
  shows "kstate_abs e (set_group e tg' s) = kstate_abs e s"
  using kstate_abs_set_group [OF assms(1,2) refl] assms by (auto simp: kstate_abs_def fun_eq_iff)

section \<open>The handlers refine the abstract operations\<close>

text \<open>
  C1: The switch handler implements the abstract switch. In a state that satisfies the
  invariant, for a process that has a group, \<open>do_switch_to_fiber\<close> returns, its error code
  is that of the abstract scheduler (no thread or no such fiber, target in use, success),
  and the new state abstracts to the abstract result, with every other process unchanged.
\<close>

theorem do_switch_refines:
  assumes inv: "kstate_inv e s" and g: "get_group e (tsk_tgid tsk) s = Some tg"
  shows "\<exists>s' tsk' r S. do_switch_to_fiber e s tsk nxt = Done s' tsk' r \<and>
    sched_switch (tsk_pid tsk) nxt (kstate_abs e s (tsk_tgid tsk)) = (S, r) \<and>
    kstate_abs e s' = (kstate_abs e s)(tsk_tgid tsk := S)"
proof -
  note gi = kstate_invD [OF inv g] and key = group_key [OF g]
  have abs: "kstate_abs e s (tsk_tgid tsk) = group_abs e tg" using g by (simp add: kstate_abs_def)
  then have same: "(kstate_abs e s)(tsk_tgid tsk := group_abs e tg) = kstate_abs e s"
    by (simp add: fun_upd_idem)
  show ?thesis
  proof (cases "get_thread e (tsk_pid tsk) tg")
    case None
    then have "sched_switch (tsk_pid tsk) nxt (group_abs e tg) = (group_abs e tg, - ESRCH)"
      by (simp add: sched_switch_def group_abs_def)
    then show ?thesis using g None abs same by (simp add: do_switch_eq)
  next
    case (Some t)
    note t = this
    obtain old_f where old: "get_fiber e (t_current_fid t) tg = Some old_f"
      using current_fiber_exists [OF gi t] by blast
    have p: "t_pid t = tsk_pid tsk" using thr.lookup_key [OF t] .
    show ?thesis
    proof (cases "get_fiber e nxt tg")
      case None
      then have "sched_switch (tsk_pid tsk) nxt (group_abs e tg) = (group_abs e tg, - ESRCH)"
        using absent_fiber [OF gi, of nxt] t by (simp add: sched_switch_def group_abs_def)
      then show ?thesis using g t None abs same by (simp add: do_switch_eq)
    next
      case (Some f)
      note sw = sched_switch_abs [OF gi t Some]
      show ?thesis
      proof (cases "info_state (f_info f) = 0")
        case True
        have "\<not> f_flock f" using busy_locked(2) [OF gi Some] True by auto
        with True show ?thesis
          using g t Some old abs p sw key
            kstate_abs_set_group [OF g, of "switch_group e tsk (tsk_pid tsk) (t_current_fid t) nxt tg" s]
          by (simp add: do_switch_eq Let_def group_abs_switch)
      next
        case False
        have "kstate_abs e (set_group e (mod_fiber e nxt fail_activation
            (mod_fiber e nxt spin_trylock tg)) s) = kstate_abs e s"
          using g key by (intro set_group_same_abs) simp_all
        with False show ?thesis
          using g t Some abs sw same by (simp add: do_switch_eq)
      qed
    qed
  qed
qed

theorem do_switch_refines_witness:
  "\<exists>s' tsk' r S. do_switch_to_fiber demo_env demo_state (demo_task 100 40) 1 = Done s' tsk' r \<and>
    sched_switch 100 1 (kstate_abs demo_env demo_state 100) = (S, r) \<and>
    kstate_abs demo_env s' = (kstate_abs demo_env demo_state)(100 := S)"
  using do_switch_refines [OF demo_inv, of "demo_task 100 40" demo_group 1] demo_get_group by simp

text \<open>The group a converting thread works on abstracts to what was there before.\<close>

lemma find_or_generate_abs:
  assumes "kstate_inv e s" and "find_or_generate e s g = (Inr tg, s')"
  shows "group_abs e tg = kstate_abs e s g" and "kstate_abs e s' = kstate_abs e s"
proof -
  note fg = find_or_generate_inv [OF assms]
  show 1: "group_abs e tg = kstate_abs e s g"
  proof (cases "get_group e g s")
    case None
    then have "tg = \<lparr>tg_tgid = g, tg_fid_count = NO_FIBERS, tg_threads = hash_init, tg_fibers = hash_init\<rparr>"
      using assms(2)
      by (auto simp: find_or_generate_def generate_group_def Let_def split: prod.splits bool.splits)
    with None show ?thesis
      by (simp add: kstate_abs_def group_abs_def sched_empty_def fids_used_def get_thread_def)
  next
    case (Some tg')
    with assms(2) show ?thesis by (simp add: find_or_generate_def kstate_abs_def)
  qed
  have "kstate_abs e s' j = kstate_abs e s j" for j
    using 1 fg(2) fg(3) [of j] by (cases "j = g") (simp_all add: kstate_abs_def)
  then show "kstate_abs e s' = kstate_abs e s" by blast
qed

lemma find_or_generate_total:
  assumes "\<And>n. kmalloc_ok e n"
  obtains tg s' where "find_or_generate e s g = (Inr tg, s')"
  using assms by (cases "get_group e g s") (auto simp: find_or_generate_def generate_group_def
      kmalloc_def Let_def)

lemma kmalloc_total:
  assumes "\<And>n. kmalloc_ok e n"
  obtains s' where "kmalloc e s = (True, s')"
  using assms by (auto simp: kmalloc_def Let_def)

text \<open>
  The conversion of a thread implements the abstract conversion. When allocations
  succeed and the id counter is not about to wrap, \<open>do_convert_thread_to_fiber\<close> returns; a
  thread that is already a fiber gets \<open>-EEXIST\<close>, any other gets the next id and runs it,
  also when it is the first thread of its process; no other process changes.
\<close>

lemma convert_refines:
  assumes inv: "kstate_inv e s" and left: "fids_left e s tsk" and ok: "\<And>n. kmalloc_ok e n"
  shows "\<exists>s' r S. do_convert_thread_to_fiber e s tsk = Done s' tsk r \<and>
    sched_convert (tsk_pid tsk) (kstate_abs e s (tsk_tgid tsk)) = (S, r) \<and>
    kstate_abs e s' = (kstate_abs e s)(tsk_tgid tsk := S)"
proof -
  obtain tg s1 where fg: "find_or_generate e s (tsk_tgid tsk) = (Inr tg, s1)"
    using find_or_generate_total [OF ok] by blast
  note abs = find_or_generate_abs [OF inv fg]
  show ?thesis
  proof (cases "get_thread e (tsk_pid tsk) tg")
    case None
    obtain s2 where 2: "kmalloc e s1 = (True, s2)" using kmalloc_total [OF ok] by blast
    obtain s3 where 3: "kmalloc e s2 = (True, s3)" using kmalloc_total [OF ok] by blast
    have g: "get_group e (tsk_tgid tsk) s1 = Some tg" using find_or_generate_inv(2) [OF inv fg] .
    have "kstate_abs e (set_group e (convert_group e tsk tg) s3) =
        (kstate_abs e s1)(tsk_tgid tsk := group_abs e (convert_group e tsk tg))"
      using kmalloc_groups [OF 2] kmalloc_groups [OF 3] group_key [OF g]
      by (intro kstate_abs_set_group [OF g]) simp_all
    then show ?thesis
      using fg None 2 3 abs group_abs_convert [OF None find_or_generate_fids_left [OF fg left]]
      by (simp add: do_convert_eq)
  next
    case (Some t)
    then have "sched_convert (tsk_pid tsk) (group_abs e tg) = (group_abs e tg, - EEXIST)"
      by (simp add: sched_convert_def group_abs_def)
    then show ?thesis
      using fg Some abs by (simp add: do_convert_eq fun_upd_idem)
  qed
qed

text \<open>
  The creation of a fiber implements the abstract creation: without a group or a
  converted thread it fails with \<open>-ESRCH\<close> and changes nothing, otherwise the new fiber has
  the next id and nobody runs it.
\<close>

lemma create_refines:
  assumes inv: "kstate_inv e s" and left: "fids_left e s tsk" and ok: "\<And>n. kmalloc_ok e n"
  shows "\<exists>s' r S. do_create_fiber e s tsk sb ss ep arg = Done s' tsk r \<and>
    sched_create (tsk_pid tsk) (kstate_abs e s (tsk_tgid tsk)) = (S, r) \<and>
    kstate_abs e s' = (kstate_abs e s)(tsk_tgid tsk := S)"
proof (cases "thread_at e s (tsk_tgid tsk) (tsk_pid tsk)")
  case None
  then have "sched_runs (kstate_abs e s (tsk_tgid tsk)) (tsk_pid tsk) = None"
    by (simp add: thread_at_def kstate_abs_def group_abs_def sched_empty_def split: option.splits)
  with None show ?thesis
    by (simp add: thread_at_def do_create_eq sched_create_def fun_upd_idem split: option.splits)
next
  case (Some t)
  then obtain tg where g: "get_group e (tsk_tgid tsk) s = Some tg"
    and t: "get_thread e (tsk_pid tsk) tg = Some t"
    by (auto simp: thread_at_def split: option.splits)
  obtain s1 where 1: "kmalloc e s = (True, s1)" using kmalloc_total [OF ok] by blast
  have "tg_fid_count tg \<noteq> - 2" using left g by (simp add: fids_left_def)
  note abs = group_abs_create [OF t this, of tsk t sb ss ep arg]
  have "kstate_abs e (set_group e (create_group e tsk t sb ss ep arg tg) s1) =
      (kstate_abs e s)(tsk_tgid tsk := group_abs e (create_group e tsk t sb ss ep arg tg))"
    using kmalloc_groups [OF 1] group_key [OF g] by (intro kstate_abs_set_group [OF g]) simp_all
  then show ?thesis using g t 1 abs by (simp add: do_create_eq kstate_abs_def)
qed

text \<open>
  C25: Conversion and creation implement the abstract scheduler. When allocations succeed and the id
  counter is not about to wrap, both handlers return, with the result and the new state of the
  abstract operation: a thread that is already a fiber gets \<open>-EEXIST\<close> from the conversion, any
  other gets the next id and runs it; a thread that is not a fiber gets \<open>-ESRCH\<close> from the
  creation, any other gets the next id, which nobody runs; no other process changes.
\<close>

theorem do_convert_create_refine:
  assumes "kstate_inv e s" and "fids_left e s tsk" and "\<And>n. kmalloc_ok e n"
  shows "(\<exists>s' r S. do_convert_thread_to_fiber e s tsk = Done s' tsk r \<and>
      sched_convert (tsk_pid tsk) (kstate_abs e s (tsk_tgid tsk)) = (S, r) \<and>
      kstate_abs e s' = (kstate_abs e s)(tsk_tgid tsk := S)) \<and>
    (\<exists>s' r S. do_create_fiber e s tsk sb ss ep arg = Done s' tsk r \<and>
      sched_create (tsk_pid tsk) (kstate_abs e s (tsk_tgid tsk)) = (S, r) \<and>
      kstate_abs e s' = (kstate_abs e s)(tsk_tgid tsk := S))"
  using convert_refines [OF assms] create_refines [OF assms] by blast

theorem do_convert_create_refine_witness:
  "(\<exists>s' r S. do_convert_thread_to_fiber demo_env demo_state (demo_task 102 40) = Done s' (demo_task 102 40) r \<and>
      sched_convert 102 (kstate_abs demo_env demo_state 100) = (S, r) \<and>
      kstate_abs demo_env s' = (kstate_abs demo_env demo_state)(100 := S)) \<and>
   (\<exists>s' r S. do_create_fiber demo_env demo_state (demo_task 101 40) 65536 8192 4194304 7 = Done s' (demo_task 101 40) r \<and>
      sched_create 101 (kstate_abs demo_env demo_state 100) = (S, r) \<and>
      kstate_abs demo_env s' = (kstate_abs demo_env demo_state)(100 := S))"
proof -
  have left: "fids_left demo_env demo_state (demo_task p 40)" for p
    by (rule fids_bound_left [of _ 3]) (use reachable_inv [OF demo_reachable] in simp_all)
  have ok: "kmalloc_ok demo_env n" for n by (simp add: demo_env_def)
  show ?thesis
    using do_convert_create_refine [OF demo_inv left ok, of 102] do_convert_create_refine [OF demo_inv left ok, of 101] by simp
qed

section \<open>Mutual exclusion\<close>

lemma exclusive_threads:
  assumes inv: "kstate_inv e s" and at: "thread_at e s g p = Some t"
  shows "\<exists>f. fiber_at e s g (t_current_fid t) = Some f \<and> f_flock f \<and> info_state (f_info f) = p"
    and "\<And>q u. thread_at e s g q = Some u \<Longrightarrow> t_current_fid u = t_current_fid t \<Longrightarrow> q = p"
proof -
  obtain tg where g: "get_group e g s = Some tg" and t: "get_thread e p tg = Some t"
    using at by (auto simp: thread_at_def split: option.splits)
  have gi: "group_inv e tg" using kstate_invD [OF inv g] .
  obtain f where f: "get_fiber e (t_current_fid t) tg = Some f" "info_state (f_info f) = p"
      "f_flock f" "p \<noteq> 0"
    using current_fiber_exists [OF gi t] by blast
  have "owner_inv e tg" using gi by (simp add: group_inv_def)
  note unique = owner_unique [OF this f(1,2,4)]
  show "\<exists>f. fiber_at e s g (t_current_fid t) = Some f \<and> f_flock f \<and> info_state (f_info f) = p"
    using f g by (simp add: fiber_at_def)
  show "q = p" if "thread_at e s g q = Some u" "t_current_fid u = t_current_fid t" for q u
    using that unique g by (auto simp: thread_at_def)
qed

text \<open>
  C2: A fiber is run by at most one thread. In every state reached by fewer than 2 to the 32
  operations, in any order and by any tasks, each thread of a process runs a fiber that
  exists, whose lock is held and whose state names the thread, and no other thread of the
  process runs the same fiber.
\<close>

theorem fiber_exclusive:
  assumes "reachable e n s" and "n < 2 ^ 32" and "thread_at e s g p = Some t"
  shows "(\<exists>f. fiber_at e s g (t_current_fid t) = Some f \<and> f_flock f \<and> info_state (f_info f) = p) \<and>
    (\<forall>q u. thread_at e s g q = Some u \<and> t_current_fid u = t_current_fid t \<longrightarrow> q = p)"
proof -
  have "kstate_inv e s" using reachable_inv [OF assms(1,2)] by blast
  from exclusive_threads [OF this assms(3)] show ?thesis by blast
qed

theorem fiber_exclusive_witness:
  "\<exists>f. fiber_at demo_env demo_state 100 2 = Some f \<and> f_flock f \<and> info_state (f_info f) = 101"
  using fiber_exclusive [OF demo_reachable, of 100 101 "\<lparr>t_pid = 101, t_current_fid = 2\<rparr>"]
    demo_get_group demo_threads(2)
  by (simp add: thread_at_def)

end
