(* ===== verification/Fiber_Context.thy ===== *)
theory Fiber_Context
  imports Fiber_Sched
begin

text \<open>
  The execution contexts. What a switch does to the two fibers and to the registers of the
  calling task; that a fiber nobody runs keeps its context and its local storage through
  any operations of any tasks (\<open>idle_run\<close>); hence that resuming a fiber gives back the
  registers with which it was left, and starting a created fiber gives it its stack, entry
  point and argument.
\<close>

section \<open>Reading fibers after a store of the group\<close>

lemma fiber_at_set_group:
  assumes "get_group e (tg_tgid tg') s = Some tg" and "groups s' = groups s"
  shows "fiber_at e (set_group e tg' s') g k =
    (if g = tg_tgid tg' then get_fiber e k tg' else fiber_at e s g k)"
  using assms(1) get_group_cong [OF assms(2), of e g] get_group_cong [OF assms(2), of e "tg_tgid tg'"]
  by (simp add: fiber_at_def get_group_set)

lemma thread_at_set_group:
  assumes "get_group e (tg_tgid tg') s = Some tg" and "groups s' = groups s"
  shows "thread_at e (set_group e tg' s') g k =
    (if g = tg_tgid tg' then get_thread e k tg' else thread_at e s g k)"
  using assms(1) get_group_cong [OF assms(2), of e g] get_group_cong [OF assms(2), of e "tg_tgid tg'"]
  by (simp add: thread_at_def get_group_set)

lemma fiber_at_group: "get_group e g s = Some tg \<Longrightarrow> fiber_at e s g k = get_fiber e k tg"
  by (simp add: fiber_at_def)

lemma thread_at_group: "get_group e g s = Some tg \<Longrightarrow> thread_at e s g p = get_thread e p tg"
  by (simp add: thread_at_def)

section \<open>The effect of a switch\<close>

text \<open>
  C28: A successful switch, in a state that satisfies the invariant. The thread runs a fiber
  \<open>old\<close> and the target \<open>nxt\<close> is another fiber that nobody runs. Afterwards the task has the
  saved registers and FPU state of the target; the target is locked, its state names the
  thread, its activations are one more and its activation time is now; the old fiber has
  the registers the task had, is unlocked and free, and its running time has grown by the
  time since its activation; the thread runs the target, and no other fiber or thread of
  the process changes.
\<close>

theorem do_switch_effect:
  assumes inv: "kstate_inv e s" and sw: "do_switch_to_fiber e s tsk nxt = Done s' tsk' SUCCESS"
  shows "\<exists>t fo fn fo' fn'.
    thread_at e s (tsk_tgid tsk) (tsk_pid tsk) = Some t \<and> t_current_fid t \<noteq> nxt \<and>
    fiber_at e s (tsk_tgid tsk) (t_current_fid t) = Some fo \<and> fiber_at e s (tsk_tgid tsk) nxt = Some fn \<and>
    fiber_at e s' (tsk_tgid tsk) (t_current_fid t) = Some fo' \<and> fiber_at e s' (tsk_tgid tsk) nxt = Some fn' \<and>
    tsk' = tsk\<lparr>tsk_regs := ctx_regs (f_context fn), tsk_fx := ctx_fpu (f_context fn)\<rparr> \<and>
    fn' = fn\<lparr>f_flock := True, f_info := (f_info fn)\<lparr>info_state := tsk_pid tsk,
      info_successful_activations := info_successful_activations (f_info fn) + 1,
      info_last_activation_time := tsk_utime tsk\<rparr>\<rparr> \<and>
    fo' = fo\<lparr>f_flock := False, f_context := \<lparr>ctx_regs = tsk_regs tsk, ctx_fpu = tsk_fx tsk\<rparr>,
      f_info := (f_info fo)\<lparr>info_state := 0, info_total_running_time := info_total_running_time (f_info fo) +
        (tsk_utime tsk - info_last_activation_time (f_info fo))\<rparr>\<rparr> \<and>
    (\<forall>k. k \<noteq> nxt \<and> k \<noteq> t_current_fid t \<longrightarrow>
      fiber_at e s' (tsk_tgid tsk) k = fiber_at e s (tsk_tgid tsk) k) \<and>
    (\<forall>q. thread_at e s' (tsk_tgid tsk) q = (if q = tsk_pid tsk then Some (t\<lparr>t_current_fid := nxt\<rparr>)
      else thread_at e s (tsk_tgid tsk) q))"
  using sw
proof (cases rule: do_switch_cases)
  case (switched tg t f old_f f')
  note g = switched(1) and t = switched(2)
  have key: "tg_tgid tg = tsk_tgid tsk" and p: "t_pid t = tsk_pid tsk"
    using group_key [OF g] thr.lookup_key [OF t] by simp_all
  have "info_state (f_info old_f) \<noteq> 0"
    using current_fiber_exists [OF kstate_invD [OF inv g] t] switched(6) by auto
  then have ne: "t_current_fid t \<noteq> nxt" using switched(3,5,6) by auto
  have f': "f' = enter_fiber tsk (t_pid t) f"
    using switched(3,7) by (simp add: switch_group_fiber [OF ne])
  let ?tg = "switch_group e tsk (t_pid t) (t_current_fid t) nxt tg"
  have fib: "fiber_at e s' (tsk_tgid tsk) k = get_fiber e k ?tg"
    and thr: "thread_at e s' (tsk_tgid tsk) k = get_thread e k ?tg" for k
    using g key by (simp_all add: switched(8) fiber_at_set_group thread_at_set_group)
  show ?thesis
    using switched(3,6,9) t ne f' p
    by (intro exI [of _ t] exI [of _ old_f] exI [of _ f] exI [of _ "leave_fiber tsk old_f"]
        exI [of _ "enter_fiber tsk (t_pid t) f"])
      (simp add: fib thr fiber_at_group [OF g] thread_at_group [OF g] switch_group_fiber [OF ne]
        switch_group_thread, simp add: object_defs)
qed auto

theorem do_switch_effect_witness:
  "\<exists>s' tsk'. do_switch_to_fiber demo_env demo_state (demo_task 100 40) 1 = Done s' tsk' SUCCESS \<and>
    (\<exists>fn. fiber_at demo_env demo_state 100 1 = Some fn \<and> tsk_regs tsk' = ctx_regs (f_context fn))"
proof -
  have "\<exists>s' tsk'. do_switch_to_fiber demo_env demo_state (demo_task 100 40) 1 = Done s' tsk' SUCCESS"
    by (simp add: demo_state_def demo_defs eval_defs)
  then obtain s' tsk' where
    sw: "do_switch_to_fiber demo_env demo_state (demo_task 100 40) 1 = Done s' tsk' SUCCESS" by blast
  show ?thesis using sw do_switch_effect [OF demo_inv sw] by auto
qed

section \<open>Fibers that nobody runs\<close>

definition fiber_idle :: "kenv \<Rightarrow> kstate \<Rightarrow> pid_t \<Rightarrow> pid_t \<Rightarrow> bool" where
  "fiber_idle e s g a =
     (case fiber_at e s g a of None \<Rightarrow> False | Some f \<Rightarrow> info_state (f_info f) = 0)"

definition saved :: "kenv \<Rightarrow> kstate \<Rightarrow> pid_t \<Rightarrow> pid_t \<Rightarrow> (context_t \<times> fls_t) option" where
  "saved e s g a = map_option (\<lambda>f. (f_context f, f_fls f)) (fiber_at e s g a)"

lemma saved_other_group:
  assumes "get_group e g s' = get_group e g s"
  shows "saved e s' g a = saved e s g a"
  using assms by (simp add: saved_def fiber_at_def)

lemma saved_set_group:
  assumes "get_group e g s = Some tg" and "tg_tgid tg' = g" and "groups s' = groups s"
    and "get_fiber e a tg = Some f" and "get_fiber e a tg' = Some f'"
    and "f_context f' = f_context f" and "f_fls f' = f_fls f"
  shows "saved e (set_group e tg' s') g a = saved e s g a"
  using assms by (simp add: saved_def fiber_at_set_group fiber_at_group [OF assms(1)])

lemma saved_convert:
  assumes inv: "kstate_inv e s" and "do_convert_thread_to_fiber e s tsk = Done s' tsk' r"
    and a: "fiber_at e s (tsk_tgid tsk) a = Some f"
  shows "saved e s' (tsk_tgid tsk) a = saved e s (tsk_tgid tsk) a"
proof -
  obtain tg where g: "get_group e (tsk_tgid tsk) s = Some tg" and fa: "get_fiber e a tg = Some f"
    using a by (auto simp: fiber_at_def split: option.splits)
  then have fg: "find_or_generate e s (tsk_tgid tsk) = (Inr tg, s)" by (simp add: find_or_generate_def)
  have "fids_dense e tg" using kstate_invD [OF inv g] by (simp add: group_inv_def)
  then have ne: "a \<noteq> tg_fid_count tg + 1" using next_fid_fresh fa by fastforce
  show ?thesis using assms(2)
  proof (cases rule: do_convert_cases)
    case (exists tg' t)
    then show ?thesis using fg by simp
  next
    case (new tg' s1 s2 s3)
    have [simp]: "tg' = tg" "s1 = s" using new(1) fg by simp_all
    show ?thesis
      unfolding new(5) using fa ne kmalloc_groups [OF new(3)] kmalloc_groups [OF new(4)] group_key [OF g]
      by (intro saved_set_group [OF g]) (simp_all add: convert_group_fiber)
  qed
qed

lemma saved_create:
  assumes inv: "kstate_inv e s" and "do_create_fiber e s tsk sb ss ep arg = Done s' tsk' r"
    and a: "fiber_at e s (tsk_tgid tsk) a = Some f"
  shows "saved e s' (tsk_tgid tsk) a = saved e s (tsk_tgid tsk) a"
  using assms(2)
proof (cases rule: do_create_cases)
  case (created tg t s1)
  note g = created(1)
  have fa: "get_fiber e a tg = Some f" using a by (simp add: fiber_at_group [OF g])
  have "fids_dense e tg" using kstate_invD [OF inv g] by (simp add: group_inv_def)
  then have ne: "a \<noteq> tg_fid_count tg + 1" using next_fid_fresh fa by fastforce
  show ?thesis
    unfolding created(4) using fa ne kmalloc_groups [OF created(3)] group_key [OF g]
    by (intro saved_set_group [OF g]) (simp_all add: create_group_fiber)
qed simp

lemma saved_fields [simp]:
  "f_context (fail_activation f) = f_context f" "f_fls (fail_activation f) = f_fls f"
  "f_context (spin_trylock f) = f_context f" "f_fls (spin_trylock f) = f_fls f"
  "f_context (enter_fiber tsk p f) = f_context f" "f_fls (enter_fiber tsk p f) = f_fls f"
  "f_fls (leave_fiber tsk f) = f_fls f"
  "f_context (leave_fiber tsk f) = \<lparr>ctx_regs = tsk_regs tsk, ctx_fpu = tsk_fx tsk\<rparr>"
  by (simp_all add: object_defs)

lemma saved_mod_fiber:
  assumes "get_group e g s = Some tg" and "get_fiber e a tg = Some f"
    and "\<And>f. f_fid f = k \<Longrightarrow> f_fid (h f) = k"
    and "k = a \<Longrightarrow> f_context (h f) = f_context f \<and> f_fls (h f) = f_fls f"
  shows "saved e (set_group e (mod_fiber e k h tg) s) g a = saved e s g a"
proof (rule saved_set_group [OF assms(1) _ refl assms(2)])
  show "get_fiber e a (mod_fiber e k h tg) = Some (if k = a then h f else f)"
    using assms(2,3) by (auto simp: fib.lookup_store)
qed (use assms(4) group_key [OF assms(1)] in auto)

lemma saved_switch:
  assumes inv: "kstate_inv e s" and pid: "tsk_pid tsk \<noteq> 0"
    and "do_switch_to_fiber e s tsk nxt = Done s' tsk' r"
    and idle: "fiber_idle e s (tsk_tgid tsk) a" "fiber_idle e s' (tsk_tgid tsk) a"
  shows "saved e s' (tsk_tgid tsk) a = saved e s (tsk_tgid tsk) a"
proof -
  obtain f where a: "fiber_at e s (tsk_tgid tsk) a = Some f" and free: "info_state (f_info f) = 0"
    using idle(1) by (auto simp: fiber_idle_def split: option.splits)
  show ?thesis using assms(3)
  proof (cases rule: do_switch_cases)
    case (busy tg t fn)
    note g = busy(1)
    have "get_fiber e a tg = Some f" using a by (simp add: fiber_at_group [OF g])
    then show ?thesis
      unfolding busy(7) mod_fiber_busy [OF kstate_invD [OF inv g] busy(3,4)]
      by (intro saved_mod_fiber [OF g]) simp_all
  next
    case (orphan tg t fn)
    then show ?thesis using current_fiber_exists kstate_invD [OF inv orphan(1)] by fastforce
  next
    case (switched tg t fn old_f f')
    note g = switched(1) and t = switched(2)
    have fa: "get_fiber e a tg = Some f" using a by (simp add: fiber_at_group [OF g])
    have p: "t_pid t = tsk_pid tsk" using thr.lookup_key [OF t] .
    have "info_state (f_info old_f) \<noteq> 0"
      using current_fiber_exists [OF kstate_invD [OF inv g] t] switched(6) by auto
    then have ne: "t_current_fid t \<noteq> nxt" "a \<noteq> t_current_fid t" using switched fa free by auto
    let ?tg = "switch_group e tsk (t_pid t) (t_current_fid t) nxt tg"
    have "fiber_at e s' (tsk_tgid tsk) k = get_fiber e k ?tg" for k
      using g group_key [OF g] by (simp add: switched(8) fiber_at_set_group)
    then have "a \<noteq> nxt"
      using idle(2) switched(3) pid p by (auto simp: fiber_idle_def switch_group_fiber [OF ne(1)])
    then show ?thesis
      unfolding switched(8) using fa ne group_key [OF g]
      by (intro saved_set_group [OF g]) (simp_all add: switch_group_fiber)
  qed simp
qed

lemma saved_put_fls:
  assumes inv: "kstate_inv e s" and c: "find_current e s tsk = Some (tg, t, f)"
    and idle: "fiber_idle e s (tsk_tgid tsk) a"
  shows "saved e (put_fls e s tg t x) (tsk_tgid tsk) a = saved e s (tsk_tgid tsk) a"
proof -
  note g = find_current_SomeD [OF c]
  obtain fa where fa: "get_fiber e a tg = Some fa" "info_state (f_info fa) = 0"
    using idle by (auto simp: fiber_idle_def fiber_at_group [OF g(1)] split: option.splits)
  have "t_current_fid t \<noteq> a" using current_fiber_exists [OF kstate_invD [OF inv g(1)] g(2)] fa by auto
  then show ?thesis
    unfolding put_fls_def by (intro saved_mod_fiber [OF g(1) fa(1)]) simp_all
qed

text \<open>An operation changes no group but that of the calling task.\<close>

lemma put_fls_other: "g \<noteq> tg_tgid tg \<Longrightarrow> get_group e g (put_fls e s tg t x) = get_group e g s"
  by (simp add: put_fls_def get_group_set)

lemma set_group_other:
  "g \<noteq> tg_tgid tg \<Longrightarrow> groups s' = groups s \<Longrightarrow> get_group e g (set_group e tg s') = get_group e g s"
  using get_group_cong [of s' s e g] by (simp add: get_group_set)

lemma fls_other:
  assumes "g \<noteq> tsk_tgid tsk"
  shows "do_fls_alloc e s tsk = Done s' tsk' r \<Longrightarrow> get_group e g s' = get_group e g s"
    and "do_fls_get_value e s tsk i = Done s' tsk' r \<Longrightarrow> get_group e g s' = get_group e g s"
    and "do_fls_free e s tsk i = Done s' tsk' r \<Longrightarrow> get_group e g s' = get_group e g s"
    and "do_fls_set_value e s tsk i v = Done s' tsk' r \<Longrightarrow> get_group e g s' = get_group e g s"
  using assms
  by (auto simp: do_fls_alloc_def do_fls_get_value_def do_fls_free_def do_fls_set_value_def
      split: option.splits prod.splits if_splits
      dest!: find_current_SomeD(1) group_key intro: put_fls_other)

lemma convert_other:
  assumes "kstate_inv e s" and "g \<noteq> tsk_tgid tsk" and "do_convert_thread_to_fiber e s tsk = Done s' tsk' r"
  shows "get_group e g s' = get_group e g s"
  using assms(3)
proof (cases rule: do_convert_cases)
  case (exists tg t)
  then show ?thesis using find_or_generate_inv(3) [OF assms(1)] assms(2) by blast
next
  case (new tg s1 s2 s3)
  note fg = find_or_generate_inv [OF assms(1) new(1)]
  have "get_group e g s' = get_group e g s1"
    unfolding new(5) using assms(2) group_key [OF fg(2)] kmalloc_groups [OF new(3)] kmalloc_groups [OF new(4)]
    by (intro set_group_other) simp_all
  then show ?thesis using fg(3) [OF assms(2)] by simp
qed

lemma create_other:
  assumes "g \<noteq> tsk_tgid tsk" and "do_create_fiber e s tsk sb ss ep arg = Done s' tsk' r"
  shows "get_group e g s' = get_group e g s"
  using assms(2)
proof (cases rule: do_create_cases)
  case (created tg t s1)
  then show ?thesis using assms(1) group_key [OF created(1)] kmalloc_groups [OF created(3)]
    by (auto intro: set_group_other)
qed simp

lemma switch_other:
  assumes "g \<noteq> tsk_tgid tsk" and "do_switch_to_fiber e s tsk nxt = Done s' tsk' r"
  shows "get_group e g s' = get_group e g s"
  using assms(2)
proof (cases rule: do_switch_cases)
  case (busy tg t f)
  then show ?thesis using assms(1) group_key [OF busy(1)] by (simp add: set_group_other)
next
  case (orphan tg t f)
  then show ?thesis using assms(1) group_key [OF orphan(1)] by (simp add: set_group_other)
next
  case (switched tg t f old_f f')
  then show ?thesis using assms(1) group_key [OF switched(1)] by (simp add: set_group_other)
qed simp

lemma syscall_other:
  assumes "kstate_inv e s" and "g \<noteq> tsk_tgid tsk" and "syscall e s tsk c = Done s' tsk' r"
  shows "get_group e g s' = get_group e g s"
proof (cases c)
  case Release
  have "hash_wf (hash_min e) tg_tgid (groups s)" using assms(1) by (simp add: kstate_inv_def)
  from cleanup_process_lookup [OF this, of g "tsk_tgid tsk"] show ?thesis
    using assms(2,3) Release by (auto split: prod.splits)
qed (use assms(3) convert_other [OF assms(1,2)] create_other [OF assms(2)] switch_other [OF assms(2)]
    fls_other [OF assms(2)] in \<open>auto simp: map_outcome_Done\<close>)

lemma syscall_saved:
  assumes inv: "kstate_inv e s" and pid: "tsk_pid tsk \<noteq> 0" and sys: "syscall e s tsk c = Done s' tsk' r"
    and idle: "fiber_idle e s g a" "fiber_idle e s' g a"
  shows "saved e s' g a = saved e s g a"
proof (cases "g = tsk_tgid tsk")
  case False
  then show ?thesis using saved_other_group syscall_other [OF inv _ sys] by blast
next
  case True
  obtain f where f: "fiber_at e s (tsk_tgid tsk) a = Some f"
    using idle(1) True by (auto simp: fiber_idle_def split: option.splits)
  note idle' = idle [unfolded True]
  show ?thesis unfolding True
  proof (cases c)
    case Convert
    then show "saved e s' (tsk_tgid tsk) a = saved e s (tsk_tgid tsk) a"
      using sys saved_convert [OF inv _ f] by (auto simp: map_outcome_Done)
  next
    case (Create sb ss ep arg)
    then show "saved e s' (tsk_tgid tsk) a = saved e s (tsk_tgid tsk) a"
      using sys saved_create [OF inv _ f] by (auto simp: map_outcome_Done)
  next
    case (Switch nxt)
    then show "saved e s' (tsk_tgid tsk) a = saved e s (tsk_tgid tsk) a"
      using sys saved_switch [OF inv pid _ idle'] by (auto simp: map_outcome_Done)
  next
    case Release
    have "hash_wf (hash_min e) tg_tgid (groups s)" using inv by (simp add: kstate_inv_def)
    from cleanup_process_lookup [OF this, of "tsk_tgid tsk" "tsk_tgid tsk"]
    have "fiber_at e s' (tsk_tgid tsk) a = None"
      using sys Release by (auto simp: fiber_at_def split: prod.splits)
    with idle'(2) show "saved e s' (tsk_tgid tsk) a = saved e s (tsk_tgid tsk) a"
      by (simp add: fiber_idle_def)
  qed (use sys saved_put_fls [OF inv _ idle'(1)] in
      \<open>auto simp: do_fls_alloc_def do_fls_get_value_def do_fls_free_def do_fls_set_value_def
        split: option.splits prod.splits if_splits\<close>)
qed

section \<open>Isolation of processes\<close>

text \<open>
  C29: No operation of a task changes the fibers or threads of another process, whatever it
  is and whatever it returns.
\<close>

theorem process_isolation:
  assumes "kstate_inv e s" and "syscall e s tsk c = Done s' tsk' r" and "g \<noteq> tsk_tgid tsk"
  shows "fiber_at e s' g k = fiber_at e s g k \<and> thread_at e s' g p = thread_at e s g p"
  using syscall_other [OF assms(1,3,2)] by (simp add: fiber_at_def thread_at_def)

theorem process_isolation_witness:
  "\<exists>s' tsk' r. syscall demo_env demo_state ((demo_task 100 40)\<lparr>tsk_tgid := 200\<rparr>) Convert = Done s' tsk' r \<and>
    fiber_at demo_env s' 100 2 = fiber_at demo_env demo_state 100 2"
proof -
  have "\<exists>s' tsk' r. syscall demo_env demo_state ((demo_task 100 40)\<lparr>tsk_tgid := 200\<rparr>) Convert = Done s' tsk' r"
    by (simp add: demo_state_def demo_defs eval_defs)
  then obtain s' tsk' r where
    1: "syscall demo_env demo_state ((demo_task 100 40)\<lparr>tsk_tgid := 200\<rparr>) Convert = Done s' tsk' r"
    by blast
  show ?thesis using 1 process_isolation [OF demo_inv 1, of 100 2] by simp
qed

section \<open>Leaving and resuming a fiber\<close>

lemma switch_idle_succeeds:
  assumes inv: "kstate_inv e s" and t: "thread_at e s (tsk_tgid tsk) (tsk_pid tsk) = Some t"
    and f: "fiber_at e s (tsk_tgid tsk) k = Some f" "info_state (f_info f) = 0"
  shows "\<exists>s'. do_switch_to_fiber e s tsk k =
    Done s' (tsk\<lparr>tsk_regs := ctx_regs (f_context f), tsk_fx := ctx_fpu (f_context f)\<rparr>) SUCCESS"
proof -
  obtain tg where g: "get_group e (tsk_tgid tsk) s = Some tg" and t': "get_thread e (tsk_pid tsk) tg = Some t"
    using t by (auto simp: thread_at_def split: option.splits)
  note gi = kstate_invD [OF inv g]
  have k: "get_fiber e k tg = Some f" using f(1) g by (simp add: fiber_at_def)
  obtain old_f where old: "get_fiber e (t_current_fid t) tg = Some old_f" "info_state (f_info old_f) \<noteq> 0"
    using current_fiber_exists [OF gi t'] by auto
  then have ne: "t_current_fid t \<noteq> k" using k f(2) by auto
  have "\<not> f_flock f" using busy_locked(2) [OF gi k] f(2) by auto
  then show ?thesis using g t' k f(2) old(1) by (simp add: do_switch_eq Let_def switch_group_fiber [OF ne])
qed

text \<open>
  \<open>idle_run e g a s s'\<close>: operations of any tasks lead from \<open>s\<close> to \<open>s'\<close>, and after each of
  them nobody runs the fiber \<open>a\<close> of the process \<open>g\<close>.
\<close>

inductive idle_run :: "kenv \<Rightarrow> pid_t \<Rightarrow> pid_t \<Rightarrow> kstate \<Rightarrow> kstate \<Rightarrow> bool" where
  idle_refl: "idle_run e g a s s"
| idle_step: "idle_run e g a s s1 \<Longrightarrow> tsk_pid tsk \<noteq> 0 \<Longrightarrow> fids_left e s1 tsk \<Longrightarrow>
     syscall e s1 tsk c = Done s2 tsk' r \<Longrightarrow> fiber_idle e s2 g a \<Longrightarrow> idle_run e g a s s2"

inductive_simps idle_run_simps: "idle_run e g a s s'"

lemma idle_run_saved:
  assumes "idle_run e g a s s'" and "kstate_inv e s" and "fiber_idle e s g a"
  shows "kstate_inv e s' \<and> fiber_idle e s' g a \<and> saved e s' g a = saved e s g a"
  using assms
proof (induction rule: idle_run.induct)
  case (idle_step e g a s s1 tsk c s2 tsk' r)
  then have 1: "kstate_inv e s1" "fiber_idle e s1 g a" "saved e s1 g a = saved e s g a" by simp_all
  show ?case
    using 1 idle_step.hyps syscall_inv [OF 1(1) idle_step.hyps(2-4)]
      syscall_saved [OF 1(1) idle_step.hyps(2,4) 1(2) idle_step.hyps(5)] by simp
qed simp

lemma switch_success:
  assumes "kstate_inv e s" and "do_switch_to_fiber e s tsk nxt = Done s' tsk' SUCCESS"
  obtains t where "thread_at e s (tsk_tgid tsk) (tsk_pid tsk) = Some t"
    "map_option fst (saved e s (tsk_tgid tsk) nxt) = Some \<lparr>ctx_regs = tsk_regs tsk', ctx_fpu = tsk_fx tsk'\<rparr>"
    "map_option fst (saved e s' (tsk_tgid tsk) (t_current_fid t)) =
       Some \<lparr>ctx_regs = tsk_regs tsk, ctx_fpu = tsk_fx tsk\<rparr>"
    "map_option snd (saved e s' (tsk_tgid tsk) (t_current_fid t)) =
       map_option snd (saved e s (tsk_tgid tsk) (t_current_fid t))"
    "fiber_idle e s' (tsk_tgid tsk) (t_current_fid t)"
  using assms(2)
proof (cases rule: do_switch_cases)
  case (switched tg t f old_f f')
  note g = switched(1) and t = switched(2)
  have "info_state (f_info old_f) \<noteq> 0"
    using current_fiber_exists [OF kstate_invD [OF assms(1) g] t] switched(6) by auto
  then have ne: "t_current_fid t \<noteq> nxt" using switched(3,5,6) by auto
  have f': "f_context f' = f_context f"
    using switched(3,7) by (auto simp: switch_group_fiber [OF ne])
  have at: "fiber_at e s' (tsk_tgid tsk) k =
      get_fiber e k (switch_group e tsk (t_pid t) (t_current_fid t) nxt tg)" for k
    using g group_key [OF g] by (simp add: switched(8) fiber_at_set_group)
  show ?thesis
  proof (rule that)
    show "thread_at e s (tsk_tgid tsk) (tsk_pid tsk) = Some t" using g t by (simp add: thread_at_def)
  qed (use switched(3,6,9) ne f' g in
      \<open>simp_all add: saved_def fiber_idle_def at fiber_at_group [OF g] switch_group_fiber [OF ne]\<close>)
qed auto



text \<open>
  C9: A created fiber starts where it was told to. After \<open>do_create_fiber\<close> returned the id
  \<open>fid\<close> (not an error), and any operations during which nobody runs it, a task of the
  process that switches to it continues at the entry point, with the parameter in the
  register of the first argument and the stack and frame pointers eight bytes below the
  end of the given stack; its storage is empty.
\<close>

theorem created_fiber_starts:
  assumes inv: "kstate_inv e s" and left: "fids_left e s tsk"
    and create: "do_create_fiber e s tsk sb ss ep arg = Done s1 tsk1 fid" and ok: "0 \<le> sint fid"
    and between: "idle_run e (tsk_tgid tsk) fid s1 s2"
    and go: "do_switch_to_fiber e s2 tsk2 fid = Done s3 tsk3 SUCCESS"
    and same: "tsk_tgid tsk2 = tsk_tgid tsk"
  shows "regs_ip (tsk_regs tsk3) = ep \<and> regs_di (tsk_regs tsk3) = arg \<and>
    regs_sp (tsk_regs tsk3) = sb + ss - 8 \<and> regs_bp (tsk_regs tsk3) = sb + ss - 8 \<and>
    map_option f_fls (fiber_at e s2 (tsk_tgid tsk) fid) = Some PREPARE_FLS"
  using create
proof (cases rule: do_create_cases)
  case absent
  with ok show ?thesis by simp
next
  case (created tg t s0)
  let ?f = "ALLOC_CONTEXT ep arg (ALLOC_STACK sb ss (new_fiber tg t tsk))"
  have at: "fiber_at e s1 (tsk_tgid tsk) fid = Some ?f"
    unfolding created(4,6) using created(1) group_key [OF created(1)] kmalloc_groups [OF created(3)]
    by (simp add: fiber_at_set_group create_group_fiber)
  have idle: "fiber_idle e s1 (tsk_tgid tsk) fid" using at by (simp add: fiber_idle_def)
  have kept: "kstate_inv e s2" "saved e s2 (tsk_tgid tsk) fid = saved e s1 (tsk_tgid tsk) fid"
    using idle_run_saved [OF between create_inv [OF inv left create] idle] by simp_all
  have "map_option fst (saved e s2 (tsk_tgid tsk) fid) =
      Some \<lparr>ctx_regs = tsk_regs tsk3, ctx_fpu = tsk_fx tsk3\<rparr>"
    using switch_success [OF kept(1) go] same by metis
  then have "f_context ?f = \<lparr>ctx_regs = tsk_regs tsk3, ctx_fpu = tsk_fx tsk3\<rparr>"
    unfolding kept(2) using at by (simp add: saved_def)
  then have "tsk_regs tsk3 = ctx_regs (f_context ?f)" by simp
  moreover have "map_option f_fls (fiber_at e s2 (tsk_tgid tsk) fid) = Some (f_fls ?f)"
    using kept(2) at by (cases "fiber_at e s2 (tsk_tgid tsk) fid") (simp_all add: saved_def)
  ultimately show ?thesis
    by (simp add: ALLOC_CONTEXT_def ALLOC_STACK_def new_fiber_def PREPARE_CONTEXT_def Let_def)
qed

theorem created_fiber_starts_witness:
  "\<exists>s1 tsk1 s3 tsk3.
    do_create_fiber demo_env demo_state (demo_task 100 40) 65536 8192 4194304 7 = Done s1 tsk1 3 \<and>
    do_switch_to_fiber demo_env s1 (demo_task 101 50) 3 = Done s3 tsk3 SUCCESS \<and>
    regs_ip (tsk_regs tsk3) = 4194304 \<and> regs_sp (tsk_regs tsk3) = 73720"
proof -
  have "\<exists>s1 tsk1. do_create_fiber demo_env demo_state (demo_task 100 40) 65536 8192 4194304 7 =
        Done s1 tsk1 3 \<and>
      (\<exists>s3 tsk3. do_switch_to_fiber demo_env s1 (demo_task 101 50) 3 = Done s3 tsk3 SUCCESS)"
    by (simp add: demo_state_def demo_defs eval_defs)
  then obtain s1 tsk1 s3 tsk3 where
    1: "do_create_fiber demo_env demo_state (demo_task 100 40) 65536 8192 4194304 7 = Done s1 tsk1 3" and
    2: "do_switch_to_fiber demo_env s1 (demo_task 101 50) 3 = Done s3 tsk3 SUCCESS" by blast
  have left: "fids_left demo_env demo_state (demo_task 100 40)"
    by (rule fids_bound_left [of _ 3]) (use reachable_inv [OF demo_reachable] in simp_all)
  have "regs_ip (tsk_regs tsk3) = 4194304 \<and> regs_sp (tsk_regs tsk3) = 65536 + 8192 - 8"
    using created_fiber_starts [OF demo_inv left 1 _ _ 2] idle_refl by simp
  with 1 2 show ?thesis by simp
qed

end
