(* ===== verification/Fiber_Storage.thy ===== *)
theory Fiber_Storage
  imports Fiber_Context
begin

text \<open>
  The storage handlers: what a thread sees of the local storage of the fiber it runs, and
  that it touches no other fiber's storage.
\<close>

section \<open>Storage of the current fiber\<close>

definition current_fls :: "kenv \<Rightarrow> kstate \<Rightarrow> task \<Rightarrow> fls_t option" where
  "current_fls e s tsk = map_option (\<lambda>(tg, t, f). f_fls f) (find_current e s tsk)"

lemma current_fls_SomeE:
  assumes "current_fls e s tsk = Some F"
  obtains tg t f where "find_current e s tsk = Some (tg, t, f)" "f_fls f = F"
  using assms by (auto simp: current_fls_def)

lemma current_fls_put:
  assumes "find_current e s tsk = Some (tg, t, f)"
  shows "current_fls e (put_fls e s tg t x) tsk = Some x"
proof -
  note g = find_current_SomeD [OF assms]
  show ?thesis
    using g group_key [OF g(1)]
    by (simp add: current_fls_def find_current_def put_fls_def table_simps)
qed

lemma good_index:
  assumes "\<not> bad_index i"
  shows "unat i < FLS_MAX_SIZE" and "of_nat (unat i) = i"
proof -
  have "int (unat i) = sint i" using assms by (intro unat_eq_sint) (simp add: bad_index_def)
  moreover have "sint i < 4096" using assms by (simp add: bad_index_def)
  ultimately show "unat i < FLS_MAX_SIZE" by linarith
qed simp

lemma good_index_inj: "\<not> bad_index i \<Longrightarrow> \<not> bad_index j \<Longrightarrow> unat i = unat j \<longleftrightarrow> i = j"
  by (simp add: word_unat_eq_iff)

lemma do_fls_get_current:
  assumes "current_fls e s tsk = Some F" and "\<not> bad_index i"
  shows "do_fls_get_value e s tsk i = Done s tsk (fls_get_slot F (unat i))"
  using assms by (auto simp: do_fls_get_value_def elim: current_fls_SomeE)

lemma do_fls_set_current:
  assumes "current_fls e s tsk = Some F" and "\<not> bad_index i"
  obtains s' where "do_fls_set_value e s tsk i v = Done s' tsk (snd (fls_set_slot F (unat i) v))"
    "current_fls e s' tsk = Some (fst (fls_set_slot F (unat i) v))"
  using assms(1)
proof (rule current_fls_SomeE)
  fix tg t f assume c: "find_current e s tsk = Some (tg, t, f)" "f_fls f = F"
  show thesis
    by (rule that [of "put_fls e s tg t (fst (fls_set_slot F (unat i) v))"])
      (use assms(2) c current_fls_put [OF c(1)] in \<open>simp_all add: do_fls_set_value_def split_def\<close>)
qed

lemma do_fls_free_current:
  assumes "current_fls e s tsk = Some F" and "\<not> bad_index i"
  obtains s' where "do_fls_free e s tsk i = Done s' tsk (snd (fls_free_slot F (unat i)))"
    "current_fls e s' tsk = Some (fst (fls_free_slot F (unat i)))"
  using assms(1)
proof (rule current_fls_SomeE)
  fix tg t f assume c: "find_current e s tsk = Some (tg, t, f)" "f_fls f = F"
  show thesis
    by (rule that [of "put_fls e s tg t (fst (fls_free_slot F (unat i)))"])
      (use assms(2) c current_fls_put [OF c(1)] in \<open>simp_all add: do_fls_free_def split_def\<close>)
qed

lemma do_fls_alloc_current:
  assumes "current_fls e s tsk = Some F"
  obtains s' where "do_fls_alloc e s tsk = Done s' tsk (snd (fls_alloc_slot F))"
    "current_fls e s' tsk = Some (fst (fls_alloc_slot F))"
  using assms(1)
proof (rule current_fls_SomeE)
  fix tg t f assume c: "find_current e s tsk = Some (tg, t, f)" "f_fls f = F"
  show thesis
    by (rule that [of "put_fls e s tg t (fst (fls_alloc_slot F))"])
      (use c current_fls_put [OF c(1)] in \<open>simp_all add: do_fls_alloc_def split_def\<close>)
qed

section \<open>Properties of the storage handlers\<close>


text \<open>The storage of the example run after one allocation by thread 100.\<close>

lemma demo_fls:
  obtains s F where "do_fls_alloc demo_env demo_state (demo_task 100 40) = Done s (demo_task 100 40) 0"
    "current_fls demo_env s (demo_task 100 40) = Some F" "fls_view F 0 = Some 0"
proof -
  have "\<exists>s F. do_fls_alloc demo_env demo_state (demo_task 100 40) = Done s (demo_task 100 40) 0 \<and>
      current_fls demo_env s (demo_task 100 40) = Some F \<and> fls_view F 0 = Some 0"
    by (simp add: demo_state_def demo_defs eval_defs current_fls_def fls_alloc_slot_def
        find_first_zero_bit_def scan_zero.simps PREPARE_FLS_def fls_view_def change_bit_def)
  then show thesis using that by blast
qed


text \<open>
  C32: Allocation hands out the lowest free slot. \<open>do_fls_alloc\<close> returns either an index
  below 4096 that was not in use while all lower ones were, which is then in use and every
  other slot is as before, or \<open>-EINVAL\<close> when all 4096 slots are in use, and then nothing
  changed. An allocation after it never returns the same index.
\<close>

theorem fls_alloc_lowest:
  assumes F: "current_fls e s tsk = Some F"
  shows "\<exists>s' r F'. do_fls_alloc e s tsk = Done s' tsk r \<and> current_fls e s' tsk = Some F' \<and>
    ((\<exists>i v. i < FLS_MAX_SIZE \<and> r = of_nat i \<and> fls_view F i = None \<and> (\<forall>j < i. fls_view F j \<noteq> None) \<and>
        fls_view F' = (fls_view F)(i \<mapsto> v)) \<or>
     (r = - EINVAL \<and> (\<forall>i < FLS_MAX_SIZE. fls_view F i \<noteq> None) \<and> F' = F)) \<and>
    (\<forall>s'' r'. do_fls_alloc e s' tsk = Done s'' tsk r' \<and> r \<noteq> - EINVAL \<longrightarrow> r' \<noteq> r)"
proof -
  obtain s' where s': "do_fls_alloc e s tsk = Done s' tsk (snd (fls_alloc_slot F))"
    "current_fls e s' tsk = Some (fst (fls_alloc_slot F))"
    using do_fls_alloc_current [OF F] .
  have "r' \<noteq> snd (fls_alloc_slot F)"
    if "do_fls_alloc e s' tsk = Done s'' tsk r'" and "snd (fls_alloc_slot F) \<noteq> - EINVAL" for s'' r'
  proof -
    obtain s2 where "do_fls_alloc e s' tsk = Done s2 tsk (snd (fls_alloc_slot (fst (fls_alloc_slot F))))"
      using do_fls_alloc_current [OF s'(2)] by blast
    then show ?thesis
      using that fls.alloc_distinct [of F "fst (fls_alloc_slot F)"] by (metis outcome.inject(1) prod.collapse)
  qed
  moreover have "(\<exists>i v. i < FLS_MAX_SIZE \<and> snd (fls_alloc_slot F) = of_nat i \<and> fls_view F i = None \<and>
        (\<forall>j < i. fls_view F j \<noteq> None) \<and> fls_view (fst (fls_alloc_slot F)) = (fls_view F)(i \<mapsto> v)) \<or>
     (snd (fls_alloc_slot F) = - EINVAL \<and> (\<forall>i < FLS_MAX_SIZE. fls_view F i \<noteq> None) \<and>
        fst (fls_alloc_slot F) = F)"
    by (cases F rule: fls.alloc_cases) auto
  ultimately show ?thesis using s' by blast
qed

theorem fls_alloc_lowest_witness:
  "\<exists>s s' r. do_fls_alloc demo_env demo_state (demo_task 100 40) = Done s (demo_task 100 40) 0 \<and>
    do_fls_alloc demo_env s (demo_task 100 40) = Done s' (demo_task 100 40) r \<and> r \<noteq> 0"
proof -
  obtain s F where s: "do_fls_alloc demo_env demo_state (demo_task 100 40) = Done s (demo_task 100 40) 0"
    "current_fls demo_env s (demo_task 100 40) = Some F" by (rule demo_fls)
  obtain F0 where F0: "current_fls demo_env demo_state (demo_task 100 40) = Some F0"
    using s(1) by (auto simp: current_fls_def do_fls_alloc_def split: option.splits)
  show ?thesis
    using s(1) fls_alloc_lowest [OF F0] do_fls_alloc_current [OF s(2)] by fastforce
qed



text \<open>
  A slot that is freed and allocated again shows the value it had before, not zero:
  when \<open>i\<close> is the lowest slot that a free leaves unused, the sequence free, allocate, get
  returns \<open>i\<close> from the allocation and the old value from the read.
\<close>

lemma fls_reuse_shows_old_value:
  assumes F: "current_fls e s tsk = Some F" and i: "\<not> bad_index i" and used: "fls_view F (unat i) = Some v"
    and lower: "\<forall>j < unat i. fls_view F j \<noteq> None"
  shows "\<exists>s1 s2. do_fls_free e s tsk i = Done s1 tsk 0 \<and> do_fls_alloc e s1 tsk = Done s2 tsk i \<and>
    do_fls_get_value e s2 tsk i = Done s2 tsk v"
proof -
  have bmp: "fls_bmp F (unat i)" "fls_data F (unat i) = v"
    using used by (auto simp: fls_view_def split: if_splits)
  let ?F1 = "F\<lparr>fls_bmp := change_bit (unat i) (fls_bmp F)\<rparr>"
  have free: "fls_free_slot F (unat i) = (?F1, 0)" using bmp by (simp add: fls_free_slot_def)
  have "find_first_zero_bit (fls_bmp ?F1) FLS_MAX_SIZE = unat i"
    using good_index(1) [OF i] bmp lower fls_view_used [of F]
    by (intro find_first_zero_bit_eqI) (auto simp: change_bit_def)
  then have alloc: "fls_alloc_slot ?F1 = (?F1\<lparr>fls_bmp := change_bit (unat i) (fls_bmp ?F1)\<rparr>, i)"
    using good_index [OF i] by (simp add: fls_alloc_slot_def Let_def)
  obtain s1 where s1: "do_fls_free e s tsk i = Done s1 tsk 0" "current_fls e s1 tsk = Some ?F1"
    using do_fls_free_current [OF F i] free by (metis fst_conv snd_conv)
  obtain s2 where s2: "do_fls_alloc e s1 tsk = Done s2 tsk i"
      "current_fls e s2 tsk = Some (?F1\<lparr>fls_bmp := change_bit (unat i) (fls_bmp ?F1)\<rparr>)"
    using do_fls_alloc_current [OF s1(2)] alloc by (metis fst_conv snd_conv)
  show ?thesis
    using s1(1) s2(1) do_fls_get_current [OF s2(2) i] bmp by (simp add: fls_get_slot_def change_bit_def)
qed

theorem fls_reuse_shows_old_value_witness:
  "\<exists>s s1 s2 s3. do_fls_alloc demo_env demo_state (demo_task 100 40) = Done s (demo_task 100 40) 0 \<and>
    do_fls_set_value demo_env s (demo_task 100 40) 0 77 = Done s1 (demo_task 100 40) 0 \<and>
    do_fls_free demo_env s1 (demo_task 100 40) 0 = Done s2 (demo_task 100 40) 0 \<and>
    do_fls_alloc demo_env s2 (demo_task 100 40) = Done s3 (demo_task 100 40) 0 \<and>
    do_fls_get_value demo_env s3 (demo_task 100 40) 0 = Done s3 (demo_task 100 40) 77"
proof -
  obtain s F where s: "do_fls_alloc demo_env demo_state (demo_task 100 40) = Done s (demo_task 100 40) 0"
    "current_fls demo_env s (demo_task 100 40) = Some F" "fls_view F 0 = Some 0" by (rule demo_fls)
  have good: "\<not> bad_index 0" by (simp add: bad_index_def)
  obtain F' where F': "fls_set_slot F 0 77 = (F', 0)" "fls_view F' = (fls_view F)(0 \<mapsto> 77)"
    using fls.put_used [of F 0 77] s(3) by auto
  obtain s1 where s1: "do_fls_set_value demo_env s (demo_task 100 40) 0 77 = Done s1 (demo_task 100 40) 0"
    "current_fls demo_env s1 (demo_task 100 40) = Some F'"
    using do_fls_set_current [OF s(2) good, of 77] F'(1) by (metis fst_conv snd_conv unsigned_0)
  show ?thesis
    using s(1) s1(1) fls_reuse_shows_old_value [OF s1(2) good, of 77] F'(2) by auto
qed

text \<open>
  Storage is per fiber. A storage operation of a thread leaves every fiber of the
  process other than the one it runs as it is, and of that fiber it changes nothing but
  the storage.
\<close>

lemma fls_per_fiber:
  assumes c: "c \<in> {Fls_Alloc, Fls_Get i, Fls_Free i, Fls_Set i v}"
    and sys: "syscall e s tsk c = Done s' tsk' r"
    and t: "thread_at e s (tsk_tgid tsk) (tsk_pid tsk) = Some t"
  shows "(\<forall>k. k \<noteq> t_current_fid t \<longrightarrow> fiber_at e s' (tsk_tgid tsk) k = fiber_at e s (tsk_tgid tsk) k) \<and>
    (\<exists>x. fiber_at e s' (tsk_tgid tsk) (t_current_fid t) =
      map_option (\<lambda>f. f\<lparr>f_fls := x f\<rparr>) (fiber_at e s (tsk_tgid tsk) (t_current_fid t)))"
proof -
  have "s' = s \<or> (\<exists>tg u f x. find_current e s tsk = Some (tg, u, f) \<and> s' = put_fls e s tg u x)"
    using c sys
    by (auto simp: do_fls_alloc_def do_fls_get_value_def do_fls_free_def do_fls_set_value_def
        split: option.splits prod.splits if_splits)
  then show ?thesis
  proof
    assume "s' = s"
    then show ?thesis by (auto intro!: exI [of _ f_fls] simp: option.map_ident)
  next
    assume "\<exists>tg u f x. find_current e s tsk = Some (tg, u, f) \<and> s' = put_fls e s tg u x"
    then obtain tg u f x where cur: "find_current e s tsk = Some (tg, u, f)" and s': "s' = put_fls e s tg u x"
      by blast
    note g = find_current_SomeD [OF cur]
    have u: "u = t" using g(1,2) t by (simp add: thread_at_def)
    have at: "fiber_at e s' (tsk_tgid tsk) k =
        get_fiber e k (mod_fiber e (t_current_fid t) (\<lambda>f. f\<lparr>f_fls := x\<rparr>) tg)" for k
      unfolding s' put_fls_def u using g(1) group_key [OF g(1)] by (simp add: fiber_at_set_group)
    show ?thesis
      by (auto simp: at fiber_at_group [OF g(1)] fib.lookup_store intro!: exI [of _ "\<lambda>_. x"])
  qed
qed

lemma fls_per_fiber_witness:
  "\<exists>s'. syscall demo_env demo_state (demo_task 100 40) Fls_Alloc = Done s' (demo_task 100 40) 0 \<and>
    fiber_at demo_env s' 100 2 = fiber_at demo_env demo_state 100 2"
proof -
  obtain s where "do_fls_alloc demo_env demo_state (demo_task 100 40) = Done s (demo_task 100 40) 0"
    by (rule demo_fls)
  then have sys: "syscall demo_env demo_state (demo_task 100 40) Fls_Alloc = Done s (demo_task 100 40) 0"
    by simp
  have t: "thread_at demo_env demo_state 100 100 = Some \<lparr>t_pid = 100, t_current_fid = 0\<rparr>"
    using demo_get_group demo_threads(1) by (simp add: thread_at_def)
  show ?thesis using sys fls_per_fiber [OF _ sys] t by simp
qed

end
