(* ===== verification/Fiber_Lifetime.thy ===== *)
theory Fiber_Lifetime
  imports Fiber_Storage
begin

text \<open>
  Lifetime of the objects of the module: the cleanup frees everything it should and nothing
  else, no object is leaked over a run, the cleanup loops read freed objects, and the
  module faults exactly when an allocation fails.
\<close>

section \<open>Cleanup\<close>

text \<open>
  C36: The release of a process removes exactly its group. After \<open>cleanup_process\<close> the
  process has no group, every other group is as before, the invariant holds, and the live
  objects have shrunk by exactly the group, its threads and its fibers.
\<close>

theorem cleanup_process_removes:
  assumes inv: "kstate_inv e s" and g: "get_group e k s = Some tg"
  shows "\<exists>s'. cleanup_process e s k = (s', SUCCESS) \<and> kstate_inv e s' \<and>
    get_group e k s' = None \<and> (\<forall>j. j \<noteq> k \<longrightarrow> get_group e j s' = get_group e j s) \<and>
    live_objects s = live_objects s' + (1 + length (thread_list tg) + length (fiber_list tg))"
proof -
  have wf: "hash_wf (hash_min e) tg_tgid (groups s)" using inv by (simp add: kstate_inv_def)
  have "objects_at e s k \<le> (\<Sum>j \<in> UNIV. objects_at e s j)" by (rule member_le_sum) simp_all
  then have "group_objects tg \<le> live_objects s" using inv g by (simp add: kstate_inv_def objects_at_def)
  then show ?thesis
    using g cleanup_process_inv [OF inv, of k] cleanup_process_lookup [OF wf, of _ k]
    by (auto simp: cleanup_process_eq group_objects_def)
qed

theorem cleanup_process_removes_witness:
  "\<exists>s'. cleanup_process demo_env demo_state 100 = (s', SUCCESS) \<and> get_group demo_env 100 s' = None"
  using cleanup_process_removes [OF demo_inv demo_get_group] by blast

text \<open>
  C37: Nothing is leaked. From any state reached by operations of the processes, unloading
  the module (\<open>cleanup_all\<close>) leaves an empty table and no live object: every object that
  \<open>kmalloc\<close> returned since the module was loaded has been freed.
\<close>

theorem cleanup_all_frees_everything:
  assumes "reachable e n s" and "n < 2 ^ 32"
  shows "groups (fst (cleanup_all e s)) = hash_init \<and> live_objects (fst (cleanup_all e s)) = 0"
proof -
  have inv: "kstate_inv e s" using reachable_inv [OF assms] by simp
  show ?thesis using no_groups_empty [OF cleanup_all_spec [OF inv]] by simp
qed

theorem cleanup_all_frees_everything_witness:
  "live_objects (fst (cleanup_all demo_env demo_state)) = 0"
  using cleanup_all_frees_everything [OF demo_reachable] by simp

text \<open>
  The cleanup loops use freed memory. Cleaning up a process whose group has a thread
  reads the link of an object after freeing it, once per thread and once per fiber.
\<close>

lemma cleanup_reads_freed_objects:
  assumes inv: "kstate_inv e s" and g: "get_group e k s = Some tg" and t: "get_thread e p tg = Some t"
  shows "freed_reads (fst (cleanup_process e s k)) =
      freed_reads s + length (thread_list tg) + length (fiber_list tg) \<and>
    freed_reads s < freed_reads (fst (cleanup_process e s k))"
proof -
  have wf: "hash_wf (hash_min e) t_pid (tg_threads tg)"
    using kstate_invD [OF inv g] by (simp add: group_inv_def tables_wf_def)
  have "t \<in> set (thread_list tg)"
    using thr.entries_lookup [OF wf, of t] t thr.lookup_key [OF t] by simp
  then have "0 < length (thread_list tg)" by (cases "thread_list tg") auto
  then show ?thesis using g by (simp add: cleanup_process_eq)
qed

theorem cleanup_reads_freed_objects_witness:
  "freed_reads demo_state < freed_reads (fst (cleanup_process demo_env demo_state 100))"
  using cleanup_reads_freed_objects [OF demo_inv demo_get_group demo_threads(1)] by blast

section \<open>Allocation failures\<close>

lemma convert_no_oops:
  assumes "\<And>n. kmalloc_ok e n"
  shows "do_convert_thread_to_fiber e s tsk \<noteq> Oops"
proof -
  obtain tg s1 where "find_or_generate e s (tsk_tgid tsk) = (Inr tg, s1)"
    using find_or_generate_total [OF assms] by blast
  then show ?thesis using assms by (simp add: do_convert_eq kmalloc_def Let_def split: option.split)
qed

text \<open>
  The module never faults while allocations succeed: every operation of any task in any
  state returns. In particular the failure branch of the conversion and the dereference
  after a switch never meet an invalid pointer.
\<close>

lemma no_fault_without_allocation_failure:
  assumes "\<And>n. kmalloc_ok e n"
  shows "\<exists>s' tsk' r. syscall e s tsk c = Done s' tsk' r"
proof -
  have "syscall e s tsk c \<noteq> Oops"
  proof (cases c)
    case Convert
    then show ?thesis using convert_no_oops [OF assms] by (cases "do_convert_thread_to_fiber e s tsk") auto
  next
    case (Create sb ss ep arg)
    have "do_create_fiber e s tsk sb ss ep arg \<noteq> Oops"
      using assms by (simp add: do_create_eq kmalloc_def Let_def split: option.split)
    then show ?thesis using Create by (cases "do_create_fiber e s tsk sb ss ep arg") auto
  next
    case (Switch nxt)
    have "do_switch_to_fiber e s tsk nxt \<noteq> Oops" by (simp add: do_switch_eq Let_def split: option.split)
    then show ?thesis using Switch by (cases "do_switch_to_fiber e s tsk nxt") auto
  qed (simp_all add: do_fls_alloc_def do_fls_get_value_def do_fls_free_def do_fls_set_value_def
      split_def split: option.split)
  then show ?thesis by (cases "syscall e s tsk c") auto
qed

lemma no_fault_without_allocation_failure_witness:
  "\<exists>s' tsk' r. syscall demo_env demo_state (demo_task 100 40) (Switch 2) = Done s' tsk' r"
  by (rule no_fault_without_allocation_failure) (simp add: demo_env_def)

text \<open>
  A failed allocation is not reported but faults. The \<open>generate_\<close> functions return
  \<open>-ESRCH\<close> as a pointer, no caller checks for it, and the next access through it faults:
  for a thread that is registered, creating a fiber when \<open>kmalloc\<close> fails, and for a thread
  that is not, converting it when the next \<open>kmalloc\<close> fails.
\<close>

lemma allocation_failure_faults:
  assumes "\<not> kmalloc_ok e (kmalloc_calls s)"
  shows "(thread_at e s (tsk_tgid tsk) (tsk_pid tsk) \<noteq> None \<longrightarrow>
      do_create_fiber e s tsk sb ss ep arg = Oops) \<and>
    (thread_at e s (tsk_tgid tsk) (tsk_pid tsk) = None \<longrightarrow> do_convert_thread_to_fiber e s tsk = Oops)"
  using assms
  by (auto simp: thread_at_def do_create_eq do_convert_eq find_or_generate_def generate_group_def
      kmalloc_def Let_def split: option.splits)

lemma allocation_failure_faults_witness:
  "do_convert_thread_to_fiber (demo_env\<lparr>kmalloc_ok := \<lambda>_. False\<rparr>) init_kstate (demo_task 100 0) = Oops"
  using allocation_failure_faults [of "demo_env\<lparr>kmalloc_ok := \<lambda>_. False\<rparr>" init_kstate "demo_task 100 0"]
  by (simp add: thread_at_def)

end
