(* ===== verification/Fiber_Field.thy ===== *)
theory Fiber_Field
  imports Fiber_Lifetime
begin

text \<open>
  Properties of single fibers that hold in every reachable state. The locale \<open>fiber_field\<close>
  takes a predicate that a new fiber satisfies and that every operation on one fiber keeps,
  and shows once that all fibers of all reachable states satisfy it. It is interpreted for
  the name of a fiber (its id in decimal) and for the bounds of its stack.
\<close>

definition fibers_sat :: "kenv \<Rightarrow> (fiber \<Rightarrow> bool) \<Rightarrow> thread_group \<Rightarrow> bool" where
  "fibers_sat e P tg \<longleftrightarrow> (\<forall>k f. get_fiber e k tg = Some f \<longrightarrow> P f)"

definition all_fibers :: "kenv \<Rightarrow> (fiber \<Rightarrow> bool) \<Rightarrow> kstate \<Rightarrow> bool" where
  "all_fibers e P s \<longleftrightarrow> (\<forall>g tg. get_group e g s = Some tg \<longrightarrow> fibers_sat e P tg)"

lemma fibers_sat_store:
  assumes "fibers_sat e P tg" and "\<And>f. f_fid f = k \<Longrightarrow> f_fid (h f) = k" and "\<And>f. P f \<Longrightarrow> P (h f)"
  shows "fibers_sat e P (mod_fiber e k h tg)"
  using assms by (auto simp: fibers_sat_def fib.lookup_store)

lemma fibers_sat_add:
  assumes "fibers_sat e P tg" and "P f"
  shows "fibers_sat e P (add_fiber e f tg)"
  using assms by (auto simp: fibers_sat_def fib.lookup_add)

lemma fibers_sat_frames [simp]:
  "fibers_sat e P (mod_thread e k h tg) = fibers_sat e P tg"
  "fibers_sat e P (add_thread e t tg) = fibers_sat e P tg"
  "fibers_sat e P (tg\<lparr>tg_fid_count := c\<rparr>) = fibers_sat e P tg"
  by (simp_all add: fibers_sat_def table_simps)

lemma all_fibers_set_group:
  assumes "all_fibers e P s" and "fibers_sat e P tg" and "groups s' = groups s"
  shows "all_fibers e P (set_group e tg s')"
  using assms get_group_cong [OF assms(3), of e] by (auto simp: all_fibers_def get_group_set split: if_splits)

lemma all_fibers_find_or_generate:
  assumes "all_fibers e P s" and "kstate_inv e s" and "find_or_generate e s k = (Inr tg, s')"
  shows "all_fibers e P s' \<and> fibers_sat e P tg"
proof -
  note fg = find_or_generate_inv [OF assms(2,3)]
  have "fibers_sat e P tg"
  proof (cases "get_group e k s")
    case None
    with assms(3) have "tg_fibers tg = hash_init"
      by (auto simp: find_or_generate_def generate_group_def Let_def split: prod.splits bool.splits)
    then show ?thesis by (simp add: fibers_sat_def get_fiber_def)
  next
    case (Some tg')
    with assms show ?thesis by (auto simp: find_or_generate_def all_fibers_def)
  qed
  with assms(1) fg(2,3) show ?thesis
    unfolding all_fibers_def by (metis option.inject)
qed

locale fiber_field =
  fixes P :: "fiber \<Rightarrow> bool"
  assumes P_new: "P (new_fiber tg t tsk)"
    and P_lock: "P f \<Longrightarrow> P (spin_trylock f)" "P f \<Longrightarrow> P (spin_unlock f)"
    and P_fail: "P f \<Longrightarrow> P (fail_activation f)"
    and P_activate: "P f \<Longrightarrow> P (activate p u f)"
    and P_stack: "P f \<Longrightarrow> P (ALLOC_STACK sb ss f)"
    and P_context: "P f \<Longrightarrow> P (ALLOC_CONTEXT ep arg f)"
    and P_leave: "P f \<Longrightarrow> P (save_context tsk f)" "P f \<Longrightarrow> P (account_time u f)"
      "P f \<Longrightarrow> P (clear_state f)"
    and P_fls: "P f \<Longrightarrow> P (f\<lparr>f_fls := x\<rparr>)"
begin

lemma sat_activate:
  assumes "fibers_sat e P tg"
  shows "fibers_sat e P (ACTIVATE_FIBER_FROM_THREAD e k p tsk tg)"
  unfolding ACTIVATE_FIBER_FROM_THREAD_def using assms P_activate by (simp add: fibers_sat_store)

lemma sat_convert: "fibers_sat e P tg \<Longrightarrow> fibers_sat e P (convert_group e tsk tg)"
  by (simp add: convert_group_def Let_def sat_activate fibers_sat_store fibers_sat_add P_new P_lock)

lemma sat_create: "fibers_sat e P tg \<Longrightarrow> fibers_sat e P (create_group e tsk t sb ss ep arg tg)"
  by (simp add: create_group_def Let_def fibers_sat_store fibers_sat_add P_new P_stack P_context)

lemma sat_switch: "fibers_sat e P tg \<Longrightarrow> fibers_sat e P (switch_group e tsk p old nxt tg)"
  by (simp add: switch_group_def sat_activate fibers_sat_store P_lock P_leave)

lemma sat_put_fls:
  assumes "all_fibers e P s" and "find_current e s tsk = Some (tg, t, f)"
  shows "all_fibers e P (put_fls e s tg t x)"
proof -
  have "fibers_sat e P tg" using assms find_current_SomeD(1) by (fastforce simp: all_fibers_def)
  then show ?thesis
    unfolding put_fls_def
    by (intro all_fibers_set_group [OF assms(1)] fibers_sat_store) (simp_all add: P_fls)
qed

lemma sat_syscall:
  assumes inv: "kstate_inv e s" and all: "all_fibers e P s" and sys: "syscall e s tsk c = Done s' tsk' r"
  shows "all_fibers e P s'"
proof (cases c)
  case Convert
  then obtain r' where "do_convert_thread_to_fiber e s tsk = Done s' tsk' r'"
    using sys by (auto simp: map_outcome_Done)
  then show ?thesis
  proof (cases rule: do_convert_cases)
    case (exists tg t)
    then show ?thesis using all_fibers_find_or_generate [OF all inv] by blast
  next
    case (new tg s1 s2 s3)
    note fg = all_fibers_find_or_generate [OF all inv new(1)]
    then show ?thesis
      unfolding new(5) using kmalloc_groups [OF new(3)] kmalloc_groups [OF new(4)]
      by (intro all_fibers_set_group [of e P s1]) (simp_all add: sat_convert)
  qed
next
  case (Create sb ss ep arg)
  then obtain r' where "do_create_fiber e s tsk sb ss ep arg = Done s' tsk' r'"
    using sys by (auto simp: map_outcome_Done)
  then show ?thesis
  proof (cases rule: do_create_cases)
    case (created tg t s1)
    then show ?thesis
      unfolding created(4) using kmalloc_groups [OF created(3)] all
      by (intro all_fibers_set_group [OF all]) (auto simp: all_fibers_def intro: sat_create)
  qed (use all in simp)
next
  case (Switch nxt)
  then obtain r' where "do_switch_to_fiber e s tsk nxt = Done s' tsk' r'"
    using sys by (auto simp: map_outcome_Done)
  then show ?thesis
  proof (cases rule: do_switch_cases)
    case (busy tg t f)
    then have "fibers_sat e P tg" using all by (simp add: all_fibers_def)
    then show ?thesis unfolding busy(7)
      by (intro all_fibers_set_group [OF all]) (simp_all add: fibers_sat_store P_lock P_fail)
  next
    case (orphan tg t f)
    then have "fibers_sat e P tg" using all by (simp add: all_fibers_def)
    then show ?thesis unfolding orphan(9)
      by (intro all_fibers_set_group [OF all]) (simp_all add: fibers_sat_store P_lock)
  next
    case (switched tg t f old_f f')
    then have "fibers_sat e P tg" using all by (simp add: all_fibers_def)
    then show ?thesis unfolding switched(8)
      by (intro all_fibers_set_group [OF all]) (simp_all add: sat_switch)
  qed (use all in simp)
next
  case Release
  have "hash_wf (hash_min e) tg_tgid (groups s)" using inv by (simp add: kstate_inv_def)
  note lookup = cleanup_process_lookup [OF this]
  have "s' = fst (cleanup_process e s (tsk_tgid tsk))" using sys Release by (auto split: prod.splits)
  then show ?thesis using all by (auto simp: all_fibers_def lookup split: if_splits)
qed (use sys all sat_put_fls [OF all] in
    \<open>auto simp: do_fls_alloc_def do_fls_get_value_def do_fls_free_def do_fls_set_value_def
      split: option.splits prod.splits if_splits\<close>)

lemma sat_reachable:
  assumes "reachable e n s" and "n < 2 ^ 32"
  shows "all_fibers e P s"
  using assms
proof (induction rule: reachable.induct)
  case (start e)
  show ?case by (simp add: all_fibers_def)
next
  case (step e n s tsk c s' tsk' r)
  then show ?case using sat_syscall [OF _ _ step.hyps(3)] reachable_inv [OF step.hyps(1)] by simp
qed

end

definition name_ok :: "fiber \<Rightarrow> bool" where
  "name_ok f \<longleftrightarrow> info_name (f_info f) = snprintf NAME_LENGHT (fmt_d (f_fid f))"

definition stack_ok :: "fiber \<Rightarrow> bool" where
  "stack_ok f \<longleftrightarrow> f_stack_limit f = f_stack_base f + f_guaranteed_stack_bytes f"

interpretation name: fiber_field name_ok
  by unfold_locales (simp_all add: name_ok_def object_defs new_fiber_def PREPARE_INFO_def Let_def)

interpretation stack: fiber_field stack_ok
  by unfold_locales (simp_all add: stack_ok_def object_defs new_fiber_def Let_def)

end
