(* ===== verification/Usermem.thy ===== *)
theory Usermem
  imports Fibers_Prelude
begin

text \<open>
  User memory as the module sees it: a byte per mapped address, the range check
  \<open>access_ok\<close> against the end of the user address space (a parameter), and the copies
  \<open>copy_from_user\<close> and \<open>copy_to_user\<close>, which stop at the first unmapped byte. The
  argument structures of \<open>fibers/include/fiber.h\<close> are records with their memory layout
  (little endian, natural alignment, no padding): \<open>fib_args_t\<close> in 32 bytes, \<open>fls_args_t\<close>
  in 16. The locale \<open>c_object\<close> states what a layout promises; it is interpreted for the
  four types the module copies, and every client reads what was stored through it.
\<close>

section \<open>Bytes in memory\<close>

type_synonym umem = "addr \<Rightarrow> byte option"

fun load_bytes :: "umem \<Rightarrow> addr \<Rightarrow> nat \<Rightarrow> byte list option" where
  "load_bytes m a 0 = Some []"
| "load_bytes m a (Suc n) =
     (case m a of None \<Rightarrow> None | Some b \<Rightarrow> map_option (Cons b) (load_bytes m (a + 1) n))"

text \<open>The second component is the number of bytes that were not written.\<close>

fun store_bytes :: "umem \<Rightarrow> addr \<Rightarrow> byte list \<Rightarrow> umem \<times> nat" where
  "store_bytes m a [] = (m, 0)"
| "store_bytes m a (b # bs) =
     (case m a of None \<Rightarrow> (m, Suc (length bs)) | Some _ \<Rightarrow> store_bytes (m(a \<mapsto> b)) (a + 1) bs)"

definition access_ok :: "addr \<Rightarrow> addr \<Rightarrow> nat \<Rightarrow> bool" where
  "access_ok lim a n \<longleftrightarrow> unat a + n \<le> unat lim"

definition copy_from_user :: "addr \<Rightarrow> umem \<Rightarrow> addr \<Rightarrow> nat \<Rightarrow> byte list option" where
  "copy_from_user lim m a n = (if access_ok lim a n then load_bytes m a n else None)"

definition copy_to_user :: "addr \<Rightarrow> umem \<Rightarrow> addr \<Rightarrow> byte list \<Rightarrow> umem \<times> nat" where
  "copy_to_user lim m a bs =
     (if access_ok lim a (length bs) then store_bytes m a bs else (m, length bs))"

fun mapped :: "umem \<Rightarrow> addr \<Rightarrow> nat \<Rightarrow> bool" where
  "mapped m a 0 \<longleftrightarrow> True"
| "mapped m a (Suc n) \<longleftrightarrow> m a \<noteq> None \<and> mapped m (a + 1) n"

text \<open>The bytes \<open>a\<close> to \<open>a + n\<close> of a user range that does not wrap around.\<close>

definition in_range :: "addr \<Rightarrow> nat \<Rightarrow> addr \<Rightarrow> bool" where
  "in_range a n x \<longleftrightarrow> unat a \<le> unat x \<and> unat x < unat a + n"

lemma unat_lt_64: "unat (a :: addr) < 2 ^ 64"
  using unsigned_less [of a, where ?'a = nat] by simp

lemma access_ok_bound: "access_ok lim a n \<Longrightarrow> unat a + n < 2 ^ 64"
  using unat_lt_64 [of lim] by (simp add: access_ok_def)

lemma unat_plus_1:
  assumes "unat (a :: addr) + Suc n < 2 ^ 64"
  shows "unat (a + 1) = Suc (unat a)"
proof -
  have "unat (a + 1) = (unat a + 1) mod 2 ^ 64" by (simp add: unat_word_ariths)
  then show ?thesis using assms by simp
qed

lemma mapped_iff:
  "unat a + n < 2 ^ 64 \<Longrightarrow> mapped m a n \<longleftrightarrow> (\<forall>x. in_range a n x \<longrightarrow> m x \<noteq> None)"
proof (induction n arbitrary: a)
  case 0
  then show ?case by (auto simp: in_range_def)
next
  case (Suc n)
  note u = unat_plus_1 [OF Suc.prems]
  have "in_range a (Suc n) x \<longleftrightarrow> x = a \<or> in_range (a + 1) n x" for x
    using u word_unat_eq_iff [of x a] by (auto simp: in_range_def)
  with Suc.IH [of "a + 1"] Suc.prems u show ?case by auto
qed

lemma mapped_upd:
  assumes "unat a + Suc n < 2 ^ 64"
  shows "mapped (m(a \<mapsto> b)) (a + 1) n = mapped m (a + 1) n"
proof -
  note u = unat_plus_1 [OF assms]
  then have "x \<noteq> a" if "in_range (a + 1) n x" for x using that by (auto simp: in_range_def)
  then have "(\<forall>x. in_range (a + 1) n x \<longrightarrow> (m(a \<mapsto> b)) x \<noteq> None) \<longleftrightarrow>
             (\<forall>x. in_range (a + 1) n x \<longrightarrow> m x \<noteq> None)"
    by (intro arg_cong [where f = All] ext) (auto simp: fun_upd_apply)
  then show ?thesis using assms u by (simp add: mapped_iff)
qed

lemma load_bytes_mapped: "mapped m a n \<longleftrightarrow> load_bytes m a n \<noteq> None"
  by (induction m a n rule: load_bytes.induct) (auto split: option.splits)

lemma load_bytes_length: "load_bytes m a n = Some bs \<Longrightarrow> length bs = n"
  by (induction m a n arbitrary: bs rule: load_bytes.induct) (auto split: option.splits)

lemma load_bytes_cong:
  "unat a + n < 2 ^ 64 \<Longrightarrow> (\<And>x. in_range a n x \<Longrightarrow> m x = m' x) \<Longrightarrow>
   load_bytes m a n = load_bytes m' a n"
proof (induction n arbitrary: a)
  case (Suc n)
  note u = unat_plus_1 [OF Suc.prems(1)]
  have "load_bytes m (a + 1) n = load_bytes m' (a + 1) n"
    using Suc.prems u by (intro Suc.IH) (auto simp: in_range_def)
  moreover have "m a = m' a" using Suc.prems(2) by (simp add: in_range_def)
  ultimately show ?case by (simp split: option.split)
qed simp

lemma store_bytes_outside:
  "unat a + length bs < 2 ^ 64 \<Longrightarrow> \<not> in_range a (length bs) x \<Longrightarrow>
   fst (store_bytes m a bs) x = m x"
proof (induction bs arbitrary: m a)
  case (Cons b bs)
  then have u: "unat (a + 1) = Suc (unat a)" using unat_plus_1 [of a "length bs"] by simp
  have "x \<noteq> a" using Cons.prems(2) by (auto simp: in_range_def)
  then show ?case using Cons u by (auto simp: in_range_def split: option.splits)
qed simp

lemma store_bytes_mapped_any:
  "(fst (store_bytes m a bs) x = None) = (m x = None)"
proof (induction bs arbitrary: m a)
  case (Cons b bs)
  then show ?case by (auto split: option.split)
qed simp

lemma store_bytes_all:
  "mapped m a (length bs) \<Longrightarrow> unat a + length bs < 2 ^ 64 \<Longrightarrow> snd (store_bytes m a bs) = 0"
proof (induction bs arbitrary: m a)
  case (Cons b bs)
  then have u: "unat (a + 1) = Suc (unat a)" using unat_plus_1 [of a "length bs"] by simp
  obtain v where v: "m a = Some v" and rest: "mapped m (a + 1) (length bs)" using Cons.prems(1) by auto
  have "mapped (m(a \<mapsto> b)) (a + 1) (length bs)"
    using rest Cons.prems(2) by (simp add: mapped_upd)
  then show ?case using Cons.IH [of "m(a \<mapsto> b)" "a + 1"] Cons.prems v u by (simp del: fun_upd_apply)
qed simp

lemma load_store_same:
  "mapped m a (length bs) \<Longrightarrow> unat a + length bs < 2 ^ 64 \<Longrightarrow>
   load_bytes (fst (store_bytes m a bs)) a (length bs) = Some bs"
proof (induction bs arbitrary: m a)
  case (Cons b bs)
  then have u: "unat (a + 1) = Suc (unat a)" using unat_plus_1 [of a "length bs"] by simp
  obtain v where v: "m a = Some v" and rest: "mapped m (a + 1) (length bs)" using Cons.prems(1) by auto
  have "mapped (m(a \<mapsto> b)) (a + 1) (length bs)"
    using rest Cons.prems(2) by (simp add: mapped_upd)
  moreover have "fst (store_bytes (m(a \<mapsto> b)) (a + 1) bs) a = Some b"
    using store_bytes_outside [of "a + 1" bs a "m(a \<mapsto> b)"] Cons.prems(2) u by (simp add: in_range_def)
  ultimately show ?case using Cons.IH [of "m(a \<mapsto> b)" "a + 1"] Cons.prems v u by (simp del: fun_upd_apply)
qed simp

section \<open>The copies\<close>

lemma copy_from_user_SomeD: "copy_from_user lim m a n = Some bs \<Longrightarrow> length bs = n"
  by (auto simp: copy_from_user_def load_bytes_length split: if_splits)

text \<open>A copy fails exactly when the range check fails or a byte is not mapped.\<close>

definition user_ok :: "addr \<Rightarrow> umem \<Rightarrow> addr \<Rightarrow> nat \<Rightarrow> bool" where
  "user_ok lim m a n \<longleftrightarrow> access_ok lim a n \<and> mapped m a n"

lemma user_ok_prefix: "user_ok lim m a n \<Longrightarrow> k \<le> n \<Longrightarrow> user_ok lim m a k"
proof -
  assume ok: "user_ok lim m a n" and k: "k \<le> n"
  then have "unat a + n < 2 ^ 64" using access_ok_bound by (auto simp: user_ok_def)
  with ok k show ?thesis by (auto simp: user_ok_def mapped_iff access_ok_def in_range_def)
qed

lemma copy_from_user_None: "copy_from_user lim m a n = None \<longleftrightarrow> \<not> user_ok lim m a n"
  using load_bytes_mapped by (auto simp: copy_from_user_def user_ok_def)

lemma store_bytes_short:
  "\<not> mapped m a (length bs) \<Longrightarrow> unat a + length bs < 2 ^ 64 \<Longrightarrow> 0 < snd (store_bytes m a bs)"
proof (induction bs arbitrary: m a)
  case (Cons b bs)
  then have u: "unat (a + 1) = Suc (unat a)" using unat_plus_1 [of a "length bs"] by simp
  show ?case
  proof (cases "m a")
    case (Some v)
    then have "\<not> mapped m (a + 1) (length bs)" using Cons.prems(1) by simp
    then have "\<not> mapped (m(a \<mapsto> b)) (a + 1) (length bs)"
      using Cons.prems(2) by (simp add: mapped_upd)
    then show ?thesis using Cons.IH [of "m(a \<mapsto> b)" "a + 1"] Cons.prems Some u by (simp del: fun_upd_apply)
  qed simp
qed simp

lemma copy_to_user_zero:
  assumes "bs \<noteq> []"
  shows "snd (copy_to_user lim m a bs) = 0 \<longleftrightarrow> user_ok lim m a (length bs)"
proof (cases "access_ok lim a (length bs)")
  case True
  then show ?thesis
    using store_bytes_all [of m a bs] store_bytes_short [of m a bs] access_ok_bound [OF True]
    by (cases "mapped m a (length bs)") (simp_all add: copy_to_user_def user_ok_def)
qed (use assms in \<open>simp add: copy_to_user_def user_ok_def\<close>)

lemma copy_to_user_ok:
  assumes "user_ok lim m a (length bs)"
  shows "snd (copy_to_user lim m a bs) = 0"
  using assms store_bytes_all [of m a bs] access_ok_bound [of lim a "length bs"]
  by (simp add: copy_to_user_def user_ok_def)

lemma copy_to_user_outside:
  assumes "\<not> in_range a (length bs) x"
  shows "fst (copy_to_user lim m a bs) x = m x"
  using assms store_bytes_outside [of a bs x m] access_ok_bound [of lim a "length bs"]
  by (simp add: copy_to_user_def)

lemma copy_to_user_domain: "(fst (copy_to_user lim m a bs) x = None) = (m x = None)"
  by (simp add: copy_to_user_def store_bytes_mapped_any)

lemma mapped_copy_to_user:
  "unat b + n < 2 ^ 64 \<Longrightarrow> mapped (fst (copy_to_user lim m a bs)) b n = mapped m b n"
  by (simp add: mapped_iff copy_to_user_domain)

lemma user_ok_copy_to_user [simp]:
  "user_ok lim' (fst (copy_to_user lim m a bs)) b n = user_ok lim' m b n"
  using mapped_copy_to_user [of b n lim m a bs] access_ok_bound [of lim' b n]
  by (auto simp: user_ok_def)

definition disjoint_ranges :: "addr \<Rightarrow> nat \<Rightarrow> addr \<Rightarrow> nat \<Rightarrow> bool" where
  "disjoint_ranges a n b k \<longleftrightarrow> unat a + n \<le> unat b \<or> unat b + k \<le> unat a"

lemma copy_from_user_cong:
  assumes "\<And>x. in_range a n x \<Longrightarrow> m x = m' x"
  shows "copy_from_user lim m a n = copy_from_user lim m' a n"
  using load_bytes_cong [of a n m m'] assms access_ok_bound [of lim a n]
  by (simp add: copy_from_user_def)

lemma copy_from_user_disjoint:
  assumes "disjoint_ranges a n b (length bs)"
  shows "copy_from_user lim (fst (copy_to_user lim' m b bs)) a n = copy_from_user lim m a n"
  using assms
  by (intro copy_from_user_cong copy_to_user_outside) (auto simp: in_range_def disjoint_ranges_def)

lemma copy_from_user_same:
  assumes "user_ok lim m a (length bs)"
  shows "copy_from_user lim (fst (copy_to_user lim m a bs)) a (length bs) = Some bs"
  using assms load_store_same [of m a bs] access_ok_bound [of lim a "length bs"]
  by (simp add: copy_from_user_def copy_to_user_def user_ok_def)

lemma load_bytes_prefix: "load_bytes m a (k + n) = Some bs \<Longrightarrow> load_bytes m a k = Some (take k bs)"
proof (induction k arbitrary: a bs)
  case (Suc k)
  then show ?case by (auto split: option.splits)
qed simp

lemma copy_from_user_prefix:
  assumes "copy_from_user lim m a n = Some bs" and "k \<le> n"
  shows "copy_from_user lim m a k = Some (take k bs)"
  using assms load_bytes_prefix [of m a k "n - k" bs]
  by (auto simp: copy_from_user_def access_ok_def split: if_splits)

text \<open>A block filled with zeros.\<close>

lemma store_zeros:
  assumes "mapped m a n" and "unat a + n < 2 ^ 64" and "in_range a n x"
  shows "fst (store_bytes m a (replicate n 0)) x = Some 0"
  using assms
proof (induction n arbitrary: m a)
  case 0
  then show ?case by (auto simp: in_range_def)
next
  case (Suc n)
  have u: "unat (a + 1) = Suc (unat a)" using unat_plus_1 [of a n] Suc.prems(2) by simp
  obtain v where v: "m a = Some v" and rest: "mapped m (a + 1) n" using Suc.prems(1) by auto
  let ?m = "m(a \<mapsto> 0)"
  have "fst (store_bytes ?m (a + 1) (replicate n 0)) x = Some 0"
  proof (cases "x = a")
    case True
    then show ?thesis using store_bytes_outside [of "a + 1" "replicate n 0" x ?m] Suc.prems(2) u
      by (simp add: in_range_def)
  next
    case False
    then have "unat x \<noteq> unat a" by (simp add: word_unat_eq_iff)
    then have "in_range (a + 1) n x" using Suc.prems(3) u by (auto simp: in_range_def)
    then show ?thesis
      using Suc.IH [of ?m "a + 1"] rest Suc.prems(2) u mapped_upd [of a n m 0]
      by (simp del: fun_upd_apply)
  qed
  then show ?case using v by simp
qed

lemma load_zeros:
  "unat a + n < 2 ^ 64 \<Longrightarrow> (\<And>x. in_range a n x \<Longrightarrow> m x = Some 0) \<Longrightarrow>
   load_bytes m a n = Some (replicate n 0)"
proof (induction n arbitrary: a)
  case (Suc n)
  have u: "unat (a + 1) = Suc (unat a)" using unat_plus_1 [of a n] Suc.prems(1) by simp
  have "m a = Some 0" using Suc.prems(2) by (simp add: in_range_def)
  moreover have "load_bytes m (a + 1) n = Some (replicate n 0)"
    using Suc.prems u by (intro Suc.IH) (auto simp: in_range_def)
  ultimately show ?case by simp
qed simp

section \<open>Little endian words\<close>

definition le_bytes :: "nat \<Rightarrow> 'a::len word \<Rightarrow> byte list" where
  "le_bytes n w = map (\<lambda>i. ucast (drop_bit (8 * i) w)) [0..<n]"

fun le_word :: "byte list \<Rightarrow> 'a::len word" where
  "le_word [] = 0"
| "le_word (b # bs) = ucast b OR push_bit 8 (le_word bs)"

lemma length_le_bytes [simp]: "length (le_bytes n w) = n"
  by (simp add: le_bytes_def)

lemma bit_ucast_byte: "bit (ucast (w :: 'a::len word) :: byte) (k mod 8) = bit w (k mod 8)"
proof -
  have "k mod 8 < LENGTH(8)" unfolding len_num0 by simp
  then show ?thesis by (simp only: bit_ucast_iff) auto
qed

lemma bit_le_word:
  "bit (le_word bs :: 'a::len word) k \<longleftrightarrow>
     k < LENGTH('a) \<and> k div 8 < length bs \<and> bit (bs ! (k div 8)) (k mod 8)"
proof (induction bs arbitrary: k)
  case (Cons b bs)
  show ?case
  proof (cases "k < 8")
    case True
    then show ?thesis by (auto simp: bit_or_iff bit_push_bit_iff bit_ucast_iff)
  next
    case False
    have high: "\<not> bit b k" using False bit_imp_le_length [of b k] by auto
    have "k div 8 = Suc ((k - 8) div 8)" and "(k - 8) mod 8 = k mod 8"
      using False by (simp_all add: le_div_geq le_mod_geq)
    then show ?thesis
      using False high Cons.IH [of "k - 8"]
      by (auto simp: bit_or_iff bit_push_bit_iff bit_ucast_iff)
  qed
qed simp

lemma le_word_bytes:
  assumes "LENGTH('a) \<le> 8 * n"
  shows "le_word (le_bytes n w) = (w :: 'a::len word)"
proof (rule bit_word_eqI)
  fix k assume k: "k < LENGTH('a)"
  then have d: "k div 8 < n" using assms by simp
  have "8 * (k div 8) + k mod 8 = k" by simp
  then show "bit (le_word (le_bytes n w) :: 'a word) k = bit w k"
    using k d by (simp add: bit_le_word le_bytes_def bit_ucast_byte bit_drop_bit_eq add.commute)
qed

text \<open>Reading the low half of a stored 64-bit word gives the truncated value.\<close>

lemma le_word_take:
  assumes "LENGTH('b) = 8 * k" and "k \<le> n"
  shows "le_word (take k (le_bytes n (w :: 'a::len word))) = (ucast w :: 'b::len word)"
proof (rule bit_word_eqI)
  fix i assume i: "i < LENGTH('b)"
  then have d: "i div 8 < k" using assms by simp
  have "bit (ucast w :: 'b word) i = bit w i" using i by (simp add: bit_ucast_iff)
  moreover have "8 * (i div 8) + i mod 8 = i" by simp
  ultimately show "bit (le_word (take k (le_bytes n w)) :: 'b word) i = bit (ucast w :: 'b word) i"
    using i d assms(2)
    by (simp add: bit_le_word le_bytes_def bit_ucast_byte bit_drop_bit_eq add.commute)
qed

section \<open>Layout of the argument structures\<close>

record fib_args_t =
  fa_stack_base :: addr
  fa_stack_size :: c_ulong
  fa_entry_point :: c_ulong
  fa_params :: addr

record fls_args_t =
  la_idx :: c_long
  la_value :: c_long

definition enc_fib_args :: "fib_args_t \<Rightarrow> byte list" where
  "enc_fib_args x = le_bytes 8 (fa_stack_base x) @ le_bytes 8 (fa_stack_size x) @
     le_bytes 8 (fa_entry_point x) @ le_bytes 8 (fa_params x)"

definition dec_fib_args :: "byte list \<Rightarrow> fib_args_t" where
  "dec_fib_args bs =
     \<lparr>fa_stack_base = le_word (take 8 bs), fa_stack_size = le_word (take 8 (drop 8 bs)),
      fa_entry_point = le_word (take 8 (drop 16 bs)), fa_params = le_word (take 8 (drop 24 bs))\<rparr>"

definition enc_fls_args :: "fls_args_t \<Rightarrow> byte list" where
  "enc_fls_args x = le_bytes 8 (la_idx x) @ le_bytes 8 (la_value x)"

definition dec_fls_args :: "byte list \<Rightarrow> fls_args_t" where
  "dec_fls_args bs = \<lparr>la_idx = le_word (take 8 bs), la_value = le_word (take 8 (drop 8 bs))\<rparr>"

locale c_object =
  fixes enc :: "'a \<Rightarrow> byte list" and dec :: "byte list \<Rightarrow> 'a" and bytes :: nat
  assumes length_enc: "length (enc x) = bytes"
    and dec_enc: "dec (enc x) = x"
begin

lemma load_stored:
  assumes "user_ok lim m a bytes"
  shows "map_option dec (copy_from_user lim (fst (copy_to_user lim m a (enc x))) a bytes) = Some x"
  using copy_from_user_same [of lim m a "enc x"] assms by (simp add: length_enc dec_enc)

lemma load_kept:
  assumes "copy_from_user lim m a bytes = Some (enc x)" and "disjoint_ranges a bytes b (length bs)"
  shows "map_option dec (copy_from_user lim (fst (copy_to_user lim' m b bs)) a bytes) = Some x"
  using assms by (simp add: copy_from_user_disjoint dec_enc)

lemma enc_inj: "enc x = enc y \<Longrightarrow> x = y"
  by (metis dec_enc)

end

interpretation fib_args: c_object enc_fib_args dec_fib_args 32
  by unfold_locales (simp_all add: enc_fib_args_def dec_fib_args_def le_word_bytes)

interpretation fls_args: c_object enc_fls_args dec_fls_args 16
  by unfold_locales (simp_all add: enc_fls_args_def dec_fls_args_def le_word_bytes)

interpretation pid_object: c_object "le_bytes 4" "le_word :: byte list \<Rightarrow> pid_t" 4
  by unfold_locales (simp_all add: le_word_bytes)

interpretation long_object: c_object "le_bytes 8" "le_word :: byte list \<Rightarrow> c_long" 8
  by unfold_locales (simp_all add: le_word_bytes)

end
