(* ===== verification/Proc.thy ===== *)
theory Proc
  imports Fiber_Field Usermem
begin

text \<open>
  The directory \<open>fibers\<close> of a process in the proc file system, \<open>fibers/proc.c\<close>: looking up a
  fiber by name, listing the fibers, and reading the report of a fiber.

  The kernel's own \<open>proc_pident_lookup\<close> and \<open>proc_pident_readdir\<close> are parameters: functions
  of the table of entries they are given. So is the text \<open>%p\<close> prints for a pointer. The task
  of the directory (\<open>get_proc_task\<close>) is an argument: the thread group id, or \<open>None\<close> when the
  task is gone. The state counts the references to tasks that were taken and not given
  back, and the entries written past the end of a table. The result \<open>None\<close> is a fault.
\<close>

section \<open>Entries of a directory\<close>

datatype iops = No_iops | Fibers_iops
datatype fops = No_fops | Fibers_fops | Fibers_proc_fops

record pid_entry =
  pe_name :: "string option"
  pe_len :: c_int
  pe_mode :: "16 word"
  pe_iop :: iops
  pe_fop :: fops

abbreviation (input) S_IFREG :: "16 word" where "S_IFREG \<equiv> 0x8000"
abbreviation (input) S_IFDIR :: "16 word" where "S_IFDIR \<equiv> 0x4000"
abbreviation (input) S_IRUGO :: "16 word" where "S_IRUGO \<equiv> 0x124"
abbreviation (input) S_IXUGO :: "16 word" where "S_IXUGO \<equiv> 0x49"

text \<open>The macros that fill an entry; the length does not count the terminating zero.\<close>

definition NOD :: "string \<Rightarrow> 16 word \<Rightarrow> iops \<Rightarrow> fops \<Rightarrow> pid_entry" where
  "NOD name mode iop fop =
     \<lparr>pe_name = Some name, pe_len = of_nat (length name), pe_mode = mode, pe_iop = iop, pe_fop = fop\<rparr>"

definition DIR :: "string \<Rightarrow> 16 word \<Rightarrow> iops \<Rightarrow> fops \<Rightarrow> pid_entry" where
  "DIR name mode iops fops = NOD name (S_IFDIR OR mode) iops fops"

definition REG :: "string \<Rightarrow> 16 word \<Rightarrow> fops \<Rightarrow> pid_entry" where
  "REG name mode fops = NOD name (S_IFREG OR mode) No_iops fops"

definition null_entry :: pid_entry where
  "null_entry = \<lparr>pe_name = None, pe_len = 0, pe_mode = 0, pe_iop = No_iops, pe_fop = No_fops\<rparr>"

definition fiber_entry :: "fiber \<Rightarrow> pid_entry" where
  "fiber_entry f =
     \<lparr>pe_name = Some (info_name (f_info f)), pe_len = of_nat (length (info_name (f_info f))),
      pe_mode = S_IFREG OR S_IRUGO, pe_iop = No_iops, pe_fop = Fibers_proc_fops\<rparr>"

text \<open>The entry of a fiber, filled field by field, is the one the macro for regular files gives.\<close>

lemma fiber_entry_REG: "fiber_entry f = REG (info_name (f_info f)) S_IRUGO Fibers_proc_fops"
  by (simp add: fiber_entry_def REG_def NOD_def)

record procstate =
  ps_k :: kstate
  ps_task_refs :: nat
  ps_overruns :: nat

datatype 'd proc_result = Kernel 'd | Direct c_long

section \<open>The table of the fibers\<close>

fun fill_entries :: "fiber list \<Rightarrow> nat \<Rightarrow> pid_entry list \<Rightarrow> nat \<Rightarrow> pid_entry list \<times> nat" where
  "fill_entries [] i tab over = (tab, over)"
| "fill_entries (f # fs) i tab over =
     (if i < length tab then fill_entries fs (Suc i) (tab[i := fiber_entry f]) over
      else fill_entries fs (Suc i) tab (Suc over))"

text \<open>
  The table has as many entries as the counter of the group says. For a counter of 0,
  \<open>kmalloc\<close> returns a pointer that must not be used, and the first store through it faults;
  a negative counter asks for more than any allocation can give, and the \<open>memset\<close> of the
  null pointer faults, as it does when the allocation fails.
\<close>

definition fibers_table :: "kenv \<Rightarrow> kstate \<Rightarrow> thread_group \<Rightarrow> (kstate \<times> pid_entry list \<times> nat) option" where
  "fibers_table e s tg =
     (let nents = (scast (tg_fid_count tg) :: c_ulong)
      in if nents = 0 then (if fiber_list tg = [] then Some (s, [], 0) else None)
         else if sint nents < 0 then None
         else (case kmalloc e s of
                 (False, _) \<Rightarrow> None
               | (True, s1) \<Rightarrow>
                   Some (s1, fill_entries (fiber_list tg) 0 (replicate (unat nents) null_entry) 0)))"

definition kfree_table :: "pid_entry list \<Rightarrow> kstate \<Rightarrow> kstate" where
  "kfree_table tab s = (if tab = [] then s else s\<lparr>live_objects := live_objects s - 1\<rparr>)"

definition fibers_lookup ::
    "kenv \<Rightarrow> (pid_entry list \<Rightarrow> 'd) \<Rightarrow> procstate \<Rightarrow> pid_t option \<Rightarrow> (procstate \<times> 'd proc_result) option" where
  "fibers_lookup e proc_pident_lookup ps task =
     (case task of
        None \<Rightarrow> Some (ps, Direct (- ESRCH))
      | Some tgid \<Rightarrow>
        (let ps1 = ps\<lparr>ps_task_refs := ps_task_refs ps + 2\<rparr>
         in (case get_group e tgid (ps_k ps1) of
               None \<Rightarrow> Some (ps1, Direct 0)
             | Some tg \<Rightarrow>
               (case fibers_table e (ps_k ps1) tg of
                  None \<Rightarrow> None
                | Some (s1, pid_fibers, over) \<Rightarrow>
                    Some (ps1\<lparr>ps_k := kfree_table pid_fibers s1, ps_overruns := ps_overruns ps1 + over\<rparr>,
                          Kernel (proc_pident_lookup pid_fibers))))))"

definition fibers_readdir ::
    "kenv \<Rightarrow> (pid_entry list \<Rightarrow> 'd) \<Rightarrow> procstate \<Rightarrow> pid_t option \<Rightarrow> (procstate \<times> 'd proc_result) option" where
  "fibers_readdir e proc_pident_readdir ps task =
     (case task of
        None \<Rightarrow> Some (ps, Direct (- ESRCH))
      | Some tgid \<Rightarrow>
        (let ps1 = ps\<lparr>ps_task_refs := ps_task_refs ps + 1\<rparr>
         in (case get_group e tgid (ps_k ps1) of
               None \<Rightarrow> Some (ps1, Direct 0)
             | Some tg \<Rightarrow>
               (case fibers_table e (ps_k ps1) tg of
                  None \<Rightarrow> None
                | Some (s1, pid_fibers, over) \<Rightarrow>
                    Some (ps1\<lparr>ps_k := kfree_table pid_fibers s1, ps_overruns := ps_overruns ps1 + over\<rparr>,
                          Kernel (proc_pident_readdir pid_fibers))))))"

section \<open>The report of a fiber\<close>

abbreviation (input) INFO_SIZE :: nat where "INFO_SIZE \<equiv> 1024"

definition line :: "string \<Rightarrow> string \<Rightarrow> string" where
  "line label text = label @ text @ [CHR ''\<newline>'']"

text \<open>\<open>%d\<close> and \<open>%x\<close> take an \<open>int\<close>: of an \<open>unsigned long\<close> they print the low 32 bits.\<close>

definition fiber_report :: "(addr \<Rightarrow> string) \<Rightarrow> fiber \<Rightarrow> string" where
  "fiber_report fmt_p f =
     (let i = f_info f
      in line ''Name (Fiber ID): '' (info_name i) @
         line ''Created by Thread: '' (fmt_d (info_parent i)) @
         line ''Currently used by Thread: '' (fmt_d (info_state i)) @
         line ''Entry point: '' (fmt_x (ucast (info_entry_point i))) @
         line ''Parameters: '' (fmt_p (info_param i)) @
         line ''Activations: '' (fmt_d (ucast (info_successful_activations i)) @ '' success, '' @
           fmt_d (info_failed_activations i) @ '' failed'') @
         line ''Last activation time: '' (fmt_lu (info_last_activation_time i)) @
         line ''Total running time: '' (fmt_lu (info_total_running_time i)) @ line '''' '''')"

definition strnlen :: "string \<Rightarrow> nat \<Rightarrow> nat" where
  "strnlen s n = length (takeWhile (\<lambda>c. c \<noteq> CHR 0x00) (take n s))"

text \<open>
  The result is the memory, the new offset and the value returned. A read at a negative
  offset would read before the buffer.
\<close>

definition fibers_read ::
    "kenv \<Rightarrow> (addr \<Rightarrow> string) \<Rightarrow> addr \<Rightarrow> procstate \<Rightarrow> pid_t option \<Rightarrow> string \<Rightarrow> umem \<Rightarrow> addr \<Rightarrow> c_ulong \<Rightarrow> c_long \<Rightarrow>
     (procstate \<times> umem \<times> c_long \<times> c_long) option" where
  "fibers_read e fmt_p lim ps task d_name m buf buf_size offset =
     (case task of
        None \<Rightarrow> None
      | Some tgid \<Rightarrow>
        (let ps1 = ps\<lparr>ps_task_refs := ps_task_refs ps + 1\<rparr>
         in (case get_group e tgid (ps_k ps1) of
               None \<Rightarrow> Some (ps1, m, offset, - ESRCH)
             | Some tg \<Rightarrow>
               (let read_fid = (case kstrtoul d_name of None \<Rightarrow> 0 | Some v \<Rightarrow> v)
                in (case get_fiber e (ucast read_fid) tg of
                      None \<Rightarrow> Some (ps1, m, offset, - ESRCH)
                    | Some f \<Rightarrow>
                      (let fiber_data = snprintf INFO_SIZE (fiber_report fmt_p f);
                           data_lenght = strnlen fiber_data INFO_SIZE
                       in if int data_lenght \<le> sint offset then Some (ps1, m, offset, 0)
                          else if sint offset < 0 then None
                          else
                            (let rest = of_nat data_lenght - offset - 1;
                                 read_bytes = (ucast (if buf_size < rest then buf_size else rest) :: c_int);
                                 bytes = map of_char (take (unat read_bytes) (drop (unat offset) fiber_data))
                             in (case copy_to_user lim m buf bytes of
                                   (m', left) \<Rightarrow>
                                     if left \<noteq> 0 then Some (ps1, m', offset, - 1)
                                     else Some (ps1, m', offset + scast read_bytes, scast read_bytes)))))))))"

section \<open>The number of fibers and the size of the table\<close>

lemma card_unat_less:
  assumes "n \<le> 2 ^ 32"
  shows "card {k :: pid_t. unat k < n} = n"
proof -
  have "unat (of_nat i :: pid_t) = i" if "i < n" for i
    using that assms by (simp add: unsigned_of_nat take_bit_nat_eq_self)
  then have "bij_betw (of_nat :: nat \<Rightarrow> pid_t) {..<n} {k. unat k < n}"
    by (intro bij_betw_byWitness [where f' = unat]) auto
  then show ?thesis using bij_betw_same_card by fastforce
qed

lemma fiber_count:
  assumes "group_inv e tg"
  shows "length (fiber_list tg) = unat (tg_fid_count tg + 1)"
proof -
  have wf: "hash_wf (hash_min e) f_fid (tg_fibers tg)" and dense: "fids_dense e tg"
    using assms by (simp_all add: group_inv_def tables_wf_def)
  have "unat (tg_fid_count tg + 1) < 2 ^ 32"
    using unsigned_less [of "tg_fid_count tg + 1", where ?'a = nat] by simp
  then show ?thesis
    using fib.length_entries [OF wf] dense card_unat_less [of "unat (tg_fid_count tg + 1)"]
    by (simp add: fids_dense_def)
qed

lemma fill_entries_eq:
  "i \<le> length tab \<Longrightarrow> fill_entries fs i tab over =
     (take i tab @ map fiber_entry (take (length tab - i) fs) @ drop (i + length fs) tab,
      over + (length fs - (length tab - i)))"
proof (induction fs i tab over rule: fill_entries.induct)
  case (2 f fs i tab over)
  show ?case
  proof (cases "i < length tab")
    case True
    then have "take (Suc i) (tab[i := fiber_entry f]) = take i tab @ [fiber_entry f]"
      by (simp add: take_Suc_conv_app_nth)
    moreover have "take (length tab - i) (f # fs) = f # take (length tab - Suc i) fs"
      using True by (simp add: take_Cons' Suc_diff_Suc [symmetric] del: Suc_diff_Suc)
    ultimately show ?thesis using 2 True by simp
  next
    case False
    with 2 have "i = length tab" by simp
    moreover have "fill_entries gs j tab' v = (tab', v + length gs)" if "length tab' \<le> j" for gs j tab' v
      using that by (induction gs j tab' v rule: fill_entries.induct) simp_all
    ultimately show ?thesis by simp
  qed
qed simp

text \<open>
  The table is one entry short: the counter of the group holds the id of the last fiber,
  and ids start at 0.
\<close>

lemma fibers_table_short:
  assumes inv: "group_inv e tg" and count: "length (fiber_list tg) = Suc n" and "n < 2 ^ 31"
    and ok: "kmalloc e s = (True, s1)"
  shows "fibers_table e s tg =
    (if n = 0 then None else Some (s1, map fiber_entry (butlast (fiber_list tg)), 1))"
proof -
  have "unat (tg_fid_count tg + 1) = Suc n" using fiber_count [OF inv] count by simp
  then have "unat (tg_fid_count tg) = n" using unat_Suc_word [of "tg_fid_count tg"] by fastforce
  then have c: "tg_fid_count tg = of_nat n" by auto
  have "sint (of_nat n :: c_int) = int n" and "sint (of_nat n :: c_long) = int n"
    using assms(3) by (simp_all add: signed_of_nat signed_take_bit_int_eq_self)
  then have s: "scast (of_nat n :: c_int) = (of_nat n :: c_ulong)"
    unfolding scast_eq by simp
  have u: "unat (of_nat n :: c_ulong) = n" using assms(3) by (simp add: unsigned_of_nat take_bit_nat_eq_self)
  have "unat (of_nat n :: c_ulong) = 0 \<longleftrightarrow> (of_nat n :: c_ulong) = 0" by (rule unsigned_eq_0_iff)
  then have z: "(of_nat n :: c_ulong) = 0 \<longleftrightarrow> n = 0" unfolding u by (rule sym)
  have l: "\<not> sint (of_nat n :: c_ulong) < 0" using \<open>sint (of_nat n :: c_long) = int n\<close> by linarith
  have "fill_entries (fiber_list tg) 0 (replicate n null_entry) 0 = (map fiber_entry (butlast (fiber_list tg)), 1)"
    using count by (simp add: fill_entries_eq butlast_conv_take)
  moreover have "fiber_list tg \<noteq> []" using count by auto
  ultimately show ?thesis
    unfolding fibers_table_def c Let_def s u z using ok l by simp
qed

text \<open>
  The directory of a process lists all its fibers but one and writes past its table.
  In every state reached by fewer than 2 to the 31 operations, listing or looking up in the
  directory of a process with exactly one fiber faults; with more fibers the kernel is given
  the entries of all fibers except the last one of the table's order, one entry is written
  past the end of the allocated table, and the references taken to the task (one for a
  listing, two for a lookup) are never given back.
\<close>

lemma listing_one_short:
  assumes run: "reachable e n (ps_k ps)" "n < 2 ^ 31" and g: "get_group e g (ps_k ps) = Some tg"
    and ok: "kmalloc_ok e (kmalloc_calls (ps_k ps))"
  shows "(length (fiber_list tg) = 1 \<longrightarrow>
      fibers_readdir e ker ps (Some g) = None \<and> fibers_lookup e ker ps (Some g) = None) \<and>
    (2 \<le> length (fiber_list tg) \<longrightarrow>
      (\<exists>ps1 ps2. fibers_readdir e ker ps (Some g) =
          Some (ps1, Kernel (ker (map fiber_entry (butlast (fiber_list tg))))) \<and>
        fibers_lookup e ker ps (Some g) =
          Some (ps2, Kernel (ker (map fiber_entry (butlast (fiber_list tg))))) \<and>
        ps_overruns ps1 = ps_overruns ps + 1 \<and> ps_overruns ps2 = ps_overruns ps + 1 \<and>
        ps_task_refs ps1 = ps_task_refs ps + 1 \<and> ps_task_refs ps2 = ps_task_refs ps + 2 \<and>
        live_objects (ps_k ps1) = live_objects (ps_k ps)))"
proof -
  have inv: "kstate_inv e (ps_k ps)" and bound: "fids_bound e n (ps_k ps)"
    using reachable_inv [OF run(1)] run(2) by simp_all
  note gi = kstate_invD [OF inv g]
  have small: "length (fiber_list tg) < 2 ^ 31"
    using bound g fiber_count [OF gi] run(2) by (fastforce simp: fids_bound_def fids_used_def)
  obtain s1 where k: "kmalloc e (ps_k ps) = (True, s1)" "live_objects s1 = Suc (live_objects (ps_k ps))"
    using ok by (simp add: kmalloc_def Let_def)
  have short: "fibers_table e (ps_k ps) tg =
      (if j = 0 then None else Some (s1, map fiber_entry (butlast (fiber_list tg)), 1))"
    if "length (fiber_list tg) = Suc j" for j
    using fibers_table_short [OF gi that _ k(1)] small that by simp
  show ?thesis
  proof (cases "length (fiber_list tg)")
    case (Suc j)
    then have "map fiber_entry (butlast (fiber_list tg)) = [] \<longleftrightarrow> j = 0"
      using length_butlast [of "fiber_list tg"] by (metis Nil_is_map_conv diff_Suc_1 length_0_conv)
    then show ?thesis using short [OF Suc] g k Suc
      by (simp add: fibers_readdir_def fibers_lookup_def Let_def kfree_table_def)
  qed simp
qed

definition demo_proc :: procstate where
  "demo_proc = \<lparr>ps_k = demo_state, ps_task_refs = 0, ps_overruns = 0\<rparr>"

lemma demo_fiber_count: "length (fiber_list demo_group) = 3"
proof -
  have "tg_fid_count demo_group = 2"
    by (simp add: demo_group_def demo_state_def demo_defs eval_defs)
  then show ?thesis using fiber_count [OF kstate_invD [OF demo_inv demo_get_group]] by simp
qed

lemma listing_one_short_witness:
  "\<exists>ps1. fibers_readdir demo_env length demo_proc (Some 100) = Some (ps1, Kernel 2) \<and> ps_overruns ps1 = 1"
  using listing_one_short [of demo_env 3 demo_proc 100 demo_group length] demo_reachable demo_get_group
    demo_fiber_count
  by (auto simp: demo_proc_def demo_env_def)

section \<open>Reading a report\<close>

text \<open>The report as a C string of at most \<open>INFO_SIZE\<close> bytes, its terminator included.\<close>

definition report_text :: "(addr \<Rightarrow> string) \<Rightarrow> fiber \<Rightarrow> string" where
  "report_text fmt_p f = takeWhile (\<lambda>c. c \<noteq> CHR 0x00) (snprintf INFO_SIZE (fiber_report fmt_p f))"

lemma report_text_length: "length (report_text fmt_p f) < INFO_SIZE"
proof -
  have "length (report_text fmt_p f) \<le> length (snprintf INFO_SIZE (fiber_report fmt_p f))"
    by (simp add: report_text_def length_takeWhile_le)
  then show ?thesis by (simp add: snprintf_def)
qed

lemma strnlen_report:
  "strnlen (snprintf INFO_SIZE (fiber_report fmt_p f)) INFO_SIZE = length (report_text fmt_p f)"
  by (simp add: strnlen_def report_text_def snprintf_def min_def)

lemma take_report:
  assumes "o' + k \<le> length (report_text fmt_p f)"
  shows "take k (drop o' (snprintf INFO_SIZE (fiber_report fmt_p f))) = take k (drop o' (report_text fmt_p f))"
proof -
  let ?d = "snprintf INFO_SIZE (fiber_report fmt_p f)"
  have "report_text fmt_p f = take (length (report_text fmt_p f)) ?d"
    unfolding report_text_def by (rule takeWhile_eq_take)
  then have "drop o' (report_text fmt_p f) = take (length (report_text fmt_p f) - o') (drop o' ?d)"
    by (metis drop_take)
  then show ?thesis using assms by (simp add: min_def)
qed

text \<open>The name of a fiber leads back to the fiber.\<close>

lemma name_round_trip:
  assumes "name_ok f" and "unat (f_fid f) < 2 ^ 31"
  shows "\<exists>v. kstrtoul (info_name (f_info f)) = Some v \<and> ucast v = f_fid f"
proof -
  have si: "sint (f_fid f) = int (unat (f_fid f))" using assms(2) by (intro sint_eq_unat) simp
  have "take 255 (fmt_d (f_fid f)) = fmt_d (f_fid f)" using length_fmt_d [of "f_fid f"] by simp
  then have "info_name (f_info f) = print_nat 10 (unat (f_fid f))"
    using assms(1) si by (simp add: name_ok_def snprintf_def fmt_d_def)
  moreover have "kstrtoul (print_nat 10 (unat (f_fid f))) = Some (of_nat (unat (f_fid f)))"
    using assms(2) by (intro kstrtoul_print) simp
  moreover have "ucast (of_nat (unat (f_fid f)) :: c_ulong) = f_fid f"
    using small_casts(2) [OF assms(2)] by simp
  ultimately show ?thesis by simp
qed

lemma min_word_of_nat:
  assumes "n < 2 ^ 64"
  shows "(if b < (of_nat n :: c_ulong) then b else of_nat n) = of_nat (min (unat b) n)"
proof -
  have "unat (of_nat n :: c_ulong) = n" using assms by (simp add: unsigned_of_nat take_bit_nat_eq_self)
  then show ?thesis by (auto simp: word_less_nat_alt min_def)
qed

lemma fibers_read_chunk:
  fixes off :: c_long and bsz :: c_ulong
  assumes D: "D = report_text fmt_p f" and k: "k = min (unat bsz) (length D - 1 - unat off)"
    and g: "get_group e g (ps_k ps) = Some tg" and v: "kstrtoul nm = Some v" "get_fiber e (ucast v) tg = Some f"
    and off: "unat off \<le> length D - 1" and buf: "user_ok lim m buf k"
  shows "\<exists>ps'. fibers_read e fmt_p lim ps (Some g) nm m buf bsz off =
      Some (ps', fst (copy_to_user lim m buf (map of_char (take k (drop (unat off) (butlast D))))),
        off + of_nat k, of_nat k) \<and> ps_k ps' = ps_k ps"
proof -
  have len: "length D < 1024" using report_text_length D by simp
  have so: "sint off = int (unat off)" using off len by (intro sint_eq_unat) simp
  show ?thesis
  proof (cases "D = []")
    case True
    then show ?thesis
      using off k so g v strnlen_report [of fmt_p f] D
      by (simp add: fibers_read_def Let_def copy_to_user_def)
  next
    case False
    then have lt: "unat off < length D" using off by (cases D) auto
    have rest: "(of_nat (length D) - off - 1 :: c_ulong) = of_nat (length D - 1 - unat off)"
      using lt off by (simp add: of_nat_diff)
    have small: "k < 2 ^ 31" using len k by simp
    have cut: "take k (drop (unat off) (snprintf INFO_SIZE (fiber_report fmt_p f))) =
        take k (drop (unat off) (butlast D))"
      using take_report [of "unat off" k fmt_p f] k lt by (simp add: D butlast_conv_take drop_take min_def)
    have "length (take k (drop (unat off) (butlast D))) = k" using k by simp
    then have written: "snd (copy_to_user lim m buf (map of_char (take k (drop (unat off) (butlast D))))) = 0"
      using buf by (intro copy_to_user_ok) (simp only: length_map)
    have here: "(int (length D) \<le> sint off) = False" "(sint off < 0) = False"
      unfolding so using lt by (simp_all only: of_nat_le_iff not_le) simp_all
    have "(if bsz < of_nat (length D) - off - 1 then bsz else of_nat (length D) - off - 1) = of_nat k"
      unfolding rest k using len by (intro min_word_of_nat) simp
    then have rb: "(ucast (if bsz < of_nat (length D) - off - 1 then bsz else of_nat (length D) - off - 1) :: c_int) =
        of_nat k" using small_casts(2) [OF small] by simp
    have g': "get_group e g (ps_k (ps\<lparr>ps_task_refs := x\<rparr>)) = Some tg" for x using g by simp
    have dl: "strnlen (snprintf INFO_SIZE (fiber_report fmt_p f)) INFO_SIZE = length D"
      using strnlen_report D by simp
    show ?thesis
      by (simp only: fibers_read_def Let_def option.case g' v dl here if_False rb
          small_casts(3,4) [OF small] cut split_def written) simp
  qed
qed

text \<open>A reader: a sequence of reads, each into its own buffer, and the bytes it gets.\<close>

fun read_seq ::
    "kenv \<Rightarrow> (addr \<Rightarrow> string) \<Rightarrow> addr \<Rightarrow> procstate \<Rightarrow> pid_t \<Rightarrow> string \<Rightarrow> umem \<Rightarrow> c_long \<Rightarrow> (addr \<times> c_ulong) list \<Rightarrow>
     byte list option" where
  "read_seq e fmt_p lim ps g nm m off [] = Some []"
| "read_seq e fmt_p lim ps g nm m off ((buf, bsz) # reqs) =
     (case fibers_read e fmt_p lim ps (Some g) nm m buf bsz off of
        None \<Rightarrow> None
      | Some (ps', m', off', r) \<Rightarrow>
          (case copy_from_user lim m' buf (unat r) of
             None \<Rightarrow> None
           | Some bs \<Rightarrow> map_option (append bs) (read_seq e fmt_p lim ps' g nm m' off' reqs)))"

lemma read_seq_from:
  fixes off :: c_long
  assumes D: "D = report_text fmt_p f"
    and v: "kstrtoul nm = Some v" "get_fiber e (ucast v) tg = Some f"
  shows "get_group e g (ps_k ps) = Some tg \<Longrightarrow> unat off \<le> length D - 1 \<Longrightarrow>
    \<forall>(buf, bsz) \<in> set reqs. user_ok lim m buf (unat bsz) \<Longrightarrow>
    read_seq e fmt_p lim ps g nm m off reqs =
      Some (map of_char (take (\<Sum>(buf, bsz) \<leftarrow> reqs. unat bsz) (drop (unat off) (butlast D))))"
proof (induction reqs arbitrary: ps m off)
  case (Cons req reqs)
  obtain buf bsz where req: "req = (buf, bsz)" by (cases req)
  define k where k: "k = min (unat bsz) (length D - 1 - unat off)"
  define bs where bs: "bs = (map of_char (take k (drop (unat off) (butlast D))) :: byte list)"
  define m' where m': "m' = fst (copy_to_user lim m buf bs)"
  have len: "length D < 1024" and lbs: "length bs = k" using report_text_length D by (simp_all add: bs k)
  have ok: "user_ok lim m buf k" using Cons.prems(3) req k by (auto intro: user_ok_prefix)
  obtain ps' where r: "fibers_read e fmt_p lim ps (Some g) nm m buf bsz off =
      Some (ps', m', off + of_nat k, of_nat k)" and ps': "ps_k ps' = ps_k ps"
    using fibers_read_chunk [OF D k Cons.prems(1) v Cons.prems(2) ok] unfolding m' bs by blast
  have uk: "unat (of_nat k :: c_long) = k" using len k by (intro small_casts) simp
  have uo: "unat (off + of_nat k) = unat off + k"
    using len Cons.prems(2) uk k by (simp add: unat_word_ariths)
  have got: "copy_from_user lim m' buf k = Some bs"
    using copy_from_user_same [of lim m buf bs] ok lbs m' by simp
  have bufs: "\<forall>(buf, bsz) \<in> set reqs. user_ok lim m' buf (unat bsz)"
    using Cons.prems(3) unfolding m' by (simp add: case_prod_beta)
  have "unat (off + of_nat k) \<le> length D - 1" unfolding uo using Cons.prems(2) k by linarith
  from Cons.IH [OF _ this bufs, of ps'] Cons.prems(1) ps'
  have rest: "read_seq e fmt_p lim ps' g nm m' (off + of_nat k) reqs = Some (map of_char
      (take (\<Sum>(buf, bsz) \<leftarrow> reqs. unat bsz) (drop (unat off + k) (butlast D))))"
    unfolding uo by simp
  have "read_seq e fmt_p lim ps g nm m off (req # reqs) = Some (bs @ map of_char
      (take (\<Sum>(buf, bsz) \<leftarrow> reqs. unat bsz) (drop (unat off + k) (butlast D))))"
    unfolding req read_seq.simps r option.case prod.case uk got rest by simp
  moreover have "take k (drop (unat off) (butlast D)) = take (unat bsz) (drop (unat off) (butlast D))"
    and "drop (unat off + k) (butlast D) = drop (unat off + unat bsz) (butlast D)"
    by (simp_all add: k min_def)
  ultimately show ?case unfolding bs req by (simp add: take_add add.commute)
qed simp

text \<open>
  C38: The file of a fiber shows the report of that fiber. In every state reached by fewer
  than 2 to the 31 operations, for every fiber \<open>f\<close> of a process, a reader that opens the
  file with the name of \<open>f\<close> and reads it with any sequence of writable buffers of any sizes
  gets, piece by piece and without gap or repetition, the report of \<open>f\<close> up to but not
  including its last character, and then nothing more.
\<close>

theorem proc_file_shows_report:
  assumes run: "reachable e n (ps_k ps)" "n < 2 ^ 31" and f: "fiber_at e (ps_k ps) g k = Some f"
    and bufs: "\<forall>(buf, bsz) \<in> set reqs. user_ok lim m buf (unat bsz)"
  shows "read_seq e fmt_p lim ps g (info_name (f_info f)) m 0 reqs =
    Some (map of_char (take (\<Sum>(buf, bsz) \<leftarrow> reqs. unat bsz) (butlast (report_text fmt_p f))))"
proof -
  have inv: "kstate_inv e (ps_k ps)" and bound: "fids_bound e n (ps_k ps)"
    using reachable_inv [OF run(1)] run(2) by simp_all
  obtain tg where tg: "get_group e g (ps_k ps) = Some tg" and k: "get_fiber e k tg = Some f"
    using f by (auto simp: fiber_at_def split: option.splits)
  have key: "f_fid f = k" using fib.lookup_key [OF k] .
  have "fids_dense e tg" using kstate_invD [OF inv tg] by (simp add: group_inv_def)
  then have "unat k < fids_used tg" using k by (auto simp: fids_dense_def fids_used_def)
  also have "\<dots> \<le> n" using bound tg by (simp add: fids_bound_def)
  finally have small: "unat (f_fid f) < 2 ^ 31" using run(2) key by simp
  have "name_ok f" using name.sat_reachable [OF run(1)] run(2) tg k by (auto simp: all_fibers_def fibers_sat_def)
  then obtain v where v: "kstrtoul (info_name (f_info f)) = Some v" "ucast v = f_fid f"
    using name_round_trip [OF _ small] by blast
  have "get_fiber e (ucast v) tg = Some f" using k v(2) key by simp
  from read_seq_from [OF refl v(1) this tg _ bufs, of 0] show ?thesis by simp
qed

theorem proc_file_shows_report_witness:
  "\<exists>f. fiber_at demo_env demo_state 100 1 = Some f \<and> info_name (f_info f) = ''1'' \<and>
    read_seq demo_env (\<lambda>_. ''0'') 64 demo_proc 100 ''1'' (\<lambda>_. Some 0) 0 [(0, 9), (16, 8)] =
      Some (map of_char (take 17 (butlast (report_text (\<lambda>_. ''0'') f))))"
proof -
  obtain f where at: "get_fiber demo_env 1 demo_group = Some f" using demo_fibers(2) by auto
  have "name_ok f"
    using name.sat_reachable [OF demo_reachable] demo_get_group at by (auto simp: all_fibers_def fibers_sat_def)
  then have f: "fiber_at demo_env demo_state 100 1 = Some f" "info_name (f_info f) = ''1''"
    using at demo_get_group fib.lookup_key [OF at]
    by (simp_all add: fiber_at_def name_ok_def snprintf_def fmt_d_def print_nat_def digits.simps [of 10 "Suc 0"]
        digit_char_def char_of_def bit_0)
  have everywhere: "mapped (\<lambda>_. Some 0) a i" for a i by (induction i arbitrary: a) simp_all
  have bufs: "\<forall>(buf, bsz) \<in> set [(0 :: addr, 9 :: c_ulong), (16, 8)]. user_ok 64 (\<lambda>_. Some 0) buf (unat bsz)"
    by (simp add: user_ok_def access_ok_def everywhere)
  have run: "reachable demo_env 3 (ps_k demo_proc)" and f': "fiber_at demo_env (ps_k demo_proc) 100 1 = Some f"
    using demo_reachable f by (simp_all add: demo_proc_def)
  have sizes: "(\<Sum>(buf, bsz) \<leftarrow> [(0 :: addr, 9 :: c_ulong), (16, 8)]. unat bsz) = 17" by simp
  have "(3 :: nat) < 2 ^ 31" by simp
  from proc_file_shows_report [OF run this f' bufs, of "\<lambda>_. ''0''", unfolded sizes f(2)] f
  show ?thesis by blast
qed

end
