(* ===== verification/Device.thy ===== *)
theory Device
  imports Fiber_Lifetime Usermem
begin

text \<open>
  The character device, \<open>fibers/device.c\<close> and \<open>fibers/include/device.h\<close>: the request codes,
  the dispatch of a request to the handlers with the copies between user memory and the
  argument structures, opening and closing, and the registration of the device.

  A request is a function of the state of the module, the calling task, its user memory
  and the end of the user address space; it returns the new state, the task (a switch
  replaces its registers), the memory and the result. Whether \<open>try_module_get\<close> succeeds
  and what \<open>register_chrdev\<close>, \<open>class_create\<close> and \<open>device_create\<close> return are arguments.
\<close>

section \<open>Request codes\<close>

definition IOC :: "c_int \<Rightarrow> c_int \<Rightarrow> c_int \<Rightarrow> c_int \<Rightarrow> c_int" where
  "IOC dir type nr bytes = push_bit 30 dir OR push_bit 16 bytes OR push_bit 8 type OR nr"

definition IOCTL_NUMBER :: c_int where
  "IOCTL_NUMBER = of_nat (of_char CHR ''k'')"

definition IOCTL_CONVERT_THREAD_TO_FIBER :: c_int where
  "IOCTL_CONVERT_THREAD_TO_FIBER = IOC 0 IOCTL_NUMBER 0 0"

definition IOCTL_CREATE_FIBER :: c_int where
  "IOCTL_CREATE_FIBER = IOC 1 IOCTL_NUMBER 1 32"

definition IOCTL_SWITCH_TO_FIBER :: c_int where
  "IOCTL_SWITCH_TO_FIBER = IOC 1 IOCTL_NUMBER 2 4"

definition IOCTL_FLS_ALLOC :: c_int where
  "IOCTL_FLS_ALLOC = IOC 0 IOCTL_NUMBER 3 0"

definition IOCTL_FLS_GET_VALUE :: c_int where
  "IOCTL_FLS_GET_VALUE = IOC 2 IOCTL_NUMBER 4 8"

definition IOCTL_FLS_FREE :: c_int where
  "IOCTL_FLS_FREE = IOC 1 IOCTL_NUMBER 5 8"

definition IOCTL_FLS_SET_VALUE :: c_int where
  "IOCTL_FLS_SET_VALUE = IOC 1 IOCTL_NUMBER 6 16"

lemmas ioctl_codes = IOCTL_CONVERT_THREAD_TO_FIBER_def IOCTL_CREATE_FIBER_def
  IOCTL_SWITCH_TO_FIBER_def IOCTL_FLS_ALLOC_def IOCTL_FLS_GET_VALUE_def IOCTL_FLS_FREE_def
  IOCTL_FLS_SET_VALUE_def

section \<open>Requests\<close>

text \<open>
  In the switch request a failed range check only sets \<open>error\<close>: there is no \<open>break\<close>, and
  the copy that follows sets \<open>error\<close> again on both of its branches.
\<close>

definition fibers_ioctl ::
    "kenv \<Rightarrow> addr \<Rightarrow> kstate \<Rightarrow> task \<Rightarrow> umem \<Rightarrow> c_int \<Rightarrow> c_ulong \<Rightarrow> (umem \<times> c_long) outcome" where
  "fibers_ioctl e lim s tsk m cmd args =
     (if cmd = IOCTL_CONVERT_THREAD_TO_FIBER then
        map_outcome (\<lambda>r. (m, scast r)) (do_convert_thread_to_fiber e s tsk)
      else if cmd = IOCTL_CREATE_FIBER then
        (if \<not> access_ok lim args 32 then Done s tsk (m, - EINVAL)
         else (case copy_from_user lim m args 32 of
                 None \<Rightarrow> Done s tsk (m, - EINVAL)
               | Some bs \<Rightarrow>
                   (let fibargs = dec_fib_args bs
                    in map_outcome (\<lambda>r. (m, scast r))
                         (do_create_fiber e s tsk (fa_stack_base fibargs) (fa_stack_size fibargs)
                            (fa_entry_point fibargs) (fa_params fibargs)))))
      else if cmd = IOCTL_SWITCH_TO_FIBER then
        (case copy_from_user lim m args 4 of
           None \<Rightarrow> Done s tsk (m, - EINVAL)
         | Some bs \<Rightarrow> map_outcome (\<lambda>r. (m, scast r)) (do_switch_to_fiber e s tsk (le_word bs)))
      else if cmd = IOCTL_FLS_ALLOC then
        map_outcome (\<lambda>r. (m, r)) (do_fls_alloc e s tsk)
      else if cmd = IOCTL_FLS_GET_VALUE then
        (if \<not> access_ok lim args 16 then Done s tsk (m, - EINVAL)
         else (case copy_from_user lim m args 16 of
                 None \<Rightarrow> Done s tsk (m, - EINVAL)
               | Some bs \<Rightarrow>
                   (let flsargs = dec_fls_args bs
                    in map_outcome
                         (\<lambda>read_value.
                            (case copy_to_user lim m (la_value flsargs) (le_bytes 8 read_value) of
                               (m', left) \<Rightarrow> (m', if left \<noteq> 0 then - EINVAL else 0)))
                         (do_fls_get_value e s tsk (la_idx flsargs)))))
      else if cmd = IOCTL_FLS_FREE then
        (if \<not> access_ok lim args 16 then Done s tsk (m, - EINVAL)
         else (case copy_from_user lim m args 16 of
                 None \<Rightarrow> Done s tsk (m, - EINVAL)
               | Some bs \<Rightarrow>
                   map_outcome (\<lambda>r. (m, r)) (do_fls_free e s tsk (la_idx (dec_fls_args bs)))))
      else if cmd = IOCTL_FLS_SET_VALUE then
        (if \<not> access_ok lim args 16 then Done s tsk (m, - EINVAL)
         else (case copy_from_user lim m args 16 of
                 None \<Rightarrow> Done s tsk (m, - EINVAL)
               | Some bs \<Rightarrow>
                   (let flsargs = dec_fls_args bs
                    in map_outcome (\<lambda>r. (m, r))
                         (do_fls_set_value e s tsk (la_idx flsargs) (la_value flsargs)))))
      else Done s tsk (m, - EPERM))"

definition fibers_open :: "bool \<Rightarrow> nat \<Rightarrow> nat \<times> c_int" where
  "fibers_open try_module_get refs =
     (if \<not> try_module_get then (refs, - ENOENT) else (Suc refs, SUCCESS))"

definition fibers_release :: "kenv \<Rightarrow> kstate \<Rightarrow> task \<Rightarrow> nat \<Rightarrow> kstate \<times> nat \<times> c_int" where
  "fibers_release e s tsk refs = (fst (cleanup_process e s (tsk_tgid tsk)), refs - 1, SUCCESS)"

definition fibers_dummy_read :: "c_ulong \<Rightarrow> c_long" where
  "fibers_dummy_read len = 0"

definition fibers_dummy_write :: "c_ulong \<Rightarrow> c_long" where
  "fibers_dummy_write len = len"

section \<open>Registration\<close>

text \<open>
  The kernel's pointers that the module stores are null, an encoded error or valid. The
  counters say how often the number, the class and the device are registered with the
  kernel: a registration adds one, taking it back subtracts one.
\<close>

datatype kptr = NULL | ERR_PTR c_long | Valid

record devenv =
  register_chrdev :: c_int
  class_create :: kptr
  device_create :: kptr

record devstate =
  fibers_device_major :: c_int
  fibers_device :: kptr
  fibers_device_class :: kptr
  chrdevs :: int
  classes :: int
  devices :: int

definition IS_ERR :: "kptr \<Rightarrow> bool" where
  "IS_ERR p = (case p of ERR_PTR _ \<Rightarrow> True | _ \<Rightarrow> False)"

definition PTR_ERR :: "kptr \<Rightarrow> c_long" where
  "PTR_ERR p = (case p of ERR_PTR err \<Rightarrow> err | _ \<Rightarrow> 0)"

definition class_unregister :: "devstate \<Rightarrow> devstate" where
  "class_unregister g = g\<lparr>classes := classes g - 1\<rparr>"

definition class_destroy :: "devstate \<Rightarrow> devstate" where
  "class_destroy g = (if fibers_device_class g = Valid then class_unregister g else g)"

definition unregister_chrdev :: "devstate \<Rightarrow> devstate" where
  "unregister_chrdev g = g\<lparr>chrdevs := chrdevs g - 1\<rparr>"

text \<open>
  The callback that the kernel asks for the name and the mode of the device file: it is readable
  and writable for all (0666), when the kernel wants a mode; \<open>kasprintf\<close> may fail.
\<close>

definition devnode :: "bool \<Rightarrow> 16 word option \<Rightarrow> string \<Rightarrow> 16 word option \<times> string option" where
  "devnode kasprintf_ok mode name = (map_option (\<lambda>_. 0x1B6) mode, if kasprintf_ok then Some name else None)"

definition fibers_register_device :: "devenv \<Rightarrow> devstate \<Rightarrow> devstate \<times> c_int" where
  "fibers_register_device d g =
     (let g1 = g\<lparr>fibers_device_major := register_chrdev d\<rparr>
      in if sint (fibers_device_major g1) < 0 then (g1, fibers_device_major g1)
         else
           (let g2 = g1\<lparr>chrdevs := chrdevs g1 + 1, fibers_device_class := class_create d\<rparr>
            in if IS_ERR (fibers_device_class g2)
               then (unregister_chrdev g2, ucast (PTR_ERR (fibers_device_class g2)))
               else
                 (let g3 = g2\<lparr>classes := classes g2 + 1, fibers_device := device_create d\<rparr>
                  in if IS_ERR (fibers_device g3)
                     then (unregister_chrdev (class_destroy g3), ucast (PTR_ERR (fibers_device g3)))
                     else (g3\<lparr>devices := devices g3 + 1\<rparr>, SUCCESS))))"

text \<open>
  \<open>class_unregister\<close> dereferences its argument: without a valid class the call faults,
  which is the result \<open>None\<close>.
\<close>

definition fibers_unregister_device :: "devstate \<Rightarrow> (devstate \<times> c_int) option" where
  "fibers_unregister_device g =
     (if fibers_device_class g \<noteq> Valid then None
      else (let g1 = g\<lparr>devices := devices g - 1\<rparr>
            in Some (unregister_chrdev (class_destroy (class_unregister g1)), SUCCESS)))"

lemmas registration_defs = fibers_register_device_def Let_def IS_ERR_def PTR_ERR_def
  class_unregister_def class_destroy_def unregister_chrdev_def

section \<open>Lemmas on the dispatch\<close>

lemma ioctl_codes_distinct:
  "distinct [IOCTL_CONVERT_THREAD_TO_FIBER, IOCTL_CREATE_FIBER, IOCTL_SWITCH_TO_FIBER,
     IOCTL_FLS_ALLOC, IOCTL_FLS_GET_VALUE, IOCTL_FLS_FREE, IOCTL_FLS_SET_VALUE]"
  by (simp add: ioctl_codes IOC_def IOCTL_NUMBER_def)

lemmas ioctl_codes_neq [simp] = ioctl_codes_distinct [simplified]

lemmas ioctl_codes_neq_sym [simp] = iffD2 [OF distinct_rev ioctl_codes_distinct, simplified]

section \<open>The device as a front end of the operations\<close>

text \<open>
  What a request means: the operation it asks for, decoded from the user memory, when its
  argument can be read.
\<close>

definition ioctl_call :: "addr \<Rightarrow> umem \<Rightarrow> c_int \<Rightarrow> c_ulong \<Rightarrow> call option" where
  "ioctl_call lim m cmd args =
     (if cmd = IOCTL_CONVERT_THREAD_TO_FIBER then Some Convert
      else if cmd = IOCTL_CREATE_FIBER then
        map_option (\<lambda>bs. (\<lambda>a. Create (fa_stack_base a) (fa_stack_size a) (fa_entry_point a) (fa_params a))
          (dec_fib_args bs)) (copy_from_user lim m args 32)
      else if cmd = IOCTL_SWITCH_TO_FIBER then
        map_option (\<lambda>bs. Switch (le_word bs)) (copy_from_user lim m args 4)
      else if cmd = IOCTL_FLS_ALLOC then Some Fls_Alloc
      else if cmd = IOCTL_FLS_GET_VALUE then
        map_option (\<lambda>bs. Fls_Get (la_idx (dec_fls_args bs))) (copy_from_user lim m args 16)
      else if cmd = IOCTL_FLS_FREE then
        map_option (\<lambda>bs. Fls_Free (la_idx (dec_fls_args bs))) (copy_from_user lim m args 16)
      else if cmd = IOCTL_FLS_SET_VALUE then
        map_option (\<lambda>bs. Fls_Set (la_idx (dec_fls_args bs)) (la_value (dec_fls_args bs)))
          (copy_from_user lim m args 16)
      else None)"

text \<open>The result of an operation goes to the caller, except that of a read, which goes to memory.\<close>

definition ioctl_result :: "addr \<Rightarrow> umem \<Rightarrow> c_int \<Rightarrow> c_ulong \<Rightarrow> c_long \<Rightarrow> umem \<times> c_long" where
  "ioctl_result lim m cmd args r =
     (if cmd = IOCTL_FLS_GET_VALUE then
        (case copy_from_user lim m args 16 of
           None \<Rightarrow> (m, - EINVAL)
         | Some bs \<Rightarrow>
             (case copy_to_user lim m (la_value (dec_fls_args bs)) (le_bytes 8 r) of
                (m', left) \<Rightarrow> (m', if left \<noteq> 0 then - EINVAL else 0)))
      else (m, r))"

definition ioctl_known :: "c_int \<Rightarrow> bool" where
  "ioctl_known cmd \<longleftrightarrow> cmd \<in> set [IOCTL_CONVERT_THREAD_TO_FIBER, IOCTL_CREATE_FIBER,
     IOCTL_SWITCH_TO_FIBER, IOCTL_FLS_ALLOC, IOCTL_FLS_GET_VALUE, IOCTL_FLS_FREE, IOCTL_FLS_SET_VALUE]"

lemma map_outcome_comp: "map_outcome g (map_outcome f x) = map_outcome (\<lambda>r. g (f r)) x"
  by (cases x) simp_all

lemma ioctl_result_other: "cmd \<noteq> IOCTL_FLS_GET_VALUE \<Longrightarrow> ioctl_result lim m cmd args = (\<lambda>r. (m, r))"
  by (simp add: ioctl_result_def fun_eq_iff)

lemma ioctl_result_get:
  "copy_from_user lim m args 16 = Some bs \<Longrightarrow> ioctl_result lim m IOCTL_FLS_GET_VALUE args =
     (\<lambda>r. case copy_to_user lim m (la_value (dec_fls_args bs)) (le_bytes 8 r) of
        (m', left) \<Rightarrow> (m', if left \<noteq> 0 then - EINVAL else 0))"
  by (simp add: ioctl_result_def fun_eq_iff)

lemma copy_range: "\<not> access_ok lim a n \<Longrightarrow> copy_from_user lim m a n = None"
  by (simp add: copy_from_user_def)

lemma fibers_ioctl_eq:
  "fibers_ioctl e lim s tsk m cmd args =
     (case ioctl_call lim m cmd args of
        None \<Rightarrow> Done s tsk (m, if ioctl_known cmd then - EINVAL else - EPERM)
      | Some c \<Rightarrow> map_outcome (ioctl_result lim m cmd args) (syscall e s tsk c))"
proof -
  consider "cmd = IOCTL_CONVERT_THREAD_TO_FIBER" | "cmd = IOCTL_CREATE_FIBER" | "cmd = IOCTL_SWITCH_TO_FIBER"
    | "cmd = IOCTL_FLS_ALLOC" | "cmd = IOCTL_FLS_GET_VALUE" | "cmd = IOCTL_FLS_FREE"
    | "cmd = IOCTL_FLS_SET_VALUE" | "\<not> ioctl_known cmd" by (auto simp: ioctl_known_def)
  then show ?thesis
    by cases (simp_all add: fibers_ioctl_def ioctl_call_def ioctl_result_other ioctl_result_get
        ioctl_known_def Let_def map_outcome_comp copy_range split: option.split)
qed


section \<open>Use of the device by any number of processes\<close>

text \<open>
  \<open>device_run e lim n s k\<close>: after the module was loaded, \<open>n\<close> requests and closings of any
  tasks, with any codes, arguments and memory contents, and any openings lead to the state
  \<open>s\<close> with \<open>k\<close> references to the module.
\<close>

inductive device_run :: "kenv \<Rightarrow> addr \<Rightarrow> nat \<Rightarrow> kstate \<Rightarrow> nat \<Rightarrow> bool" where
  loaded: "device_run e lim 0 init_kstate 0"
| opened: "device_run e lim n s k \<Longrightarrow> fibers_open ok k = (k', r) \<Longrightarrow> device_run e lim n s k'"
| requested: "device_run e lim n s k \<Longrightarrow> tsk_pid tsk \<noteq> 0 \<Longrightarrow>
     fibers_ioctl e lim s tsk m cmd args = Done s' tsk' (m', r) \<Longrightarrow> device_run e lim (Suc n) s' k"
| closed: "device_run e lim n s k \<Longrightarrow> tsk_pid tsk \<noteq> 0 \<Longrightarrow> 0 < k \<Longrightarrow>
     fibers_release e s tsk k = (s', k', r) \<Longrightarrow> device_run e lim (Suc n) s' k'"

lemma fibers_ioctl_syscall:
  assumes "fibers_ioctl e lim s tsk m cmd args = Done s' tsk' (m', r)"
  shows "s' = s \<or> (\<exists>c r0. syscall e s tsk c = Done s' tsk' r0)"
  using assms by (auto simp: fibers_ioctl_eq map_outcome_Done split: option.splits)

lemma fibers_release_syscall:
  assumes "fibers_release e s tsk k = (s', k', r)"
  shows "\<exists>r0. syscall e s tsk Release = Done s' tsk r0"
  using assms by (auto simp: fibers_release_def split_def)

lemma device_run_reachable:
  assumes "device_run e lim n s k"
  shows "\<exists>j \<le> n. reachable e j s"
  using assms
proof (induction rule: device_run.induct)
  case (loaded e lim)
  show ?case using reachable.start by blast
next
  case (opened e lim n s k ok k' r)
  then show ?case by blast
next
  case (requested e lim n s k tsk m cmd args s' tsk' m' r)
  then obtain j where j: "j \<le> n" "reachable e j s" by blast
  show ?case using fibers_ioctl_syscall [OF requested.hyps(3)]
  proof (elim disjE exE)
    assume "s' = s"
    with j show ?thesis by (intro exI [of _ j]) simp
  next
    fix c r0 assume "syscall e s tsk c = Done s' tsk' r0"
    from reachable.step [OF j(2) requested.hyps(2) this] j(1) show ?thesis by blast
  qed
next
  case (closed e lim n s k tsk s' k' r)
  then obtain j where j: "j \<le> n" "reachable e j s" by blast
  obtain r0 where "syscall e s tsk Release = Done s' tsk r0"
    using fibers_release_syscall [OF closed.hyps(4)] by blast
  from reachable.step [OF j(2) closed.hyps(2) this] j(1) show ?case by blast
qed

text \<open>
  C26: No sequence of requests breaks the module, however malformed: whatever request codes,
  argument pointers and memory contents the tasks use, and whenever they open and close
  the device, the tables stay well formed, the live objects are exactly those of the
  groups, and a fiber that a thread runs is locked and run by no other thread.
\<close>

theorem device_run_safe:
  assumes "device_run e lim n s k" and "n < 2 ^ 32"
  shows "kstate_inv e s \<and>
    (\<forall>g p t. thread_at e s g p = Some t \<longrightarrow>
      map_option f_flock (fiber_at e s g (t_current_fid t)) = Some True \<and>
      (\<forall>q u. thread_at e s g q = Some u \<and> t_current_fid u = t_current_fid t \<longrightarrow> q = p))"
proof -
  obtain j where j: "j \<le> n" "reachable e j s" using device_run_reachable [OF assms(1)] by blast
  then have inv: "kstate_inv e s" using reachable_inv [OF j(2)] assms(2) by simp
  moreover have "map_option f_flock (fiber_at e s g (t_current_fid t)) = Some True"
    if "thread_at e s g p = Some t" for g p t
    using exclusive_threads(1) [OF inv that] by auto
  moreover note exclusive_threads(2) [OF inv]
  ultimately show ?thesis by blast
qed

theorem device_run_safe_witness:
  "\<exists>s tsk' m'. fibers_ioctl demo_env 1048576 init_kstate (demo_task 100 10) (\<lambda>_. None)
      IOCTL_CONVERT_THREAD_TO_FIBER 0 = Done s tsk' (m', 0) \<and>
    map_option f_flock (fiber_at demo_env s 100 0) = Some True"
proof -
  have "\<exists>s tsk' m'. fibers_ioctl demo_env 1048576 init_kstate (demo_task 100 10) (\<lambda>_. None)
      IOCTL_CONVERT_THREAD_TO_FIBER 0 = Done s tsk' (m', 0) \<and>
      thread_at demo_env s 100 100 = Some \<lparr>t_pid = 100, t_current_fid = 0\<rparr>"
    by (simp add: fibers_ioctl_def thread_at_def demo_defs eval_defs)
  then obtain s tsk' m' where 1: "fibers_ioctl demo_env 1048576 init_kstate (demo_task 100 10) (\<lambda>_. None)
      IOCTL_CONVERT_THREAD_TO_FIBER 0 = Done s tsk' (m', 0)"
    and t: "thread_at demo_env s 100 100 = Some \<lparr>t_pid = 100, t_current_fid = 0\<rparr>" by blast
  have "device_run demo_env 1048576 (Suc 0) s 0"
    using device_run.requested [OF device_run.loaded _ 1] by simp
  from device_run_safe [OF this] t 1 show ?thesis by fastforce
qed

section \<open>Reading a slot through the device\<close>

lemma ioctl_get:
  assumes "copy_from_user lim m args 16 = Some (enc_fls_args \<lparr>la_idx = i, la_value = a\<rparr>)"
    and "do_fls_get_value e s tsk i = Done s tsk r"
  shows "fibers_ioctl e lim s tsk m IOCTL_FLS_GET_VALUE args =
    (case copy_to_user lim m a (le_bytes 8 r) of
       (m', left) \<Rightarrow> Done s tsk (m', if left \<noteq> 0 then - EINVAL else 0))"
  using assms by (simp add: fibers_ioctl_eq ioctl_call_def ioctl_result_get fls_args.dec_enc split: prod.split)

lemma do_fls_get_value_total: "\<exists>r. do_fls_get_value e s tsk i = Done s tsk r"
  by (simp add: do_fls_get_value_def split: option.split prod.split)

text \<open>
  The request that reads a slot reports success for every failure of the read. When the
  arguments can be read and the result can be stored, it returns 0 whatever
  \<open>do_fls_get_value\<close> returned, and stores that result, a value or a negated error
  number alike, at the address the caller gave; a slot that is not allocated and a slot
  that holds -13 give the same answer.
\<close>

lemma get_request_masks_errors:
  assumes "copy_from_user lim m args 16 = Some (enc_fls_args \<lparr>la_idx = i, la_value = a\<rparr>)"
    and "user_ok lim m a 8"
  shows "\<exists>r m'. do_fls_get_value e s tsk i = Done s tsk r \<and>
    fibers_ioctl e lim s tsk m IOCTL_FLS_GET_VALUE args = Done s tsk (m', 0) \<and>
    copy_from_user lim m' a 8 = Some (le_bytes 8 r) \<and>
    (\<forall>x. \<not> in_range a 8 x \<longrightarrow> m' x = m x) \<and>
    (\<forall>F. current_fls e s tsk = Some F \<and> \<not> bad_index i \<and> fls_view F (unat i) = None \<longrightarrow> r = - EACCES)"
proof -
  obtain r where r: "do_fls_get_value e s tsk i = Done s tsk r" using do_fls_get_value_total by blast
  obtain m' left where w: "copy_to_user lim m a (le_bytes 8 r) = (m', left)" by (meson surj_pair)
  then have "left = 0" using copy_to_user_ok [of lim m a "le_bytes 8 r"] assms(2) by simp
  moreover have "r = - EACCES"
    if "current_fls e s tsk = Some F" "\<not> bad_index i" "fls_view F (unat i) = None" for F
    using r do_fls_get_current [OF that(1,2)] fls.get_unused [OF good_index(1) [OF that(2)] that(3)] by simp
  ultimately show ?thesis
    using r ioctl_get [OF assms(1) r] w copy_from_user_same [of lim m a "le_bytes 8 r"] assms(2)
      copy_to_user_outside [of a "le_bytes 8 r" _ lim m] by auto
qed

text \<open>User memory for examples: one megabyte that is mapped and zero.\<close>

definition demo_mem :: umem where
  "demo_mem = (\<lambda>a. if a < 1048576 then Some 0 else None)"

lemma demo_mem_ok: "unat a + n \<le> 1048576 \<Longrightarrow> user_ok 1048576 demo_mem a n"
proof -
  assume b: "unat a + n \<le> 1048576"
  then have "mapped demo_mem a n"
    by (subst mapped_iff) (auto simp: demo_mem_def in_range_def word_less_nat_alt)
  with b show ?thesis by (simp add: user_ok_def access_ok_def)
qed

lemma demo_mem_args:
  assumes "unat a + length bs \<le> 1048576"
  shows "copy_from_user 1048576 (fst (copy_to_user 1048576 demo_mem a bs)) a (length bs) = Some bs"
  by (rule copy_from_user_same) (rule demo_mem_ok [OF assms])

lemma get_request_masks_errors_witness:
  "\<exists>m m'. fibers_ioctl demo_env 1048576 demo_state (demo_task 100 40) m IOCTL_FLS_GET_VALUE 4096 =
      Done demo_state (demo_task 100 40) (m', 0) \<and>
    copy_from_user 1048576 m' 8192 8 = Some (le_bytes 8 (- EACCES :: c_long))"
proof -
  let ?m = "fst (copy_to_user 1048576 demo_mem 4096 (enc_fls_args \<lparr>la_idx = 5, la_value = 8192\<rparr>))"
  have 1: "copy_from_user 1048576 ?m 4096 16 = Some (enc_fls_args \<lparr>la_idx = 5, la_value = 8192\<rparr>)"
    using demo_mem_args [of 4096 "enc_fls_args \<lparr>la_idx = 5, la_value = 8192\<rparr>"] fls_args.length_enc
    by simp
  have 2: "user_ok 1048576 ?m 8192 8" by (simp add: demo_mem_ok)
  have "current_fls demo_env demo_state (demo_task 100 40) = Some PREPARE_FLS"
    by (simp add: demo_state_def demo_defs eval_defs current_fls_def)
  moreover have "\<not> bad_index 5" by (simp add: bad_index_def)
  moreover have "fls_view PREPARE_FLS 5 = None" by (simp add: fls_view_def PREPARE_FLS_def)
  ultimately show ?thesis
    using get_request_masks_errors [OF 1 2, of demo_env demo_state "demo_task 100 40"] by fastforce
qed

section \<open>Closing\<close>

text \<open>
  Closing one descriptor ends the fibers of the whole process. After any task of the
  process closes a descriptor (the process may hold others, since every converted thread
  opens its own), the process has no group: every task of it gets \<open>-ESRCH\<close> from create,
  switch and the storage requests, while one reference per other descriptor remains; the
  other processes keep their fibers.
\<close>

lemma release_ends_process:
  assumes inv: "kstate_inv e s" and rel: "fibers_release e s tsk refs = (s', refs', r)"
    and same: "tsk_tgid tsk' = tsk_tgid tsk"
  shows "refs' = refs - 1 \<and> r = SUCCESS \<and> kstate_inv e s' \<and>
    (\<forall>g. g \<noteq> tsk_tgid tsk \<longrightarrow> get_group e g s' = get_group e g s) \<and>
    do_create_fiber e s' tsk' sb ss ep arg = Done s' tsk' (- ESRCH) \<and>
    do_switch_to_fiber e s' tsk' nxt = Done s' tsk' (- ESRCH) \<and>
    do_fls_alloc e s' tsk' = Done s' tsk' (- ESRCH)"
proof -
  have wf: "hash_wf (hash_min e) tg_tgid (groups s)" using inv by (simp add: kstate_inv_def)
  have s': "s' = fst (cleanup_process e s (tsk_tgid tsk))" "refs' = refs - 1" "r = SUCCESS"
    using rel by (simp_all add: fibers_release_def)
  note lookup = cleanup_process_lookup [OF wf, of _ "tsk_tgid tsk", folded s'(1)]
  have "kstate_inv e s'" using cleanup_process_inv [OF inv, of "tsk_tgid tsk"] s' by simp
  then show ?thesis
    using s'(2,3) lookup same
    by (simp add: do_create_fiber_def do_switch_to_fiber_def do_fls_alloc_def find_current_def)
qed

theorem release_ends_process_witness:
  "do_switch_to_fiber demo_env (fst (fibers_release demo_env demo_state (demo_task 101 40) 2))
     (demo_task 100 50) 1 =
   Done (fst (fibers_release demo_env demo_state (demo_task 101 40) 2)) (demo_task 100 50) (- ESRCH)"
  using release_ends_process [OF demo_inv, of "demo_task 101 40" 2 _ _ _ "demo_task 100 50"]
  by (metis demo_task_ids(1) prod.collapse)

section \<open>Registration of the device\<close>

text \<open>An error number fits in an \<open>int\<close>: returning \<open>PTR_ERR\<close> as \<open>int\<close> keeps its sign.\<close>

lemma sint_error_code:
  assumes "- 4096 < sint (err :: c_long)" and "sint err < 0"
  shows "sint (ucast err :: c_int) = sint err"
proof -
  have "(word_of_int (sint err) :: c_int) = ucast err"
    by (rule bit_word_eqI) (simp add: bit_ucast_iff bit_simps sint_uint bit_signed_take_bit_iff min_def)
  then have "sint (ucast err :: c_int) = sint (word_of_int (sint err) :: c_int)" by simp
  also have "\<dots> = signed_take_bit 31 (sint err)" unfolding sint_sbintrunc' by simp
  also have "\<dots> = sint err" using assms by (intro signed_take_bit_int_eq_self) simp_all
  finally show ?thesis .
qed

text \<open>
  Registration is all or nothing. When the kernel's calls fail only with negative error
  numbers, \<open>fibers_register_device\<close> returns 0 with number, class and device registered
  once more, or a negative error with all three counts as before.
\<close>

lemma register_device_all_or_nothing:
  assumes "\<And>err. class_create d = ERR_PTR err \<or> device_create d = ERR_PTR err \<Longrightarrow>
      - 4096 < sint err \<and> sint err < 0"
    and "class_create d \<noteq> NULL" and "fibers_register_device d g = (g', r)"
  shows "(r = SUCCESS \<and> chrdevs g' = chrdevs g + 1 \<and> classes g' = classes g + 1 \<and>
      devices g' = devices g + 1 \<and> fibers_device_class g' = Valid) \<or>
    (sint r < 0 \<and> chrdevs g' = chrdevs g \<and> classes g' = classes g \<and> devices g' = devices g)"
proof -
  consider (no_number) "sint (register_chrdev d) < 0"
    | (no_class) err where "\<not> sint (register_chrdev d) < 0" "class_create d = ERR_PTR err"
    | (no_device) err where "\<not> sint (register_chrdev d) < 0" "class_create d = Valid" "device_create d = ERR_PTR err"
    | (all) "\<not> sint (register_chrdev d) < 0" "class_create d = Valid" "\<not> IS_ERR (device_create d)"
    using assms(2) by (cases "class_create d"; cases "device_create d") (auto simp: IS_ERR_def)
  then show ?thesis
  proof cases
    case (no_class err)
    then show ?thesis using assms(1) [of err] assms(3) sint_error_code [of err]
      by (auto simp: registration_defs)
  next
    case (no_device err)
    then show ?thesis using assms(1) [of err] assms(3) sint_error_code [of err]
      by (auto simp: registration_defs)
  qed (use assms(3) in \<open>auto simp: registration_defs IS_ERR_def\<close>)
qed

lemma register_device_all_or_nothing_witness:
  "snd (fibers_register_device \<lparr>register_chrdev = 240, class_create = Valid, device_create = ERR_PTR (- 12)\<rparr>
     \<lparr>fibers_device_major = 0, fibers_device = NULL, fibers_device_class = NULL,
      chrdevs = 0, classes = 0, devices = 0\<rparr>) = - 12 \<and>
   classes (fst (fibers_register_device
     \<lparr>register_chrdev = 240, class_create = Valid, device_create = ERR_PTR (- 12)\<rparr>
     \<lparr>fibers_device_major = 0, fibers_device = NULL, fibers_device_class = NULL,
      chrdevs = 0, classes = 0, devices = 0\<rparr>)) = 0"
proof -
  let ?d = "\<lparr>register_chrdev = 240, class_create = Valid, device_create = ERR_PTR (- 12)\<rparr>"
  let ?g = "\<lparr>fibers_device_major = 0, fibers_device = NULL, fibers_device_class = NULL,
      chrdevs = 0, classes = 0, devices = 0\<rparr>"
  have r: "snd (fibers_register_device ?d ?g) = - 12" by (simp add: registration_defs IS_ERR_def)
  have neg: "- 4096 < sint err \<and> sint err < 0"
    if "class_create ?d = ERR_PTR err \<or> device_create ?d = ERR_PTR err" for err using that by auto
  have "class_create ?d \<noteq> NULL" by simp
  from register_device_all_or_nothing [OF neg this prod.collapse [symmetric], of ?g] r
  show ?thesis by auto
qed

text \<open>
  Unregistering takes the class back twice. \<open>class_destroy\<close> itself unregisters the
  class that \<open>class_unregister\<close> has just unregistered, so after a successful registration
  and an unregistration the number and the device are back where they were and the class
  has been unregistered once more often than it was registered.
\<close>

lemma unregister_device_twice:
  assumes "fibers_register_device d g = (g1, SUCCESS)" and "class_create d = Valid"
    and "\<not> IS_ERR (device_create d)"
  shows "\<exists>g2. fibers_unregister_device g1 = Some (g2, SUCCESS) \<and> chrdevs g2 = chrdevs g \<and>
    devices g2 = devices g \<and> classes g2 = classes g - 1"
  using assms by (auto simp: registration_defs fibers_unregister_device_def split: if_splits)

theorem unregister_device_twice_witness:
  "\<exists>g1 g2. fibers_register_device \<lparr>register_chrdev = 240, class_create = Valid, device_create = Valid\<rparr>
     \<lparr>fibers_device_major = 0, fibers_device = NULL, fibers_device_class = NULL,
      chrdevs = 0, classes = 0, devices = 0\<rparr> = (g1, SUCCESS) \<and>
   fibers_unregister_device g1 = Some (g2, SUCCESS) \<and> classes g2 = - 1"
proof -
  let ?d = "\<lparr>register_chrdev = 240, class_create = Valid, device_create = Valid\<rparr>"
  let ?g = "\<lparr>fibers_device_major = 0, fibers_device = NULL, fibers_device_class = NULL,
      chrdevs = 0, classes = 0, devices = 0\<rparr>"
  have "\<exists>g1. fibers_register_device ?d ?g = (g1, SUCCESS)" by (simp add: registration_defs IS_ERR_def)
  then obtain g1 where g1: "fibers_register_device ?d ?g = (g1, SUCCESS)" by blast
  show ?thesis using unregister_device_twice [OF g1] g1 by (auto simp: IS_ERR_def)
qed

end
