(* ===== verification/Probes.thy ===== *)
theory Probes
  imports Proc Device
begin

text \<open>
  The probes on the proc file system, \<open>fibers/probes.c\<close>, and loading and unloading the
  module, \<open>fibers/module.c\<close>.

  When the kernel has listed or searched the directory of a process, a return probe calls
  the kernel's own functions again with a pointer before the table \<open>fibers_dir\<close>, so that
  the position that the kernel has reached falls on its only entry. A pointer into the
  table is the index of the entry it points to; the call of the kernel's function is the
  value the handler produces. What the kernel does with a table is documented by its
  source (\<open>fs/proc/base.c\<close>) and is a hypothesis of the properties: a listing visits the
  indices from the position less 2 to the end, a search all indices from the start.
\<close>

section \<open>Data of the probes\<close>

definition fibers_dir :: "pid_entry list" where
  "fibers_dir = [DIR ''fibers'' (S_IRUGO OR S_IXUGO) Fibers_iops Fibers_fops]"

lemma fibers_dir_entry:
  "fibers_dir = [\<lparr>pe_name = Some ''fibers'', pe_len = 6, pe_mode = 0x416D, pe_iop = Fibers_iops, pe_fop = Fibers_fops\<rparr>]"
  by (simp add: fibers_dir_def DIR_def NOD_def)

record tgid_lookup_data =
  ld_dentry :: addr
  ld_inode :: addr

record tgid_dir_data =
  dd_file :: addr
  dd_ctx :: addr

text \<open>What the handlers read of the kernel's objects behind the pointers.\<close>

record probe_env =
  get_proc_task :: "addr \<Rightarrow> pid_t option"
  file_inode :: "addr \<Rightarrow> addr"
  ctx_pos :: "addr \<Rightarrow> c_long"

datatype probe_call = Pident_lookup addr addr int c_int | Pident_readdir addr addr int c_int

section \<open>The handlers\<close>

definition entry_handler_lookup :: "pt_regs \<Rightarrow> tgid_lookup_data \<times> c_int" where
  "entry_handler_lookup regs = (\<lparr>ld_dentry = regs_si regs, ld_inode = regs_di regs\<rparr>, 0)"

definition handler_lookup ::
    "kenv \<Rightarrow> probe_env \<Rightarrow> kstate \<Rightarrow> c_int \<Rightarrow> tgid_lookup_data \<Rightarrow> probe_call list option" where
  "handler_lookup e k s nents data =
     (case get_proc_task k (ld_inode data) of
        None \<Rightarrow> None
      | Some tgid \<Rightarrow>
        (case get_group e tgid s of
           None \<Rightarrow> Some []
         | Some tg \<Rightarrow>
           (if nents = 0 then Some []
            else (let pos = nents
                  in Some [Pident_lookup (ld_inode data) (ld_dentry data) (- uint (pos - 2)) (pos - 1)]))))"

definition entry_handler_readdir :: "pt_regs \<Rightarrow> tgid_dir_data \<times> c_int" where
  "entry_handler_readdir regs = (\<lparr>dd_file = regs_di regs, dd_ctx = regs_si regs\<rparr>, 0)"

text \<open>The result is the new value of the global \<open>nents\<close> and the calls made.\<close>

definition handler_readdir ::
    "kenv \<Rightarrow> probe_env \<Rightarrow> kstate \<Rightarrow> c_int \<Rightarrow> tgid_dir_data \<Rightarrow> (c_int \<times> probe_call list) option" where
  "handler_readdir e k s nents data =
     (let task = get_proc_task k (file_inode k (dd_file data));
          nents1 = (if nents = 0 then ucast (ctx_pos k (dd_ctx data)) else nents)
      in (case task of
            None \<Rightarrow> None
          | Some tgid \<Rightarrow>
            (case get_group e tgid s of
               None \<Rightarrow> Some (nents1, [])
             | Some tg \<Rightarrow>
               (let pos = nents1
                in Some (nents1,
                     [Pident_readdir (dd_file data) (dd_ctx data) (- uint (pos - 2)) (pos - 1)])))))"

section \<open>Registration of the probes\<close>

record proc_kernel_syms =
  proc_pident_readdir :: addr
  proc_pident_lookup :: addr
  proc_setattr :: addr
  pid_getattr :: addr

record kretprobe =
  krp_entry_handler :: string
  krp_handler :: string
  krp_data_size :: nat
  krp_symbol_name :: string

record probes =
  pr_syms :: proc_kernel_syms
  pr_iops_getattr :: addr
  pr_iops_setattr :: addr
  pr_readdir_krp :: kretprobe
  pr_lookup_krp :: kretprobe
  pr_registered :: "string list"

text \<open>
  \<open>kallsyms_lookup_name\<close> is a parameter, and so is which registrations of a probe succeed;
  the module looks at neither result.
\<close>

definition register_kretprobe :: "(string \<Rightarrow> bool) \<Rightarrow> kretprobe \<Rightarrow> probes \<Rightarrow> probes" where
  "register_kretprobe ok krp p =
     (if ok (krp_symbol_name krp) then p\<lparr>pr_registered := krp_symbol_name krp # pr_registered p\<rparr> else p)"

definition unregister_kretprobe :: "kretprobe \<Rightarrow> probes \<Rightarrow> probes" where
  "unregister_kretprobe krp p = p\<lparr>pr_registered := removeAll (krp_symbol_name krp) (pr_registered p)\<rparr>"

definition fibers_register_kretprobe ::
    "(string \<Rightarrow> addr) \<Rightarrow> (string \<Rightarrow> bool) \<Rightarrow> probes \<Rightarrow> probes \<times> c_int" where
  "fibers_register_kretprobe kallsyms_lookup_name ok p =
     (let syms = \<lparr>proc_pident_readdir = kallsyms_lookup_name ''proc_pident_readdir'',
                  proc_pident_lookup = kallsyms_lookup_name ''proc_pident_lookup'',
                  proc_setattr = kallsyms_lookup_name ''proc_setattr'',
                  pid_getattr = kallsyms_lookup_name ''pid_getattr''\<rparr>;
          p1 = p\<lparr>pr_syms := syms, pr_iops_getattr := pid_getattr syms, pr_iops_setattr := proc_setattr syms,
                 pr_readdir_krp := \<lparr>krp_entry_handler = ''entry_handler_readdir'',
                   krp_handler = ''handler_readdir'', krp_data_size = 16,
                   krp_symbol_name = ''proc_tgid_base_readdir''\<rparr>,
                 pr_lookup_krp := \<lparr>krp_entry_handler = ''entry_handler_lookup'',
                   krp_handler = ''handler_lookup'', krp_data_size = 16,
                   krp_symbol_name = ''proc_tgid_base_lookup''\<rparr>\<rparr>;
          p2 = register_kretprobe ok (pr_readdir_krp p1) p1;
          p3 = register_kretprobe ok (pr_lookup_krp p2) p2
      in (p3, SUCCESS))"

definition fibers_unregister_kretprobe :: "probes \<Rightarrow> probes \<times> c_int" where
  "fibers_unregister_kretprobe p =
     (unregister_kretprobe (pr_lookup_krp p) (unregister_kretprobe (pr_readdir_krp p) p), SUCCESS)"

section \<open>Loading and unloading\<close>

record module =
  m_k :: kstate
  m_dev :: devstate
  m_probes :: probes

definition fibers_init_module ::
    "devenv \<Rightarrow> (string \<Rightarrow> addr) \<Rightarrow> (string \<Rightarrow> bool) \<Rightarrow> module \<Rightarrow> module \<times> c_int" where
  "fibers_init_module d kallsyms ok g =
     (let g1 = g\<lparr>m_dev := fst (fibers_register_device d (m_dev g))\<rparr>;
          g2 = g1\<lparr>m_probes := fst (fibers_register_kretprobe kallsyms ok (m_probes g1))\<rparr>
      in (g2, SUCCESS))"

definition fibers_exit_module :: "kenv \<Rightarrow> module \<Rightarrow> module option" where
  "fibers_exit_module e g =
     (let g1 = g\<lparr>m_k := fst (cleanup_all e (m_k g))\<rparr>;
          g2 = g1\<lparr>m_probes := fst (fibers_unregister_kretprobe (m_probes g1))\<rparr>
      in (case fibers_unregister_device (m_dev g2) of
            None \<Rightarrow> None
          | Some (d, _) \<Rightarrow> Some (g2\<lparr>m_dev := d\<rparr>)))"

section \<open>Arithmetic of the position\<close>

lemma uint_ucast_pos:
  assumes "0 \<le> sint (p :: c_long)" and "sint p < 2 ^ 31"
  shows "uint (ucast p :: c_int) = sint p"
proof -
  have "uint p = sint p" using assms(1) by (rule uint_eq_sint)
  then show ?thesis using assms by (simp add: uint_up_ucast unsigned_ucast_eq take_bit_int_eq_self)
qed

lemma uint_minus_small:
  assumes "uint k \<le> uint (x :: c_int)"
  shows "uint (x - k) = uint x - uint k"
  using assms by (simp add: uint_sub_lem [THEN iffD1])

lemma pos_bounds:
  assumes "2 \<le> sint (p :: c_long)" and "sint p < 2 ^ 31"
  shows "uint (ucast p - 2 :: c_int) = sint p - 2" and "uint (ucast p - 1 :: c_int) = sint p - 1"
    and "(ucast p :: c_int) \<noteq> 0"
proof -
  have u: "uint (ucast p :: c_int) = sint p" using assms by (intro uint_ucast_pos) simp_all
  show "uint (ucast p - 2 :: c_int) = sint p - 2" and "uint (ucast p - 1 :: c_int) = sint p - 1"
    using assms u uint_minus_small [of 2 "ucast p"] uint_minus_small [of 1 "ucast p"] by simp_all
  show "(ucast p :: c_int) \<noteq> 0" using u assms by auto
qed

lemma handler_readdir_call:
  assumes "get_proc_task k (file_inode k (dd_file data)) = Some g" and "get_group e g s = Some tg"
    and "(if nents = 0 then ucast (ctx_pos k (dd_ctx data)) else nents) = (ucast q :: c_int)"
    and "2 \<le> sint (q :: c_long)" and "sint q < 2 ^ 31"
  shows "\<exists>n. handler_readdir e k s nents data =
      Some (ucast q, [Pident_readdir (dd_file data) (dd_ctx data) (- (sint q - 2)) n]) \<and> uint n = sint q - 1"
  using assms pos_bounds [OF assms(4,5)] by (simp add: handler_readdir_def Let_def)

section \<open>Properties\<close>

text \<open>
  C39: A listing of the directory of a process shows \<open>fibers\<close> exactly once. When the kernel
  has reached the position \<open>p\<close> (less than 2 to the 31) and the recorded position is \<open>p\<close> or
  not set, the probe makes the kernel visit index 0 of \<open>fibers_dir\<close>, its only entry, and no
  other; when the listing continues after that entry, nothing more is visited.
\<close>

theorem readdir_shows_fibers_once:
  assumes doc: "\<And>b n p. 2 \<le> sint p \<Longrightarrow> visits b n p = [b + (sint p - 2) .. b + uint n - 1]"
    and task: "get_proc_task k (file_inode k (dd_file data)) = Some g" "get_group e g s = Some tg"
    and pos: "p = ctx_pos k (dd_ctx data)" "2 \<le> sint (p :: c_long)" "sint p < 2 ^ 31"
    and nents: "nents = 0 \<or> nents = ucast p"
  shows "\<exists>b n. handler_readdir e k s nents data =
      Some (ucast p, [Pident_readdir (dd_file data) (dd_ctx data) b n]) \<and>
    visits b n p = [0] \<and> visits b n (p + 1) = [] \<and> length fibers_dir = 1"
proof -
  have "(if nents = 0 then ucast (ctx_pos k (dd_ctx data)) else nents) = (ucast p :: c_int)"
    using nents pos by auto
  from handler_readdir_call [OF task this pos(2,3)] obtain n where
    call: "handler_readdir e k s nents data =
      Some (ucast p, [Pident_readdir (dd_file data) (dd_ctx data) (- (sint p - 2)) n])"
    and n: "uint n = sint p - 1" by blast
  have "sint (p + 1) = sint p + 1"
  proof -
    have "int (unat p) = sint p" using pos by (intro unat_eq_sint) simp
    then have "unat p < 2 ^ 31"
      unfolding of_nat_less_iff [where ?'a = int, symmetric] using pos(3) by simp
    then have "unat (p + 1) = Suc (unat p)" by (simp add: unat_word_ariths)
    then show ?thesis
      using sint_eq_unat [of "p + 1"] \<open>unat p < 2 ^ 31\<close> \<open>int (unat p) = sint p\<close> by simp
  qed
  then have "visits (- (sint p - 2)) n p = [0]" "visits (- (sint p - 2)) n (p + 1) = []"
    using doc [of p] doc [of "p + 1"] pos n by (simp_all add: upto.simps)
  with call show ?thesis by (auto simp: fibers_dir_def)
qed

text \<open>What the kernel's listing visits, as a function.\<close>

definition kernel_visits :: "int \<Rightarrow> c_int \<Rightarrow> c_long \<Rightarrow> int list" where
  "kernel_visits b n p = [b + (sint p - 2) .. b + uint n - 1]"

definition demo_probe_env :: "c_long \<Rightarrow> probe_env" where
  "demo_probe_env p = \<lparr>get_proc_task = (\<lambda>_. Some 100), file_inode = id, ctx_pos = (\<lambda>_. p)\<rparr>"

theorem readdir_shows_fibers_once_witness:
  "\<exists>b n. handler_readdir demo_env (demo_probe_env 50) demo_state 0 \<lparr>dd_file = 1, dd_ctx = 2\<rparr> =
      Some (50, [Pident_readdir 1 2 b n]) \<and> kernel_visits b n 50 = [0]"
  using readdir_shows_fibers_once [of kernel_visits "demo_probe_env 50" "\<lparr>dd_file = 1, dd_ctx = 2\<rparr>" 100
      demo_env demo_state demo_group 50 0] demo_get_group
  by (simp add: demo_probe_env_def kernel_visits_def) blast

text \<open>
  A first listing that stops early hides the directory for good. The position \<open>q\<close> of
  the first listing is recorded once, even if its buffer was full before the end; every
  later listing that reaches a position beyond \<open>q\<close> visits no entry of \<open>fibers_dir\<close>.
\<close>

lemma partial_first_listing_hides_fibers:
  assumes doc: "\<And>b n p. 2 \<le> sint p \<Longrightarrow> visits b n p = [b + (sint p - 2) .. b + uint n - 1]"
    and task: "get_proc_task k (file_inode k (dd_file data)) = Some g" "get_group e g s = Some tg"
    and task1: "get_proc_task k1 (file_inode k1 (dd_file data1)) = Some g1"
    and early: "q = ctx_pos k1 (dd_ctx data1)" "2 \<le> sint (q :: c_long)" "sint q < 2 ^ 31"
    and later: "p = ctx_pos k (dd_ctx data)" "sint q < sint p"
  shows "\<exists>calls b n. handler_readdir e k1 s1 0 data1 = Some (ucast q, calls) \<and>
    handler_readdir e k s (ucast q) data =
      Some (ucast q, [Pident_readdir (dd_file data) (dd_ctx data) b n]) \<and>
    visits b n p = []"
proof -
  have first: "\<exists>calls. handler_readdir e k1 s1 0 data1 = Some (ucast q, calls)"
    using task1 early(1) by (simp add: handler_readdir_def Let_def split: option.split)
  have "(if (ucast q :: c_int) = 0 then ucast (ctx_pos k (dd_ctx data)) else ucast q) = (ucast q :: c_int)"
    using pos_bounds(3) [OF early(2,3)] by simp
  from handler_readdir_call [OF task this early(2,3)] obtain n where
    call: "handler_readdir e k s (ucast q) data =
      Some (ucast q, [Pident_readdir (dd_file data) (dd_ctx data) (- (sint q - 2)) n])"
    and n: "uint n = sint q - 1" by blast
  have "visits (- (sint q - 2)) n p = []" using doc [of p] early later n by simp
  with first call show ?thesis by blast
qed

theorem partial_first_listing_hides_fibers_witness:
  "\<exists>calls b n. handler_readdir demo_env (demo_probe_env 20) demo_state 0 \<lparr>dd_file = 1, dd_ctx = 2\<rparr> =
      Some (20, calls) \<and>
    handler_readdir demo_env (demo_probe_env 50) demo_state 20 \<lparr>dd_file = 1, dd_ctx = 2\<rparr> =
      Some (20, [Pident_readdir 1 2 b n]) \<and> kernel_visits b n 50 = []"
  using partial_first_listing_hides_fibers [of kernel_visits "demo_probe_env 50" "\<lparr>dd_file = 1, dd_ctx = 2\<rparr>"
      100 demo_env demo_state demo_group "demo_probe_env 20" "\<lparr>dd_file = 1, dd_ctx = 2\<rparr>" 100 20 50 demo_state]
    demo_get_group
  by (simp add: demo_probe_env_def kernel_visits_def)

text \<open>
  A search in the directory of a process reads memory before \<open>fibers_dir\<close>. With the
  recorded position \<open>p\<close> the handler gives the kernel a range that ends with the entry of
  \<open>fibers_dir\<close> but starts \<open>p - 2\<close> entries before it.
\<close>

lemma lookup_scans_before_table:
  assumes task: "get_proc_task k (ld_inode data) = Some g" "get_group e g s = Some tg"
    and pos: "2 \<le> sint (p :: c_long)" "sint p < 2 ^ 31"
  shows "\<exists>b n. handler_lookup e k s (ucast p) data =
      Some [Pident_lookup (ld_inode data) (ld_dentry data) b n] \<and>
    [b .. b + uint n - 1] = [- (sint p - 2) .. 0]"
  using task pos_bounds [OF pos] by (simp add: handler_lookup_def Let_def)

theorem lookup_scans_before_table_witness:
  "\<exists>b n. handler_lookup demo_env (demo_probe_env 0) demo_state 50 \<lparr>ld_dentry = 1, ld_inode = 2\<rparr> =
      Some [Pident_lookup 2 1 b n] \<and> [b .. b + uint n - 1] = [- 48 .. 0]"
  using lookup_scans_before_table [of "demo_probe_env 0" "\<lparr>ld_dentry = 1, ld_inode = 2\<rparr>" 100 demo_env
      demo_state demo_group 50] demo_get_group
  by (simp add: demo_probe_env_def)

text \<open>
  Loading reports success whatever fails. When the kernel gives no device number (or no
  class), \<open>fibers_init_module\<close> still returns 0, with no device registered; unloading such a
  module faults, since it unregisters a class that does not exist.
\<close>

lemma failed_load_reported_as_success:
  assumes "sint (register_chrdev d) < 0" and "fibers_device_class (m_dev g) = NULL"
  shows "\<exists>g'. fibers_init_module d kallsyms ok g = (g', SUCCESS) \<and>
    chrdevs (m_dev g') = chrdevs (m_dev g) \<and> classes (m_dev g') = classes (m_dev g) \<and>
    devices (m_dev g') = devices (m_dev g) \<and> fibers_exit_module e g' = None"
  using assms
  by (auto simp: fibers_init_module_def fibers_exit_module_def fibers_register_device_def
      fibers_unregister_device_def Let_def)

definition demo_module :: module where
  "demo_module = \<lparr>m_k = init_kstate,
     m_dev = \<lparr>fibers_device_major = 0, fibers_device = NULL, fibers_device_class = NULL,
       chrdevs = 0, classes = 0, devices = 0\<rparr>,
     m_probes = \<lparr>pr_syms = \<lparr>proc_pident_readdir = 0, proc_pident_lookup = 0, proc_setattr = 0, pid_getattr = 0\<rparr>,
       pr_iops_getattr = 0, pr_iops_setattr = 0,
       pr_readdir_krp = \<lparr>krp_entry_handler = [], krp_handler = [], krp_data_size = 0, krp_symbol_name = []\<rparr>,
       pr_lookup_krp = \<lparr>krp_entry_handler = [], krp_handler = [], krp_data_size = 0, krp_symbol_name = []\<rparr>,
       pr_registered = []\<rparr>\<rparr>"

theorem failed_load_reported_as_success_witness:
  "\<exists>g'. fibers_init_module \<lparr>register_chrdev = - 16, class_create = Valid, device_create = Valid\<rparr>
      (\<lambda>_. 0) (\<lambda>_. True) demo_module = (g', SUCCESS) \<and> fibers_exit_module demo_env g' = None"
  using failed_load_reported_as_success [of "\<lparr>register_chrdev = - 16, class_create = Valid, device_create = Valid\<rparr>"
      demo_module "\<lambda>_. 0" "\<lambda>_. True" demo_env]
  by (auto simp: demo_module_def)

end
