(* ===== verification/Double.thy ===== *)
theory Double
  imports Complex_Main
begin

text \<open>
  Double precision numbers, as the C code of the testbed uses them. A number is finite (a
  real), infinite or not a number; the two zeros are not distinguished. An operation on
  finite numbers returns the exact result rounded: the rounding function of the machine is
  the first argument of every operation (IEEE 754 defines the operations this way), and
  what a property relies on of it is a hypothesis. Comparisons with a number that is not
  one are false. A cast to an integer type truncates towards zero; out of the range of the
  type it is undefined in C, which is the result \<open>None\<close>.
\<close>

datatype double = Fin real | Inf bool | NaN

type_synonym rounding = "real \<Rightarrow> double"

section \<open>Operations\<close>

fun fneg :: "double \<Rightarrow> double" where
  "fneg (Fin a) = Fin (- a)"
| "fneg (Inf s) = Inf (\<not> s)"
| "fneg NaN = NaN"

fun fadd :: "rounding \<Rightarrow> double \<Rightarrow> double \<Rightarrow> double" where
  "fadd rnd (Fin a) (Fin b) = rnd (a + b)"
| "fadd rnd (Fin a) (Inf t) = Inf t"
| "fadd rnd (Inf s) (Fin b) = Inf s"
| "fadd rnd (Inf s) (Inf t) = (if s = t then Inf s else NaN)"
| "fadd rnd _ _ = NaN"

definition fsub :: "rounding \<Rightarrow> double \<Rightarrow> double \<Rightarrow> double" where
  "fsub rnd x y = fadd rnd x (fneg y)"

fun fmul :: "rounding \<Rightarrow> double \<Rightarrow> double \<Rightarrow> double" where
  "fmul rnd (Fin a) (Fin b) = rnd (a * b)"
| "fmul rnd (Fin a) (Inf t) = (if a = 0 then NaN else Inf (t \<noteq> (a < 0)))"
| "fmul rnd (Inf s) (Fin b) = (if b = 0 then NaN else Inf (s \<noteq> (b < 0)))"
| "fmul rnd (Inf s) (Inf t) = Inf (s \<noteq> t)"
| "fmul rnd _ _ = NaN"

fun fdiv :: "rounding \<Rightarrow> double \<Rightarrow> double \<Rightarrow> double" where
  "fdiv rnd (Fin a) (Fin b) =
     (if b = 0 then (if a = 0 then NaN else Inf (a < 0)) else rnd (a / b))"
| "fdiv rnd (Fin a) (Inf t) = Fin 0"
| "fdiv rnd (Inf s) (Fin b) = Inf (s \<noteq> (b < 0))"
| "fdiv rnd (Inf s) (Inf t) = NaN"
| "fdiv rnd _ _ = NaN"

fun flt :: "double \<Rightarrow> double \<Rightarrow> bool" where
  "flt (Fin a) (Fin b) \<longleftrightarrow> a < b"
| "flt (Fin a) (Inf t) \<longleftrightarrow> \<not> t"
| "flt (Inf s) (Fin b) \<longleftrightarrow> s"
| "flt (Inf s) (Inf t) \<longleftrightarrow> s \<and> \<not> t"
| "flt _ _ \<longleftrightarrow> False"

fun fle :: "double \<Rightarrow> double \<Rightarrow> bool" where
  "fle (Fin a) (Fin b) \<longleftrightarrow> a \<le> b"
| "fle (Fin a) (Inf t) \<longleftrightarrow> \<not> t"
| "fle (Inf s) (Fin b) \<longleftrightarrow> s"
| "fle (Inf s) (Inf t) \<longleftrightarrow> s \<or> \<not> t"
| "fle _ _ \<longleftrightarrow> False"

section \<open>Conversions\<close>

definition trunc :: "real \<Rightarrow> int" where
  "trunc a = (if 0 \<le> a then \<lfloor>a\<rfloor> else \<lceil>a\<rceil>)"

fun to_integer :: "nat \<Rightarrow> double \<Rightarrow> int option" where
  "to_integer bits (Fin a) =
     (if - (2 ^ (bits - 1)) \<le> trunc a \<and> trunc a < 2 ^ (bits - 1) then Some (trunc a) else None)"
| "to_integer bits (Inf s) = None"
| "to_integer bits NaN = None"

text \<open>The remainder of C: it has the sign of the dividend.\<close>

definition c_rem :: "int \<Rightarrow> int \<Rightarrow> int" where
  "c_rem a b = (if a < 0 then - ((- a) mod b) else a mod b)"

section \<open>Order\<close>

definition ordered :: "double \<Rightarrow> bool" where
  "ordered x \<longleftrightarrow> x \<noteq> NaN"

lemma ordered_simps [simp]: "ordered (Fin a)" "ordered (Inf s)" "\<not> ordered NaN"
  by (simp_all add: ordered_def)

lemma flt_not_fle: "ordered x \<Longrightarrow> ordered y \<Longrightarrow> flt x y \<longleftrightarrow> \<not> fle y x"
  by (cases x; cases y) auto

lemma fle_refl [simp]: "ordered x \<Longrightarrow> fle x x"
  by (cases x) auto

lemma fle_trans: "fle x y \<Longrightarrow> fle y z \<Longrightarrow> fle x z"
  by (cases x; cases y; cases z) auto

lemma fle_total: "ordered x \<Longrightarrow> ordered y \<Longrightarrow> fle x y \<or> fle y x"
  by (cases x; cases y) auto

lemma flt_imp_fle: "flt x y \<Longrightarrow> fle x y"
  by (cases x; cases y) auto

lemma flt_trans_fle: "fle x y \<Longrightarrow> flt y z \<Longrightarrow> flt x z"
  by (cases x; cases y; cases z) auto

lemma c_rem_nonneg: "0 \<le> a \<Longrightarrow> c_rem a b = a mod b"
  by (simp add: c_rem_def)

section \<open>Rounding\<close>

text \<open>
  What IEEE 754 promises of the rounding of the machine: it is monotone, it is exact on
  zero and one, and in a range of moderate numbers its relative error is at most one part
  in two to the 53.
\<close>

definition ieee_rounding :: "rounding \<Rightarrow> bool" where
  "ieee_rounding rnd \<longleftrightarrow> (\<forall>x y. x \<le> y \<longrightarrow> fle (rnd x) (rnd y)) \<and> rnd 0 = Fin 0 \<and> rnd 1 = Fin 1 \<and>
     (\<forall>x. 1 / 2 ^ 100 \<le> \<bar>x\<bar> \<and> \<bar>x\<bar> \<le> 2 ^ 100 \<longrightarrow> (\<exists>y. rnd x = Fin y \<and> \<bar>y - x\<bar> \<le> \<bar>x\<bar> / 2 ^ 53))"

lemma ieee_rounding_exact: "ieee_rounding Fin"
  by (simp add: ieee_rounding_def)

lemma ieee_mono: "ieee_rounding rnd \<Longrightarrow> x \<le> y \<Longrightarrow> fle (rnd x) (rnd y)"
  by (simp add: ieee_rounding_def)

lemma ieee_close:
  assumes "ieee_rounding rnd" "1 / 2 ^ 100 \<le> x" "x \<le> 2 ^ 100"
  obtains y where "rnd x = Fin y" "\<bar>y - x\<bar> \<le> x / 2 ^ 53"
  using assms unfolding ieee_rounding_def by (metis abs_of_nonneg dual_order.trans zero_le_divide_1_iff zero_le_numeral zero_le_power)

lemma ieee_nonneg: "ieee_rounding rnd \<Longrightarrow> 0 \<le> x \<Longrightarrow> fle (Fin 0) (rnd x)"
  by (metis ieee_rounding_def)

lemma ieee_le_one: "ieee_rounding rnd \<Longrightarrow> x \<le> 1 \<Longrightarrow> fle (rnd x) (Fin 1)"
  by (metis ieee_rounding_def)

end
