(* ===== verification/Calqueue.thy ===== *)
theory Calqueue
  imports Double "HOL-Library.Multiset"
begin

text \<open>
  The event queue of the testbed, \<open>libfibers/testbed/src/calqueue.c\<close>: a calendar queue. A
  year is divided into \<open>nbuckets\<close> buckets of width \<open>cwidth\<close>; an event is kept in the sorted
  list of the bucket its priority falls into, and dequeuing walks the buckets of the
  current year. When the queue grows or shrinks, a sample of events gives a new width and
  all events are copied to a calendar at the other end of the array.

  A linked list of events is a list. The array \<open>calq\<close> is a function on its indices; the
  calendar is the part that starts at \<open>firstsub\<close>. The results of the operations are an error
  or a value. The errors are a cast of a double that is out of range (undefined in C), an
  access outside the calendar, and the use of a null event. The operations that resize
  call each other; the resizing function is an argument of the layer below, and the number
  of nested resizings is bounded by fuel: a run that would need more is the error
  \<open>Out_of_fuel\<close>, which never happens with fuel of at least one. \<open>malloc\<close> is taken to
  succeed.
\<close>

section \<open>State\<close>

record 'a calqueue_node =
  priority :: double
  payload :: 'a

record 'a calqueue =
  calq :: "nat \<Rightarrow> 'a calqueue_node list"
  firstsub :: nat
  nbuckets :: nat
  qsize :: nat
  lastbucket :: int
  resize_enabled :: bool
  top_threshold :: int
  bot_threshold :: int
  lastprio :: double
  buckettop :: double
  cwidth :: double

abbreviation (input) CALQSPACE :: nat where "CALQSPACE \<equiv> 65536"
abbreviation (input) MAXNBUCKETS :: nat where "MAXNBUCKETS \<equiv> 32768"

datatype cq_error = Undefined_cast | Outside_calendar | Null_event | Out_of_fuel

fun res_bind :: "'e + 'a \<Rightarrow> ('a \<Rightarrow> 'e + 'b) \<Rightarrow> 'e + 'b" where
  "res_bind (Inl err) f = Inl err"
| "res_bind (Inr x) f = f x"

text \<open>The list of bucket \<open>i\<close>.\<close>

definition slot :: "'a calqueue \<Rightarrow> int \<Rightarrow> nat option" where
  "slot q i = (if 0 \<le> i \<and> i < int (nbuckets q) then Some (firstsub q + nat i) else None)"

section \<open>Initialisation\<close>

text \<open>
  The thresholds are doubles that hold small integers; \<open>(int)((double)n / 2)\<close> is \<open>n div 2\<close>.
\<close>

definition localinit ::
    "rounding \<Rightarrow> 'a calqueue \<Rightarrow> nat \<Rightarrow> nat \<Rightarrow> double \<Rightarrow> double \<Rightarrow> cq_error + 'a calqueue" where
  "localinit rnd q qbase nbucks bwidth startprio =
     (let q1 = q\<lparr>firstsub := qbase, cwidth := bwidth, nbuckets := nbucks, qsize := 0,
                 calq := (\<lambda>k. if qbase \<le> k \<and> k < qbase + nbucks then [] else calq q k),
                 lastprio := startprio\<rparr>
      in (case to_integer 64 (fdiv rnd startprio bwidth) of
            None \<Rightarrow> Inl Undefined_cast
          | Some n \<Rightarrow>
              Inr (q1\<lparr>lastbucket := c_rem n (int nbucks),
                      buckettop := fadd rnd (fmul rnd (rnd (of_int (n + 1))) bwidth)
                                     (fmul rnd (Fin (1 / 2)) bwidth),
                      bot_threshold := int nbucks div 2 - 2,
                      top_threshold := 2 * int nbucks\<rparr>)))"

definition calqueue_init :: "rounding \<Rightarrow> 'a calqueue \<Rightarrow> cq_error + 'a calqueue" where
  "calqueue_init rnd q =
     res_bind (localinit rnd q 0 2 (Fin 1) (Fin 0)) (\<lambda>q. Inr (q\<lparr>resize_enabled := True\<rparr>))"

section \<open>Inserting and removing without resizing\<close>

fun insert_walk :: "'a calqueue_node \<Rightarrow> 'a calqueue_node list \<Rightarrow> 'a calqueue_node list" where
  "insert_walk n [] = [n]"
| "insert_walk n (y # ys) = (if fle (priority y) (priority n) then y # insert_walk n ys else n # y # ys)"

fun insert_event :: "'a calqueue_node \<Rightarrow> 'a calqueue_node list \<Rightarrow> 'a calqueue_node list" where
  "insert_event n [] = [n]"
| "insert_event n (y # ys) =
     (if flt (priority n) (priority y) then n # y # ys else y # insert_walk n ys)"

definition put_node :: "rounding \<Rightarrow> 'a calqueue \<Rightarrow> double \<Rightarrow> 'a \<Rightarrow> cq_error + 'a calqueue" where
  "put_node rnd q p x =
     (case to_integer 32 (fdiv rnd p (cwidth q)) of
        None \<Rightarrow> Inl Undefined_cast
      | Some v \<Rightarrow>
          (case slot q (c_rem v (int (nbuckets q))) of
             None \<Rightarrow> Inl Outside_calendar
           | Some k \<Rightarrow>
               Inr (q\<lparr>calq := (calq q)(k := insert_event \<lparr>priority = p, payload = x\<rparr> (calq q k)),
                      qsize := qsize q + 1\<rparr>)))"

text \<open>
  The walk over the buckets: it finds a bucket whose first event lies before \<open>buckettop\<close>, or
  comes back to \<open>lastbucket\<close>.
\<close>

fun scan :: "nat \<Rightarrow> rounding \<Rightarrow> 'a calqueue \<Rightarrow> int \<Rightarrow> cq_error + ('a calqueue \<times> int option)" where
  "scan 0 rnd q i = Inl Out_of_fuel"
| "scan (Suc fuel) rnd q i =
     (case slot q i of
        None \<Rightarrow> Inl Outside_calendar
      | Some k \<Rightarrow>
          if calq q k \<noteq> [] \<and> flt (priority (hd (calq q k))) (buckettop q) then Inr (q, Some i)
          else
            (let i' = (if i + 1 = int (nbuckets q) then 0 else i + 1);
                 q' = q\<lparr>buckettop := fadd rnd (buckettop q) (cwidth q)\<rparr>
             in if i' = lastbucket q then Inr (q', None) else scan fuel rnd q' i'))"

fun direct_search :: "'a calqueue \<Rightarrow> nat list \<Rightarrow> (nat \<times> double) option \<Rightarrow> (nat \<times> double) option" where
  "direct_search q [] best = best"
| "direct_search q (i # is) best =
     (case calq q (firstsub q + i) of
        [] \<Rightarrow> direct_search q is best
      | e # _ \<Rightarrow>
          (case best of
             None \<Rightarrow> direct_search q is (Some (i, priority e))
           | Some (j, lowest) \<Rightarrow>
               if flt (priority e) lowest then direct_search q is (Some (i, priority e))
               else direct_search q is best))"

definition take_node :: "'a calqueue \<Rightarrow> int \<Rightarrow> cq_error + ('a calqueue \<times> 'a calqueue_node)" where
  "take_node q i =
     (case slot q i of
        None \<Rightarrow> Inl Outside_calendar
      | Some k \<Rightarrow>
          (case calq q k of
             [] \<Rightarrow> Inl Null_event
           | e # es \<Rightarrow>
               Inr (q\<lparr>lastbucket := i, lastprio := priority e, qsize := qsize q - 1,
                      calq := (calq q)(k := es)\<rparr>, e)))"

definition find_node :: "rounding \<Rightarrow> 'a calqueue \<Rightarrow> cq_error + ('a calqueue \<times> int)" where
  "find_node rnd q =
     res_bind (scan (nbuckets q) rnd q (lastbucket q))
       (\<lambda>(q1, found).
          (case found of
             Some i \<Rightarrow> Inr (q1, i)
           | None \<Rightarrow>
               (case direct_search q1 [0..<nbuckets q1] None of
                  None \<Rightarrow> Inl Outside_calendar
                | Some (i, lowest) \<Rightarrow> Inr (q1, int i))))"

section \<open>Operations that resize\<close>

text \<open>The resizing function is the first argument.\<close>

definition put_with ::
    "('a calqueue \<Rightarrow> nat \<Rightarrow> cq_error + 'a calqueue) \<Rightarrow> rounding \<Rightarrow> 'a calqueue \<Rightarrow> double \<Rightarrow> 'a \<Rightarrow>
     cq_error + 'a calqueue" where
  "put_with r rnd q p x =
     res_bind (put_node rnd q p x)
       (\<lambda>q1. if int (qsize q1) > top_threshold q1 \<and> nbuckets q1 < MAXNBUCKETS
             then r q1 (2 * nbuckets q1) else Inr q1)"

definition deq_with ::
    "('a calqueue \<Rightarrow> nat \<Rightarrow> cq_error + 'a calqueue) \<Rightarrow> rounding \<Rightarrow> 'a calqueue \<Rightarrow>
     cq_error + ('a calqueue \<times> 'a calqueue_node option)" where
  "deq_with r rnd q =
     (if qsize q = 0 then Inr (q, None)
      else res_bind (find_node rnd q)
        (\<lambda>(q1, i). res_bind (take_node q1 i)
          (\<lambda>(q2, e).
             if int (qsize q2) < bot_threshold q2
             then res_bind (r q2 (nbuckets q2 div 2)) (\<lambda>q3. Inr (q3, Some e))
             else Inr (q2, Some e))))"

fun sample ::
    "('a calqueue \<Rightarrow> nat \<Rightarrow> cq_error + 'a calqueue) \<Rightarrow> rounding \<Rightarrow> nat \<Rightarrow> 'a calqueue \<Rightarrow>
     cq_error + ('a calqueue \<times> 'a calqueue_node list)" where
  "sample r rnd 0 q = Inr (q, [])"
| "sample r rnd (Suc n) q =
     res_bind (deq_with r rnd q)
       (\<lambda>(q1, e). case e of
          None \<Rightarrow> Inl Null_event
        | Some e \<Rightarrow> res_bind (sample r rnd n q1) (\<lambda>(q2, es). Inr (q2, e # es)))"

fun put_all ::
    "('a calqueue \<Rightarrow> nat \<Rightarrow> cq_error + 'a calqueue) \<Rightarrow> rounding \<Rightarrow> 'a calqueue_node list \<Rightarrow> 'a calqueue \<Rightarrow>
     cq_error + 'a calqueue" where
  "put_all r rnd [] q = Inr q"
| "put_all r rnd (e # es) q =
     res_bind (put_with r rnd q (priority e) (payload e)) (put_all r rnd es)"

fun sum_diffs :: "rounding \<Rightarrow> double \<Rightarrow> 'a calqueue_node list \<Rightarrow> double" where
  "sum_diffs rnd s (x # y # ys) =
     sum_diffs rnd (fadd rnd s (fsub rnd (priority y) (priority x))) (y # ys)"
| "sum_diffs rnd s _ = s"

fun small_diffs :: "rounding \<Rightarrow> double \<Rightarrow> double \<times> nat \<Rightarrow> 'a calqueue_node list \<Rightarrow> double \<times> nat" where
  "small_diffs rnd average (s, j) (x # y # ys) =
     (let d = fsub rnd (priority y) (priority x)
      in small_diffs rnd average
           (if flt d (fmul rnd average (Fin 2)) then (fadd rnd s d, Suc j) else (s, j)) (y # ys))"
| "small_diffs rnd average a _ = a"

definition sampled_width :: "rounding \<Rightarrow> 'a calqueue_node list \<Rightarrow> double" where
  "sampled_width rnd temp =
     (let average = fdiv rnd (sum_diffs rnd (Fin 0) temp) (Fin (of_nat (length temp - 1)));
          (newaverage, j) = small_diffs rnd average (Fin 0, 0) temp
      in fmul rnd (fdiv rnd newaverage (Fin (of_nat j))) (Fin 3))"

definition nsamples :: "nat \<Rightarrow> nat" where
  "nsamples n = (let k = (if n \<le> 5 then n else 5 + n div 10) in if k > 25 then 25 else k)"

definition new_width ::
    "('a calqueue \<Rightarrow> nat \<Rightarrow> cq_error + 'a calqueue) \<Rightarrow> rounding \<Rightarrow> 'a calqueue \<Rightarrow>
     cq_error + ('a calqueue \<times> double)" where
  "new_width r rnd q =
     (if qsize q < 2 then Inr (q, Fin 1)
      else res_bind (sample r rnd (nsamples (qsize q)) (q\<lparr>resize_enabled := False\<rparr>))
        (\<lambda>(q1, temp). res_bind (put_all r rnd temp q1)
          (\<lambda>q2. Inr (q2\<lparr>lastbucket := lastbucket q, lastprio := lastprio q, buckettop := buckettop q,
                        resize_enabled := True\<rparr>, sampled_width rnd temp))))"

fun copy_buckets ::
    "('a calqueue \<Rightarrow> nat \<Rightarrow> cq_error + 'a calqueue) \<Rightarrow> rounding \<Rightarrow> nat \<Rightarrow> nat \<Rightarrow> 'a calqueue \<Rightarrow>
     cq_error + 'a calqueue" where
  "copy_buckets r rnd oldcalendar 0 q = Inr q"
| "copy_buckets r rnd oldcalendar (Suc i) q =
     res_bind (put_all r rnd (calq q (oldcalendar + i)) q) (copy_buckets r rnd oldcalendar i)"

primrec resize :: "nat \<Rightarrow> rounding \<Rightarrow> 'a calqueue \<Rightarrow> nat \<Rightarrow> cq_error + 'a calqueue" where
  "resize 0 rnd q newsize = (if \<not> resize_enabled q then Inr q else Inl Out_of_fuel)"
| "resize (Suc fuel) rnd q newsize =
     (if \<not> resize_enabled q then Inr q
      else res_bind (new_width (resize fuel rnd) rnd q)
        (\<lambda>(q1, bwidth). res_bind
          (localinit rnd q1 (if firstsub q1 = 0 then CALQSPACE - newsize else 0) newsize bwidth (lastprio q1))
          (copy_buckets (resize fuel rnd) rnd (firstsub q1) (nbuckets q1))))"

section \<open>The interface\<close>

definition calqueue_put :: "nat \<Rightarrow> rounding \<Rightarrow> 'a calqueue \<Rightarrow> double \<Rightarrow> 'a \<Rightarrow> cq_error + 'a calqueue" where
  "calqueue_put fuel rnd = put_with (resize fuel rnd) rnd"

definition calqueue_deq ::
    "nat \<Rightarrow> rounding \<Rightarrow> 'a calqueue \<Rightarrow> cq_error + ('a calqueue \<times> 'a calqueue_node option)" where
  "calqueue_deq fuel rnd = deq_with (resize fuel rnd) rnd"

definition calqueue_get ::
    "nat \<Rightarrow> rounding \<Rightarrow> 'a calqueue \<Rightarrow> cq_error + ('a calqueue \<times> 'a option)" where
  "calqueue_get fuel rnd q =
     res_bind (calqueue_deq fuel rnd q) (\<lambda>(q1, node). Inr (q1, map_option payload node))"

definition calqueue_empty :: "'a calqueue \<Rightarrow> bool" where
  "calqueue_empty q \<longleftrightarrow> qsize q = 0"

end
