(* ===== verification/Calqueue_Inv.thy ===== *)
theory Calqueue_Inv
  imports Calqueue
begin

text \<open>
  The invariant of the calendar queue and what its operations keep of it, for an arbitrary
  rounding function. The abstract value of a queue is the multiset of its events. A
  postcondition on a result allows the two errors that depend on the priorities and on the
  width (a cast that is undefined, a bucket outside the calendar); the errors \<open>Null_event\<close> and
  \<open>Out_of_fuel\<close> are excluded by every lemma below.
\<close>

section \<open>Postconditions\<close>

fun res_post :: "('a \<Rightarrow> bool) \<Rightarrow> cq_error + 'a \<Rightarrow> bool" where
  "res_post P (Inl err) \<longleftrightarrow> err = Undefined_cast \<or> err = Outside_calendar"
| "res_post P (Inr x) \<longleftrightarrow> P x"

lemma res_post_bind [simp]: "res_post P (res_bind m f) \<longleftrightarrow> res_post (\<lambda>x. res_post P (f x)) m"
  by (cases m) auto

lemma res_post_mono: "res_post Q m \<Longrightarrow> (\<And>x. Q x \<Longrightarrow> P x) \<Longrightarrow> res_post P m"
  by (cases m) auto

lemma res_post_bindI: "res_post Q m \<Longrightarrow> (\<And>x. Q x \<Longrightarrow> res_post P (f x)) \<Longrightarrow> res_post P (res_bind m f)"
  by (cases m) auto

lemma res_post_cases:
  "res_post P m \<Longrightarrow> m = Inl Undefined_cast \<or> m = Inl Outside_calendar \<or> (\<exists>x. m = Inr x \<and> P x)"
  by (cases m) auto

section \<open>The invariant\<close>

definition contents :: "(nat \<Rightarrow> 'a calqueue_node list) \<Rightarrow> nat \<Rightarrow> nat \<Rightarrow> 'a calqueue_node multiset" where
  "contents f b n = (\<Sum>i<n. mset (f (b + i)))"

definition events :: "'a calqueue \<Rightarrow> 'a calqueue_node multiset" where
  "events q = contents (calq q) (firstsub q) (nbuckets q)"

definition bucket_ok :: "'a calqueue_node list \<Rightarrow> bool" where
  "bucket_ok es \<longleftrightarrow> sorted_wrt (\<lambda>a b. fle (priority a) (priority b)) es \<and>
     (\<forall>e\<in>set es. \<exists>r. priority e = Fin r)"

definition calendar_size :: "nat \<Rightarrow> bool" where
  "calendar_size n \<longleftrightarrow> (\<exists>k. 1 \<le> k \<and> k \<le> 15 \<and> n = 2 ^ k)"

definition cq_shape :: "'a calqueue \<Rightarrow> bool" where
  "cq_shape q \<longleftrightarrow> calendar_size (nbuckets q) \<and>
     (firstsub q = 0 \<or> firstsub q + nbuckets q = CALQSPACE) \<and>
     top_threshold q = 2 * int (nbuckets q) \<and> bot_threshold q = int (nbuckets q) div 2 - 2"

definition cq_wf :: "'a calqueue \<Rightarrow> bool" where
  "cq_wf q \<longleftrightarrow> cq_shape q \<and> qsize q = size (events q) \<and>
     (\<forall>i < nbuckets q. bucket_ok (calq q (firstsub q + i)))"

text \<open>What an operation that does not resize leaves alone.\<close>

definition cq_frame :: "'a calqueue \<Rightarrow> 'a calqueue \<Rightarrow> bool" where
  "cq_frame q q' \<longleftrightarrow> firstsub q' = firstsub q \<and> nbuckets q' = nbuckets q \<and>
     top_threshold q' = top_threshold q \<and> bot_threshold q' = bot_threshold q \<and>
     cwidth q' = cwidth q \<and> resize_enabled q' = resize_enabled q \<and>
     (\<forall>k. k < firstsub q \<or> firstsub q + nbuckets q \<le> k \<longrightarrow> calq q' k = calq q k)"

lemma cq_frame_refl [simp]: "cq_frame q q"
  by (simp add: cq_frame_def)

lemma cq_frame_trans: "cq_frame q q' \<Longrightarrow> cq_frame q' q'' \<Longrightarrow> cq_frame q q''"
  by (simp add: cq_frame_def)

text \<open>Fields that do not matter to the invariant.\<close>

lemma cq_wf_buckettop [simp]: "cq_wf (q\<lparr>buckettop := b\<rparr>) = cq_wf q" "events (q\<lparr>buckettop := b\<rparr>) = events q"
  by (simp_all add: cq_wf_def cq_shape_def events_def)

lemma cq_wf_lastbucket [simp]: "cq_wf (q\<lparr>lastbucket := b\<rparr>) = cq_wf q" "events (q\<lparr>lastbucket := b\<rparr>) = events q"
  by (simp_all add: cq_wf_def cq_shape_def events_def)

lemma cq_wf_lastprio [simp]: "cq_wf (q\<lparr>lastprio := b\<rparr>) = cq_wf q" "events (q\<lparr>lastprio := b\<rparr>) = events q"
  by (simp_all add: cq_wf_def cq_shape_def events_def)

lemma cq_wf_resize_enabled [simp]:
  "cq_wf (q\<lparr>resize_enabled := b\<rparr>) = cq_wf q" "events (q\<lparr>resize_enabled := b\<rparr>) = events q"
  by (simp_all add: cq_wf_def cq_shape_def events_def)

lemma calendar_size_bounds: "calendar_size n \<Longrightarrow> 2 \<le> n \<and> n \<le> MAXNBUCKETS"
proof -
  assume "calendar_size n"
  then obtain k where k: "1 \<le> k" "k \<le> 15" "n = 2 ^ k" by (auto simp: calendar_size_def)
  have "(2::nat) ^ 1 \<le> 2 ^ k" by (rule power_increasing) (use k in auto)
  moreover have "(2::nat) ^ k \<le> 2 ^ 15" by (rule power_increasing) (use k in auto)
  ultimately show ?thesis using k by simp
qed

lemma calendar_size_double:
  assumes "calendar_size n" "n < MAXNBUCKETS" shows "calendar_size (2 * n)"
proof -
  obtain k where k: "1 \<le> k" "k \<le> 15" "n = 2 ^ k" using assms(1) by (auto simp: calendar_size_def)
  have "k \<noteq> 15" using assms(2) k by auto
  then show ?thesis unfolding calendar_size_def using k by (intro exI [of _ "Suc k"]) auto
qed

lemma calendar_size_half:
  assumes "calendar_size n" "4 \<le> n" shows "calendar_size (n div 2)"
proof -
  obtain k where k: "1 \<le> k" "k \<le> 15" "n = 2 ^ k" using assms(1) by (auto simp: calendar_size_def)
  have "k \<noteq> 1" using assms(2) k by auto
  then obtain j where "k = Suc j" "1 \<le> j" using k by (cases k) auto
  then show ?thesis unfolding calendar_size_def using k by (intro exI [of _ j]) auto
qed

lemma contents_upd:
  assumes "i < n"
  shows "contents (f(b + i := l)) b n + mset (f (b + i)) = contents f b n + mset l"
proof -
  have *: "contents g b n = mset (g (b + i)) + (\<Sum>j\<in>{..<n} - {i}. mset (g (b + j)))" for g
    unfolding contents_def using assms by (simp add: sum.remove)
  have "(\<Sum>j\<in>{..<n} - {i}. mset ((f(b + i := l)) (b + j))) = (\<Sum>j\<in>{..<n} - {i}. mset (f (b + j)))"
    by (rule sum.cong) auto
  then show ?thesis by (simp only: * [of f] * [of "f(b + i := l)"]) (simp add: ac_simps)
qed

lemma contents_cong: "(\<And>i. i < n \<Longrightarrow> f (b + i) = g (b + i)) \<Longrightarrow> contents f b n = contents g b n"
  by (simp add: contents_def)

lemma contents_empty_iff: "contents f b n = {#} \<longleftrightarrow> (\<forall>i<n. f (b + i) = [])"
  by (auto simp: contents_def sum_eq_empty_iff)

lemma in_contents_iff: "x \<in># contents f b n \<longleftrightarrow> (\<exists>i<n. x \<in> set (f (b + i)))"
  by (auto simp: contents_def set_mset_sum)

section \<open>One bucket\<close>

lemma insert_walk_mset [simp]: "mset (insert_walk n es) = add_mset n (mset es)"
  by (induction es) auto

lemma insert_event_mset [simp]: "mset (insert_event n es) = add_mset n (mset es)"
  by (cases es) auto

lemma insert_event_length [simp]: "length (insert_event n es) = Suc (length es)"
  by (metis insert_event_mset size_add_mset size_mset)

lemma insert_event_set [simp]: "set (insert_event n es) = insert n (set es)"
  by (metis insert_event_mset set_mset_add_mset_insert set_mset_mset)

lemma insert_walk_set [simp]: "set (insert_walk n es) = insert n (set es)"
  by (metis insert_walk_mset set_mset_add_mset_insert set_mset_mset)

lemma insert_walk_sorted:
  assumes "sorted_wrt (\<lambda>a b. fle (priority a) (priority b)) es"
    and "\<forall>e\<in>set es. ordered (priority e)" and "ordered (priority n)"
  shows "sorted_wrt (\<lambda>a b. fle (priority a) (priority b)) (insert_walk n es)"
  using assms by (induction es) (auto intro: fle_trans dest: fle_total)

lemma insert_event_walk:
  assumes "bucket_ok es" "priority n = Fin r"
  shows "insert_event n es = insert_walk n es"
proof (cases es)
  case (Cons y ys)
  then show ?thesis using assms by (auto simp: bucket_ok_def)
qed simp

lemma insert_event_ok:
  assumes "bucket_ok es" "priority n = Fin r"
  shows "bucket_ok (insert_event n es)"
proof -
  have "\<forall>e\<in>set es. ordered (priority e)" using assms(1) by (auto simp: bucket_ok_def)
  then have "sorted_wrt (\<lambda>a b. fle (priority a) (priority b)) (insert_event n es)"
    unfolding insert_event_walk [OF assms] using assms
    by (intro insert_walk_sorted) (auto simp: bucket_ok_def)
  then show ?thesis using assms by (auto simp: bucket_ok_def)
qed

lemma bucket_ok_Nil [simp]: "bucket_ok []"
  by (simp add: bucket_ok_def)

lemma bucket_ok_tl: "bucket_ok (e # es) \<Longrightarrow> bucket_ok es"
  by (simp add: bucket_ok_def)

lemma bucket_ok_hd: "bucket_ok (e # es) \<Longrightarrow> x \<in> set (e # es) \<Longrightarrow> fle (priority e) (priority x)"
  by (auto simp: bucket_ok_def)

section \<open>Inserting and removing without resizing\<close>

lemma slot_SomeD: "slot q i = Some k \<Longrightarrow> 0 \<le> i \<and> nat i < nbuckets q \<and> k = firstsub q + nat i"
  by (auto simp: slot_def split: if_splits)

lemma fdiv_cast_Fin: "to_integer b (fdiv rnd p w) = Some v \<Longrightarrow> \<exists>r. p = Fin r"
  by (cases p; cases w) auto

lemma set_bucket:
  assumes "cq_wf q" "i < nbuckets q" "bucket_ok l"
    and q': "calq q' = (calq q)(firstsub q + i := l)" "firstsub q' = firstsub q" "nbuckets q' = nbuckets q"
      "top_threshold q' = top_threshold q" "bot_threshold q' = bot_threshold q" "cwidth q' = cwidth q"
      "resize_enabled q' = resize_enabled q"
    and n: "qsize q' + length (calq q (firstsub q + i)) = qsize q + length l"
  shows "cq_wf q'" "cq_frame q q'"
    "events q' + mset (calq q (firstsub q + i)) = events q + mset l"
proof -
  show ev: "events q' + mset (calq q (firstsub q + i)) = events q + mset l"
    using contents_upd [OF assms(2), of "calq q" "firstsub q" l] by (simp add: events_def q')
  have "size (events q' + mset (calq q (firstsub q + i))) = size (events q + mset l)"
    by (simp only: ev)
  then have "qsize q' = size (events q')" using n assms(1) by (simp add: q' cq_wf_def)
  then show "cq_wf q'" using assms by (auto simp: cq_wf_def cq_shape_def)
  show "cq_frame q q'" using assms(2) by (auto simp: q' cq_frame_def)
qed

lemma put_node_post:
  assumes "cq_wf q"
  shows "res_post (\<lambda>q'. cq_wf q' \<and> cq_frame q q' \<and> qsize q' = Suc (qsize q) \<and>
           events q' = add_mset \<lparr>priority = p, payload = x\<rparr> (events q) \<and>
           lastbucket q' = lastbucket q \<and> lastprio q' = lastprio q \<and> buckettop q' = buckettop q)
         (put_node rnd q p x)"
proof (cases "to_integer 32 (fdiv rnd p (cwidth q))")
  case (Some v)
  then obtain r where r: "p = Fin r" using fdiv_cast_Fin by blast
  show ?thesis
  proof (cases "slot q (c_rem v (int (nbuckets q)))")
    case (Some k)
    define i where "i = nat (c_rem v (int (nbuckets q)))"
    have i: "i < nbuckets q" "k = firstsub q + i" using slot_SomeD [OF Some] by (auto simp: i_def)
    define l where "l = insert_event \<lparr>priority = p, payload = x\<rparr> (calq q k)"
    have "bucket_ok l" unfolding l_def using assms i r by (intro insert_event_ok) (auto simp: cq_wf_def)
    moreover have "length l = Suc (length (calq q k))" by (simp add: l_def)
    moreover define q1 where "q1 = q\<lparr>calq := (calq q)(k := l), qsize := qsize q + 1\<rparr>"
    ultimately have *: "cq_wf q1" "cq_frame q q1" "events q1 + mset (calq q k) = events q + mset l"
      using set_bucket [OF assms i(1), of l q1] i(2) by auto
    from *(3) have "events q1 = add_mset \<lparr>priority = p, payload = x\<rparr> (events q)" by (simp add: l_def)
    with * \<open>to_integer 32 (fdiv rnd p (cwidth q)) = Some v\<close> Some show ?thesis
      by (simp add: put_node_def l_def q1_def)
  qed (use Some in \<open>simp add: put_node_def\<close>)
qed (simp add: put_node_def)

lemma take_node_post:
  assumes "cq_wf q" "slot q i = Some k" "calq q k \<noteq> []"
  shows "\<exists>q' e. take_node q i = Inr (q', e) \<and> cq_wf q' \<and> cq_frame q q' \<and> Suc (qsize q') = qsize q \<and>
           events q = add_mset e (events q') \<and> e = hd (calq q k) \<and> lastbucket q' = i \<and> buckettop q' = buckettop q"
proof -
  obtain e es where es: "calq q k = e # es" using assms(3) by (cases "calq q k") auto
  have i: "nat i < nbuckets q" "k = firstsub q + nat i" using slot_SomeD [OF assms(2)] by auto
  let ?q = "q\<lparr>lastbucket := i, lastprio := priority e, qsize := qsize q - 1, calq := (calq q)(k := es)\<rparr>"
  have "e \<in># events q" unfolding events_def in_contents_iff using i es by auto
  then have pos: "0 < qsize q" using assms(1) by (metis cq_wf_def empty_not_add_mset gr0I multi_member_split size_eq_0_iff_empty)
  have "bucket_ok (e # es)" using assms(1) i es by (auto simp: cq_wf_def)
  note ok = bucket_ok_tl [OF this]
  have "cq_wf ?q" "cq_frame q ?q" "events ?q + mset (calq q k) = events q + mset es"
    using set_bucket [OF assms(1) i(1) ok, of ?q] i(2) es pos by auto
  then show ?thesis using assms(2) es pos by (auto simp: take_node_def)
qed

end
