(* ===== verification/Calqueue_Scan.thy ===== *)
theory Calqueue_Scan
  imports Calqueue_Inv
begin

text \<open>
  The search for the next event of the calendar queue: the walk over the buckets of the
  current year and the direct search, each characterised completely.
\<close>

section \<open>The walk over the buckets\<close>

text \<open>The value of \<open>buckettop\<close> after \<open>m\<close> steps, and the test of the loop at bucket \<open>j\<close>.\<close>

definition top_after :: "rounding \<Rightarrow> 'a calqueue \<Rightarrow> nat \<Rightarrow> double" where
  "top_after rnd q m = ((\<lambda>t. fadd rnd t (cwidth q)) ^^ m) (buckettop q)"

definition hit :: "'a calqueue \<Rightarrow> double \<Rightarrow> int \<Rightarrow> bool" where
  "hit q t j \<longleftrightarrow> (let l = calq q (firstsub q + nat j) in l \<noteq> [] \<and> flt (priority (hd l)) t)"

lemma top_after_0 [simp]: "top_after rnd q 0 = buckettop q"
  by (simp add: top_after_def)

lemma top_after_Suc:
  "top_after rnd (q\<lparr>buckettop := fadd rnd (buckettop q) (cwidth q)\<rparr>) m = top_after rnd q (Suc m)"
  by (simp add: top_after_def funpow_Suc_right del: funpow.simps)

lemma hit_buckettop [simp]: "hit (q\<lparr>buckettop := b\<rparr>) = hit q"
  by (simp add: hit_def fun_eq_iff)

lemma next_index:
  assumes "0 \<le> i" "i < n" shows "(if i + 1 = n then 0 else i + 1) = (i + 1) mod (n::int)"
  using assms by auto

lemma wrap_to_start:
  assumes "0 \<le> lb" "lb < int n" "d < n"
  shows "(lb + int d + 1) mod int n = lb \<longleftrightarrow> Suc d = n"
proof
  assume "Suc d = n"
  then have "lb + int d + 1 = lb + int n" by simp
  then show "(lb + int d + 1) mod int n = lb" using assms(1,2) by (simp only: mod_add_self2 mod_pos_pos_trivial)
next
  assume "(lb + int d + 1) mod int n = lb"
  then have "(lb + int d + 1) mod int n = lb mod int n" using assms(1,2) by simp
  then have "int n dvd (lb + int d + 1) - lb" by (simp only: mod_eq_dvd_iff)
  then have "int n dvd int (Suc d)" by (simp add: algebra_simps)
  then have "n \<le> Suc d" by (intro dvd_imp_le) (simp_all only: int_dvd_int_iff zero_less_Suc)
  then show "Suc d = n" using assms(3) by simp
qed

lemma scan_spec:
  assumes "0 \<le> lastbucket q" "lastbucket q < int (nbuckets q)" "d < nbuckets q" "fuel = nbuckets q - d"
  shows "\<exists>m. (\<forall>j<m. \<not> hit q (top_after rnd q j) ((lastbucket q + int d + int j) mod int (nbuckets q))) \<and>
     (m < fuel \<and> hit q (top_after rnd q m) ((lastbucket q + int d + int m) mod int (nbuckets q)) \<and>
      scan fuel rnd q ((lastbucket q + int d) mod int (nbuckets q)) =
        Inr (q\<lparr>buckettop := top_after rnd q m\<rparr>, Some ((lastbucket q + int d + int m) mod int (nbuckets q))) \<or>
      m = fuel \<and> scan fuel rnd q ((lastbucket q + int d) mod int (nbuckets q)) =
        Inr (q\<lparr>buckettop := top_after rnd q m\<rparr>, None))"
  using assms
proof (induction fuel arbitrary: d q)
  case 0
  then show ?case by simp
next
  case (Suc fuel)
  define n where "n = int (nbuckets q)"
  define i where "i = (lastbucket q + int d) mod n"
  have n: "0 < n" using Suc.prems by (simp add: n_def)
  then have i: "0 \<le> i" "i < n" by (simp_all add: i_def)
  then have slot: "slot q i = Some (firstsub q + nat i)" by (simp add: slot_def n_def)
  let ?q = "q\<lparr>buckettop := fadd rnd (buckettop q) (cwidth q)\<rparr>"
  have next_i: "(if i + 1 = int (nbuckets q) then 0 else i + 1) = (lastbucket q + int (Suc d)) mod n"
  proof -
    have "(i + 1) mod n = (lastbucket q + int d + 1) mod n" unfolding i_def by (simp only: mod_add_left_eq)
    then show ?thesis using next_index [OF i] by (simp add: n_def ac_simps)
  qed
  show ?case
  proof (cases "hit q (buckettop q) i")
    case True
    then show ?thesis using slot
      by (intro exI [of _ 0]) (simp add: hit_def Let_def n_def [symmetric] i_def [symmetric])
  next
    case False
    then have step: "scan (Suc fuel) rnd q i = (if (lastbucket q + int (Suc d)) mod n = lastbucket q
        then Inr (?q, None) else scan fuel rnd ?q ((lastbucket q + int (Suc d)) mod n))"
      using slot by (auto simp: hit_def Let_def next_i)
    have wrap: "(lastbucket q + int (Suc d)) mod n = lastbucket q \<longleftrightarrow> Suc d = nbuckets q"
      using wrap_to_start [OF Suc.prems(1-3)] by (simp add: n_def ac_simps)
    show ?thesis
    proof (cases "Suc d = nbuckets q")
      case True
      then have "fuel = 0" using Suc.prems by simp
      then show ?thesis using True False step wrap
        by (intro exI [of _ "Suc 0"]) (simp add: top_after_def n_def [symmetric] i_def [symmetric])
    next
      case d: False
      have fuel: "fuel = nbuckets q - Suc d" "Suc d < nbuckets q" using Suc.prems d by auto
      obtain m where m: "\<forall>j<m. \<not> hit q (top_after rnd q (Suc j)) ((lastbucket q + int (Suc d) + int j) mod n)"
        "m < fuel \<and> hit q (top_after rnd q (Suc m)) ((lastbucket q + int (Suc d) + int m) mod n) \<and>
         scan fuel rnd ?q ((lastbucket q + int (Suc d)) mod n) =
           Inr (q\<lparr>buckettop := top_after rnd q (Suc m)\<rparr>, Some ((lastbucket q + int (Suc d) + int m) mod n)) \<or>
         m = fuel \<and> scan fuel rnd ?q ((lastbucket q + int (Suc d)) mod n) =
           Inr (q\<lparr>buckettop := top_after rnd q (Suc m)\<rparr>, None)"
        using Suc.IH [of ?q "Suc d"] Suc.prems(1,2) fuel by (simp add: top_after_Suc n_def) blast
      have "\<not> hit q (top_after rnd q j) ((lastbucket q + int d + int j) mod n)" if "j < Suc m" for j
        using that m(1) False by (cases j) (auto simp: i_def ac_simps)
      then show ?thesis using m(2) d wrap step
        by (intro exI [of _ "Suc m"]) (auto simp: n_def [symmetric] i_def [symmetric] ac_simps)
    qed
  qed
qed

lemma scan_outside: "slot q (lastbucket q) = None \<Longrightarrow> scan (Suc fuel) rnd q (lastbucket q) = Inl Outside_calendar"
  by simp

section \<open>The direct search\<close>

text \<open>\<open>r\<close> names a bucket of \<open>S\<close> whose first event is the lowest of all events in \<open>S\<close>.\<close>

definition lowest_of :: "'a calqueue \<Rightarrow> nat set \<Rightarrow> (nat \<times> double) option \<Rightarrow> bool" where
  "lowest_of q S r \<longleftrightarrow> (case r of
      None \<Rightarrow> \<forall>i\<in>S. calq q (firstsub q + i) = []
    | Some (j, l) \<Rightarrow> j \<in> S \<and> calq q (firstsub q + j) \<noteq> [] \<and> l = priority (hd (calq q (firstsub q + j))) \<and>
        (\<forall>i\<in>S. \<forall>e\<in>set (calq q (firstsub q + i)). fle l (priority e)))"

lemma lowest_of_skip: "calq q (firstsub q + i) = [] \<Longrightarrow> lowest_of q S r \<Longrightarrow> lowest_of q (insert i S) r"
  by (auto simp: lowest_of_def split: option.splits)

lemma lowest_of_first:
  assumes "calq q (firstsub q + i) = e # es" "bucket_ok (e # es)" "lowest_of q S None"
  shows "lowest_of q (insert i S) (Some (i, priority e))"
  using assms bucket_ok_hd [OF assms(2)] by (auto simp: lowest_of_def)

lemma lowest_of_lower:
  assumes "calq q (firstsub q + i) = e # es" "bucket_ok (e # es)" "lowest_of q S (Some (j, l))"
    and "flt (priority e) l"
  shows "lowest_of q (insert i S) (Some (i, priority e))"
proof -
  have "fle (priority e) (priority x)" if "k \<in> S" "x \<in> set (calq q (firstsub q + k))" for k x
    using assms(3) that flt_imp_fle [OF assms(4)] fle_trans unfolding lowest_of_def by fastforce
  then show ?thesis using assms(1) bucket_ok_hd [OF assms(2)] by (auto simp: lowest_of_def)
qed

lemma lowest_of_keep:
  assumes "calq q (firstsub q + i) = e # es" "bucket_ok (e # es)" "lowest_of q S (Some (j, l))"
    and "\<forall>k\<in>S. bucket_ok (calq q (firstsub q + k))" "\<not> flt (priority e) l"
  shows "lowest_of q (insert i S) (Some (j, l))"
proof -
  have j: "j \<in> S" "calq q (firstsub q + j) \<noteq> []" "l = priority (hd (calq q (firstsub q + j)))"
    using assms(3) by (auto simp: lowest_of_def)
  then obtain s where "l = Fin s" using assms(4) unfolding bucket_ok_def by (meson hd_in_set)
  moreover obtain r where "priority e = Fin r" using assms(2) by (auto simp: bucket_ok_def)
  ultimately have "fle l (priority e)" using assms(5) by simp
  then have "fle l (priority x)" if "x \<in> set (e # es)" for x
    using bucket_ok_hd [OF assms(2) that] fle_trans by blast
  then show ?thesis using assms(1,3) by (auto simp: lowest_of_def)
qed

lemma direct_search_spec:
  assumes "\<forall>i\<in>set is \<union> S. bucket_ok (calq q (firstsub q + i))" "lowest_of q S best"
  shows "lowest_of q (set is \<union> S) (direct_search q is best)"
  using assms
proof (induction "is" arbitrary: S best)
  case (Cons i "is")
  have IH: "lowest_of q (set (i # is) \<union> S) (direct_search q is r)" if "lowest_of q (insert i S) r" for r
    using Cons.IH [of "insert i S" r] that Cons.prems(1) by simp
  show ?case
  proof (cases "calq q (firstsub q + i)")
    case Nil
    then show ?thesis using IH [OF lowest_of_skip [OF Nil Cons.prems(2)]] by simp
  next
    case bucket: (Cons e es)
    then have ok: "bucket_ok (e # es)" using Cons.prems(1) by fastforce
    show ?thesis
    proof (cases best)
      case None
      then show ?thesis using IH lowest_of_first [OF bucket ok] bucket Cons.prems(2) by simp
    next
      case (Some b)
      obtain j l where b: "b = (j, l)" by (cases b)
      have low: "lowest_of q S (Some (j, l))" using Cons.prems(2) Some b by simp
      show ?thesis
      proof (cases "flt (priority e) l")
        case True
        then show ?thesis using IH [OF lowest_of_lower [OF bucket ok low True]] bucket Some b by simp
      next
        case False
        then have "lowest_of q (insert i S) (Some (j, l))"
          using Cons.prems(1) by (intro lowest_of_keep [OF bucket ok low]) auto
        then show ?thesis using IH False bucket Some b by simp
      qed
    qed
  qed
qed simp

lemma direct_search_all:
  assumes "cq_wf q"
  shows "lowest_of q {..<nbuckets q} (direct_search q [0..<nbuckets q] None)"
proof -
  have "\<forall>i\<in>set [0..<nbuckets q] \<union> {}. bucket_ok (calq q (firstsub q + i))"
    using assms by (simp add: cq_wf_def)
  from direct_search_spec [OF this, of None] show ?thesis
    by (simp add: lowest_of_def [of q "{}"] lessThan_atLeast0)
qed

section \<open>The next event\<close>

lemma wf_bucket_at: "cq_wf q \<Longrightarrow> i < nbuckets q \<Longrightarrow> bucket_ok (calq q (firstsub q + i))"
  by (simp add: cq_wf_def)

lemma find_node_post:
  assumes "cq_wf q" "0 < qsize q"
  shows "res_post (\<lambda>(q', i). q' = q\<lparr>buckettop := buckettop q'\<rparr> \<and>
           (\<exists>k. slot q i = Some k \<and> calq q k \<noteq> [])) (find_node rnd q)"
proof (cases "slot q (lastbucket q)")
  case None
  have "0 < nbuckets q" using assms(1) calendar_size_bounds by (fastforce simp: cq_wf_def cq_shape_def)
  then obtain f where "nbuckets q = Suc f" using gr0_conv_Suc by blast
  then show ?thesis using None by (simp add: find_node_def)
next
  case (Some k)
  let ?n = "nbuckets q"
  have lb: "0 \<le> lastbucket q" "lastbucket q < int ?n" using slot_SomeD [OF Some] by auto
  obtain m where m: "m < ?n \<and> hit q (top_after rnd q m) ((lastbucket q + int m) mod int ?n) \<and>
      scan ?n rnd q (lastbucket q) = Inr (q\<lparr>buckettop := top_after rnd q m\<rparr>, Some ((lastbucket q + int m) mod int ?n)) \<or>
      m = ?n \<and> scan ?n rnd q (lastbucket q) = Inr (q\<lparr>buckettop := top_after rnd q m\<rparr>, None)"
    using scan_spec [OF lb, of 0 ?n rnd] lb by (auto simp: mod_pos_pos_trivial)
  show ?thesis
  proof (cases "m < ?n")
    case True
    then show ?thesis using m lb by (auto simp: find_node_def hit_def slot_def Let_def)
  next
    case False
    let ?q = "q\<lparr>buckettop := top_after rnd q m\<rparr>"
    have "\<exists>i<?n. calq q (firstsub q + i) \<noteq> []"
      using assms contents_empty_iff [of "calq q" "firstsub q" ?n] by (auto simp: cq_wf_def events_def)
    moreover have "lowest_of ?q {..<?n} (direct_search ?q [0..<?n] None)"
      using direct_search_all [of ?q] assms(1) by (simp add: cq_wf_buckettop)
    ultimately obtain j l where "direct_search ?q [0..<?n] None = Some (j, l)" "j < ?n" "calq q (firstsub q + j) \<noteq> []"
      by (auto simp: lowest_of_def split: option.splits)
    then show ?thesis using m False by (auto simp: find_node_def slot_def)
  qed
qed

end
