(* ===== verification/Calqueue_Resize.thy ===== *)
theory Calqueue_Resize
  imports Calqueue_Scan
begin

text \<open>
  Resizing the calendar queue keeps its events. While the sample is taken and put back,
  resizing is switched off; while the events are copied, their number stays below the
  threshold of the new calendar. So a resizing never starts another one.
\<close>

section \<open>Operations that do not resize\<close>

definition idle_when_off :: "('a calqueue \<Rightarrow> nat \<Rightarrow> cq_error + 'a calqueue) \<Rightarrow> bool" where
  "idle_when_off r \<longleftrightarrow> (\<forall>q n. \<not> resize_enabled q \<longrightarrow> r q n = Inr q)"

lemma resize_idle [simp]: "idle_when_off (resize fuel rnd)"
  by (cases fuel) (auto simp: idle_when_off_def)

lemma put_with_quiet:
  assumes "idle_when_off r" "cq_wf q" "\<not> resize_enabled q \<or> qsize q < 2 * nbuckets q"
  shows "put_with r rnd q p x = put_node rnd q p x"
proof (cases "put_node rnd q p x")
  case (Inr q1)
  then have "cq_wf q1" "cq_frame q q1" "qsize q1 = Suc (qsize q)"
    using put_node_post [OF assms(2), of p x rnd] by auto
  then show ?thesis using assms Inr
    by (auto simp: put_with_def idle_when_off_def cq_wf_def cq_shape_def cq_frame_def)
qed (simp add: put_with_def)

lemma put_all_post:
  assumes "idle_when_off r" "cq_wf q" "\<not> resize_enabled q \<or> qsize q + length es \<le> 2 * nbuckets q"
  shows "res_post (\<lambda>q'. cq_wf q' \<and> cq_frame q q' \<and> events q' = events q + mset es) (put_all r rnd es q)"
  using assms(2,3)
proof (induction es arbitrary: q)
  case (Cons e es)
  have IH: "res_post (\<lambda>q'. cq_wf q' \<and> cq_frame q q' \<and> events q' = events q + mset (e # es)) (put_all r rnd es q1)"
    if q1: "cq_wf q1" "cq_frame q q1" "events q1 = add_mset e (events q)" for q1
  proof (rule res_post_mono [OF Cons.IH [of q1]])
    have "qsize q1 = Suc (qsize q)" using q1 Cons.prems(1) by (simp add: cq_wf_def)
    then show "\<not> resize_enabled q1 \<or> qsize q1 + length es \<le> 2 * nbuckets q1"
      using Cons.prems(2) q1(2) by (auto simp: cq_frame_def)
  qed (use q1 in \<open>auto intro: cq_frame_trans\<close>)
  have "\<not> resize_enabled q \<or> qsize q < 2 * nbuckets q" using Cons.prems(2) by auto
  then have "res_post (\<lambda>q1. cq_wf q1 \<and> cq_frame q q1 \<and> events q1 = add_mset e (events q))
      (put_with r rnd q (priority e) (payload e))"
    using put_node_post [OF Cons.prems(1), of "priority e" "payload e" rnd]
    by (simp add: put_with_quiet [OF assms(1) Cons.prems(1)] res_post_mono)
  then show ?case using IH by (auto elim!: res_post_mono)
qed simp

lemma take_found_post:
  assumes "cq_wf q" "0 < qsize q"
  shows "res_post (\<lambda>(q', e). cq_wf q' \<and> cq_frame q q' \<and> events q = add_mset e (events q'))
           (res_bind (find_node rnd q) (\<lambda>(q1, i). take_node q1 i))"
proof -
  have take: "res_post (\<lambda>(q', e). cq_wf q' \<and> cq_frame q q' \<and> events q = add_mset e (events q')) (take_node q1 i)"
    if "q1 = q\<lparr>buckettop := buckettop q1\<rparr>" "slot q i = Some k" "calq q k \<noteq> []" for q1 i k
  proof -
    from that(1) have "\<exists>b. q1 = q\<lparr>buckettop := b\<rparr>" by (rule exI)
    then have "cq_wf q1" "cq_frame q q1" "events q1 = events q" "slot q1 i = Some k" "calq q1 k \<noteq> []"
      using that(2,3) assms(1) by (auto simp: cq_frame_def slot_def split: if_splits)
    then show ?thesis using take_node_post [of q1 i k] by (auto intro: cq_frame_trans)
  qed
  show ?thesis using find_node_post [OF assms, of rnd] take by (auto elim!: res_post_mono)
qed

lemma deq_with_alt:
  "deq_with r rnd q = (if qsize q = 0 then Inr (q, None)
     else res_bind (res_bind (find_node rnd q) (\<lambda>(q1, i). take_node q1 i))
       (\<lambda>(q2, e). if int (qsize q2) < bot_threshold q2
          then res_bind (r q2 (nbuckets q2 div 2)) (\<lambda>q3. Inr (q3, Some e)) else Inr (q2, Some e)))"
  by (cases "find_node rnd q") (auto simp: deq_with_def)

lemma deq_with_off_post:
  assumes "idle_when_off r" "cq_wf q" "0 < qsize q" "\<not> resize_enabled q"
  shows "res_post (\<lambda>(q', e). \<exists>n. e = Some n \<and> cq_wf q' \<and> cq_frame q q' \<and> events q = add_mset n (events q'))
           (deq_with r rnd q)"
proof -
  have "r q2 n = Inr q2" if "cq_frame q q2" for q2 n
    using assms(1,4) that by (simp add: idle_when_off_def cq_frame_def)
  then show ?thesis using assms(3) take_found_post [OF assms(2,3), of rnd] unfolding deq_with_alt
    by (auto elim!: res_post_mono)
qed

lemma sample_post:
  assumes "idle_when_off r" "cq_wf q" "n \<le> qsize q" "\<not> resize_enabled q"
  shows "res_post (\<lambda>(q', es). cq_wf q' \<and> cq_frame q q' \<and> events q = events q' + mset es \<and> length es = n)
           (sample r rnd n q)"
  using assms(2-)
proof (induction n arbitrary: q)
  case (Suc n)
  have IH: "res_post (\<lambda>(q', es). cq_wf q' \<and> cq_frame q q' \<and> events q = events q' + mset (e # es) \<and> length es = n)
      (sample r rnd n q1)" if q1: "cq_wf q1" "cq_frame q q1" "events q = add_mset e (events q1)" for q1 e
  proof (rule res_post_mono [OF Suc.IH [of q1]])
    have "qsize q = Suc (qsize q1)" using q1 Suc.prems(1) by (simp add: cq_wf_def)
    then show "n \<le> qsize q1" using Suc.prems(2) by simp
    show "\<not> resize_enabled q1" using Suc.prems(3) q1(2) by (simp add: cq_frame_def)
  qed (use q1 in \<open>auto intro: cq_frame_trans\<close>)
  have "0 < qsize q" using Suc.prems(2) by simp
  from deq_with_off_post [OF assms(1) Suc.prems(1) this Suc.prems(3), of rnd] show ?case
    by (auto elim!: res_post_mono intro!: res_post_mono [OF IH])
qed simp

section \<open>Resizing\<close>

lemma nsamples_le: "nsamples n \<le> n"
  by (auto simp: nsamples_def Let_def)

lemma new_width_post:
  assumes "idle_when_off r" "cq_wf q" "resize_enabled q"
  shows "res_post (\<lambda>(q', w). cq_wf q' \<and> cq_frame q q' \<and> events q' = events q) (new_width r rnd q)"
proof (cases "qsize q < 2")
  case False
  let ?q = "q\<lparr>resize_enabled := False\<rparr>"
  have restore: "res_post (\<lambda>q2. cq_wf q2 \<and> cq_frame ?q q2 \<and> events q2 = events q) (put_all r rnd es q1)"
    if "cq_wf q1" "cq_frame ?q q1" "events ?q = events q1 + mset es" for q1 es
    using put_all_post [OF assms(1) that(1), of es rnd] that
    by (auto elim!: res_post_mono intro: cq_frame_trans simp: cq_frame_def)
  have frame: "cq_frame q (q2\<lparr>lastbucket := lastbucket q, lastprio := lastprio q, buckettop := buckettop q,
                              resize_enabled := True\<rparr>)" if "cq_frame ?q q2" for q2
    using that assms(3) by (simp add: cq_frame_def)
  from sample_post [OF assms(1), of ?q "nsamples (qsize q)" rnd] assms(2)
  show ?thesis using False frame unfolding new_width_def
    by (auto simp: nsamples_le elim!: res_post_mono intro!: res_post_mono [OF restore])
qed (use assms in \<open>simp add: new_width_def\<close>)

lemma localinit_post:
  assumes "calendar_size n" "base = 0 \<or> base + n = CALQSPACE"
  shows "res_post (\<lambda>q'. cq_wf q' \<and> events q' = {#} \<and> firstsub q' = base \<and> nbuckets q' = n \<and>
           resize_enabled q' = resize_enabled q \<and> lastprio q' = startprio \<and> cwidth q' = w \<and>
           (\<forall>k. k < base \<or> base + n \<le> k \<longrightarrow> calq q' k = calq q k)) (localinit rnd q base n w startprio)"
  using assms by (auto simp: localinit_def Let_def cq_wf_def cq_shape_def events_def contents_def split: option.split)

lemma copy_buckets_post:
  assumes "idle_when_off r" "cq_wf q"
    and "\<And>j. j < i \<Longrightarrow> old + j < firstsub q \<or> firstsub q + nbuckets q \<le> old + j"
    and "qsize q + size (contents (calq q) old i) \<le> 2 * nbuckets q"
  shows "res_post (\<lambda>q'. cq_wf q' \<and> cq_frame q q' \<and> events q' = events q + contents (calq q) old i)
           (copy_buckets r rnd old i q)"
  using assms(2-)
proof (induction i arbitrary: q)
  case 0
  then show ?case by (simp add: contents_def)
next
  case (Suc i)
  have split: "contents (calq q) old (Suc i) = contents (calq q) old i + mset (calq q (old + i))"
    by (simp add: contents_def)
  have IH: "res_post (\<lambda>q'. cq_wf q' \<and> cq_frame q q' \<and> events q' = events q + contents (calq q) old (Suc i))
      (copy_buckets r rnd old i q1)"
    if q1: "cq_wf q1" "cq_frame q q1" "events q1 = events q + mset (calq q (old + i))" for q1
  proof (rule res_post_mono [OF Suc.IH [of q1]])
    have same: "contents (calq q1) old i = contents (calq q) old i"
    proof (rule contents_cong)
      show "calq q1 (old + j) = calq q (old + j)" if "j < i" for j
        using q1(2) Suc.prems(2) [of j] that by (auto simp: cq_frame_def)
    qed
    show "old + j < firstsub q1 \<or> firstsub q1 + nbuckets q1 \<le> old + j" if "j < i" for j
      using Suc.prems(2) [of j] that q1(2) by (simp add: cq_frame_def)
    have "qsize q1 = qsize q + length (calq q (old + i))" using q1 Suc.prems(1) by (simp add: cq_wf_def)
    then show "qsize q1 + size (contents (calq q1) old i) \<le> 2 * nbuckets q1"
      using Suc.prems(3) q1(2) split by (simp add: same cq_frame_def)
    show "cq_wf q' \<and> cq_frame q q' \<and> events q' = events q + contents (calq q) old (Suc i)"
      if "cq_wf q' \<and> cq_frame q1 q' \<and> events q' = events q1 + contents (calq q1) old i" for q'
      using that q1 by (auto simp: same split ac_simps intro: cq_frame_trans)
  qed (rule q1(1))
  have "qsize q + length (calq q (old + i)) \<le> 2 * nbuckets q" using Suc.prems(3) split by simp
  then show ?case using put_all_post [OF assms(1) Suc.prems(1), of "calq q (old + i)" rnd] IH
    by (auto elim!: res_post_mono)
qed

text \<open>The new calendar is disjoint from the old one and has room for its events.\<close>

lemma localinit_ready:
  assumes "cq_wf q" "calendar_size newsize" "qsize q \<le> 2 * newsize"
  shows "res_post (\<lambda>q'. cq_wf q' \<and> events q' = {#} \<and> nbuckets q' = newsize \<and> resize_enabled q' = resize_enabled q \<and>
      contents (calq q') (firstsub q) (nbuckets q) = events q \<and>
      (\<forall>j < nbuckets q. firstsub q + j < firstsub q' \<or> firstsub q' + nbuckets q' \<le> firstsub q + j) \<and>
      qsize q' + size (contents (calq q') (firstsub q) (nbuckets q)) \<le> 2 * nbuckets q')
    (localinit rnd q (if firstsub q = 0 then CALQSPACE - newsize else 0) newsize w p)"
proof -
  define base where "base = (if firstsub q = 0 then CALQSPACE - newsize else 0)"
  note new = calendar_size_bounds [OF assms(2)]
  have old: "nbuckets q \<le> MAXNBUCKETS" "firstsub q = 0 \<or> firstsub q + nbuckets q = CALQSPACE"
    using assms(1) calendar_size_bounds by (auto simp: cq_wf_def cq_shape_def)
  have base: "base = 0 \<or> base + newsize = CALQSPACE" using new by (auto simp: base_def)
  have disjoint: "firstsub q + j < base \<or> base + newsize \<le> firstsub q + j" if "j < nbuckets q" for j
    using that old new by (auto simp: base_def split: if_splits)
  have size: "qsize q = size (events q)" using assms(1) by (simp add: cq_wf_def)
  show ?thesis unfolding base_def [symmetric]
  proof (rule res_post_mono [OF localinit_post [OF assms(2) base, of q p w rnd]])
    fix q'
    assume q': "cq_wf q' \<and> events q' = {#} \<and> firstsub q' = base \<and> nbuckets q' = newsize \<and>
        resize_enabled q' = resize_enabled q \<and> lastprio q' = p \<and> cwidth q' = w \<and>
        (\<forall>k. k < base \<or> base + newsize \<le> k \<longrightarrow> calq q' k = calq q k)"
    have "contents (calq q') (firstsub q) (nbuckets q) = events q"
      unfolding events_def using q' disjoint by (intro contents_cong) blast
    moreover have "qsize q' = 0" using q' by (simp add: cq_wf_def)
    ultimately show "cq_wf q' \<and> events q' = {#} \<and> nbuckets q' = newsize \<and> resize_enabled q' = resize_enabled q \<and>
        contents (calq q') (firstsub q) (nbuckets q) = events q \<and>
        (\<forall>j < nbuckets q. firstsub q + j < firstsub q' \<or> firstsub q' + nbuckets q' \<le> firstsub q + j) \<and>
        qsize q' + size (contents (calq q') (firstsub q) (nbuckets q)) \<le> 2 * nbuckets q'"
      using q' disjoint assms(3) size by simp
  qed
qed

lemma resize_post:
  assumes "cq_wf q" "calendar_size newsize" "qsize q \<le> 2 * newsize"
  shows "res_post (\<lambda>q'. cq_wf q' \<and> events q' = events q \<and> resize_enabled q' = resize_enabled q \<and>
           (resize_enabled q \<longrightarrow> nbuckets q' = newsize)) (resize (Suc fuel) rnd q newsize)"
proof (cases "resize_enabled q")
  case True
  let ?r = "resize fuel rnd"
  have copy: "res_post (\<lambda>q'. cq_wf q' \<and> events q' = events q \<and> resize_enabled q' \<and> nbuckets q' = newsize)
      (res_bind (localinit rnd q1 (if firstsub q1 = 0 then CALQSPACE - newsize else 0) newsize w (lastprio q1))
        (copy_buckets ?r rnd (firstsub q1) (nbuckets q1)))"
    if q1: "cq_wf q1" "cq_frame q q1" "events q1 = events q" for q1 w
  proof (rule res_post_bindI [OF localinit_ready [OF q1(1) assms(2)]])
    show "qsize q1 \<le> 2 * newsize" using q1 assms(1,3) by (simp add: cq_wf_def)
  next
    fix q2
    assume q2: "cq_wf q2 \<and> events q2 = {#} \<and> nbuckets q2 = newsize \<and> resize_enabled q2 = resize_enabled q1 \<and>
        contents (calq q2) (firstsub q1) (nbuckets q1) = events q1 \<and>
        (\<forall>j < nbuckets q1. firstsub q1 + j < firstsub q2 \<or> firstsub q2 + nbuckets q2 \<le> firstsub q1 + j) \<and>
        qsize q2 + size (contents (calq q2) (firstsub q1) (nbuckets q1)) \<le> 2 * nbuckets q2"
    show "res_post (\<lambda>q'. cq_wf q' \<and> events q' = events q \<and> resize_enabled q' \<and> nbuckets q' = newsize)
        (copy_buckets ?r rnd (firstsub q1) (nbuckets q1) q2)"
      by (rule res_post_mono [OF copy_buckets_post]) (use q1 q2 True in \<open>auto simp: cq_frame_def\<close>)
  qed
  then show ?thesis using True new_width_post [OF resize_idle assms(1) True, of fuel rnd rnd]
    by (auto elim!: res_post_mono intro!: res_post_mono [OF copy, simplified])
qed (simp add: assms(1))

section \<open>The operations\<close>

text \<open>The state of a queue between operations.\<close>

definition cq_inv :: "'a calqueue \<Rightarrow> bool" where
  "cq_inv q \<longleftrightarrow> cq_wf q \<and> resize_enabled q \<and> (qsize q \<le> 2 * nbuckets q \<or> nbuckets q = MAXNBUCKETS)"

lemma calendar_bounds: "cq_wf q \<Longrightarrow> 2 \<le> nbuckets q \<and> nbuckets q \<le> MAXNBUCKETS"
  by (rule calendar_size_bounds) (simp add: cq_wf_def cq_shape_def)

lemma calqueue_init_post: "res_post (\<lambda>q'. cq_inv q' \<and> events q' = {#}) (calqueue_init rnd q)"
proof -
  have "calendar_size 2" by (auto simp: calendar_size_def intro!: exI [of _ 1])
  from localinit_post [OF this, of 0 q "Fin 0" "Fin 1" rnd] show ?thesis
    by (auto simp: calqueue_init_def cq_inv_def cq_wf_def cq_shape_def elim!: res_post_mono)
qed

lemma grow_ok:
  assumes "cq_inv q" "cq_wf q1" "cq_frame q q1" "qsize q1 = Suc (qsize q)" "nbuckets q1 < MAXNBUCKETS"
  shows "calendar_size (2 * nbuckets q1)" "qsize q1 \<le> 2 * (2 * nbuckets q1)"
proof -
  show "calendar_size (2 * nbuckets q1)"
    using assms(2,5) by (intro calendar_size_double) (auto simp: cq_wf_def cq_shape_def)
  show "qsize q1 \<le> 2 * (2 * nbuckets q1)"
    using assms calendar_bounds [OF assms(2)] by (auto simp: cq_inv_def cq_frame_def)
qed

lemma shrink_ok:
  assumes "cq_wf q" "int (qsize q) < bot_threshold q"
  shows "calendar_size (nbuckets q div 2)" "qsize q \<le> 2 * (nbuckets q div 2)"
proof -
  have "int (qsize q) + 2 < int (nbuckets q) div 2" using assms by (simp add: cq_wf_def cq_shape_def)
  then have "4 \<le> nbuckets q" "qsize q \<le> 2 * (nbuckets q div 2)" by linarith+
  then show "calendar_size (nbuckets q div 2)" "qsize q \<le> 2 * (nbuckets q div 2)"
    using assms(1) by (auto intro!: calendar_size_half simp: cq_wf_def cq_shape_def)
qed

lemma calqueue_put_post:
  assumes "cq_inv q"
  shows "res_post (\<lambda>q'. cq_inv q' \<and> events q' = add_mset \<lparr>priority = p, payload = x\<rparr> (events q))
           (calqueue_put (Suc fuel) rnd q p x)"
proof -
  have q: "cq_wf q" "resize_enabled q" "qsize q \<le> 2 * nbuckets q \<or> nbuckets q = MAXNBUCKETS"
    using assms by (auto simp: cq_inv_def)
  have grow: "res_post (\<lambda>q'. cq_inv q' \<and> events q' = events q1)
      (if int (qsize q1) > top_threshold q1 \<and> nbuckets q1 < MAXNBUCKETS
       then resize (Suc fuel) rnd q1 (2 * nbuckets q1) else Inr q1)"
    if q1: "cq_wf q1" "cq_frame q q1" "qsize q1 = Suc (qsize q)" for q1
  proof (cases "int (qsize q1) > top_threshold q1 \<and> nbuckets q1 < MAXNBUCKETS")
    case True
    then have "nbuckets q1 < MAXNBUCKETS" by simp
    note ok = grow_ok [OF assms q1 this]
    then show ?thesis using True resize_post [OF q1(1), of "2 * nbuckets q1" fuel rnd] q(2) q1
      by (auto simp: cq_inv_def cq_frame_def cq_wf_def simp del: resize.simps elim!: res_post_mono)
  next
    case False
    then show ?thesis using q q1 calendar_bounds [OF q1(1)]
      by (auto simp: cq_inv_def cq_frame_def cq_wf_def cq_shape_def)
  qed
  have "res_post (\<lambda>q'. cq_inv q' \<and> events q' = add_mset \<lparr>priority = p, payload = x\<rparr> (events q))
      (if int (qsize q1) > top_threshold q1 \<and> nbuckets q1 < MAXNBUCKETS
       then resize (Suc fuel) rnd q1 (2 * nbuckets q1) else Inr q1)"
    if q1: "cq_wf q1" "cq_frame q q1" "qsize q1 = Suc (qsize q)"
      "events q1 = add_mset \<lparr>priority = p, payload = x\<rparr> (events q)" for q1
    by (rule res_post_mono [OF grow [OF q1(1-3)]]) (use q1(4) in auto)
  then show ?thesis unfolding calqueue_put_def put_with_def
    by (intro res_post_bindI [OF put_node_post [OF q(1), of p x rnd]]) blast
qed

lemma calqueue_deq_post:
  assumes "cq_inv q" "0 < qsize q"
  shows "res_post (\<lambda>(q', e). \<exists>n. e = Some n \<and> cq_inv q' \<and> events q = add_mset n (events q'))
           (calqueue_deq (Suc fuel) rnd q)"
proof -
  have q: "cq_wf q" "resize_enabled q" "qsize q \<le> 2 * nbuckets q \<or> nbuckets q = MAXNBUCKETS"
    using assms by (auto simp: cq_inv_def)
  have shrink: "res_post (\<lambda>(q', e'). e' = Some e \<and> cq_inv q' \<and> events q' = events q1)
      (if int (qsize q1) < bot_threshold q1
       then res_bind (resize (Suc fuel) rnd q1 (nbuckets q1 div 2)) (\<lambda>q3. Inr (q3, Some e)) else Inr (q1, Some e))"
    if q1: "cq_wf q1" "cq_frame q q1" "events q = add_mset e (events q1)" for q1 e
  proof (cases "int (qsize q1) < bot_threshold q1")
    case True
    note ok = shrink_ok [OF q1(1) True]
    then show ?thesis using True resize_post [OF q1(1), of "nbuckets q1 div 2" fuel rnd] q(2) q1
      by (auto simp: cq_inv_def cq_frame_def cq_wf_def simp del: resize.simps elim!: res_post_mono)
  next
    case False
    have "qsize q = Suc (qsize q1)" using q1 q(1) by (simp add: cq_wf_def)
    then show ?thesis using False q q1 by (auto simp: cq_inv_def cq_frame_def)
  qed
  have tail: "res_post (\<lambda>(q', e'). \<exists>n. e' = Some n \<and> cq_inv q' \<and> events q = add_mset n (events q'))
      (if int (qsize q1) < bot_threshold q1
       then res_bind (resize (Suc fuel) rnd q1 (nbuckets q1 div 2)) (\<lambda>q3. Inr (q3, Some e)) else Inr (q1, Some e))"
    if q1: "cq_wf q1" "cq_frame q q1" "events q = add_mset e (events q1)" for q1 e
    by (rule res_post_mono [OF shrink [OF q1]]) (use q1(3) in auto)
  have step: "calqueue_deq (Suc fuel) rnd q = res_bind (res_bind (find_node rnd q) (\<lambda>(q1, i). take_node q1 i))
      (\<lambda>(q1, e). if int (qsize q1) < bot_threshold q1
         then res_bind (resize (Suc fuel) rnd q1 (nbuckets q1 div 2)) (\<lambda>q3. Inr (q3, Some e)) else Inr (q1, Some e))"
    unfolding calqueue_deq_def deq_with_alt using assms(2) by simp
  show ?thesis unfolding step
  proof (rule res_post_bindI [OF take_found_post [OF q(1) assms(2), of rnd]])
    fix x
    assume found: "case x of (q1, e) \<Rightarrow> cq_wf q1 \<and> cq_frame q q1 \<and> events q = add_mset e (events q1)"
    obtain q1 e where "x = (q1, e)" by (meson surj_pair)
    with found tail [of q1 e] show "res_post (\<lambda>(q', e'). \<exists>n. e' = Some n \<and> cq_inv q' \<and> events q = add_mset n (events q'))
        (case x of (q1, e) \<Rightarrow> if int (qsize q1) < bot_threshold q1
         then res_bind (resize (Suc fuel) rnd q1 (nbuckets q1 div 2)) (\<lambda>q3. Inr (q3, Some e)) else Inr (q1, Some e))"
      by (simp only: prod.case)
  qed
qed

lemma calqueue_deq_empty: "qsize q = 0 \<Longrightarrow> calqueue_deq fuel rnd q = Inr (q, None)"
  by (simp add: calqueue_deq_def deq_with_def)

end
