(* ===== verification/Calqueue_Order.thy ===== *)
theory Calqueue_Order
  imports Calqueue_Resize
begin

text \<open>
  When the calendar queue returns the earliest event. With exact arithmetic, a queue is
  aligned with the virtual bucket \<open>n\<close> when its position \<open>lastbucket\<close> and \<open>buckettop\<close> are those of
  \<open>n\<close>, no event lies before \<open>n\<close>, and every event is in the bucket of its priority. From an
  aligned queue the next event is the earliest one, and the queue stays aligned as long as
  that event lies in the current year. The direct search finds the earliest event too, but
  it leaves \<open>buckettop\<close> one year ahead instead of moving it to the year of the event.
\<close>

definition aligned :: "'a calqueue \<Rightarrow> int \<Rightarrow> real \<Rightarrow> bool" where
  "aligned q n w \<longleftrightarrow> 0 < w \<and> 0 \<le> n \<and> cwidth q = Fin w \<and> lastbucket q = n mod int (nbuckets q) \<and>
     buckettop q = Fin ((of_int n + 3 / 2) * w) \<and>
     (\<forall>i < nbuckets q. \<forall>e \<in> set (calq q (firstsub q + i)). \<exists>p. priority e = Fin p \<and>
        n \<le> \<lfloor>p / w\<rfloor> \<and> \<lfloor>p / w\<rfloor> mod int (nbuckets q) = int i)"

lemma aligned_top_after:
  assumes "aligned q n w" shows "top_after Fin q m = Fin ((of_int n + real m + 3 / 2) * w)"
proof (induction m)
  case 0
  then show ?case using assms by (simp add: aligned_def)
next
  case (Suc m)
  then show ?case using assms by (simp add: top_after_def aligned_def algebra_simps)
qed

lemma aligned_index:
  assumes "aligned q n w" shows "(lastbucket q + int m) mod int (nbuckets q) = (n + int m) mod int (nbuckets q)"
  using assms by (simp add: aligned_def mod_add_left_eq)

lemma aligned_event:
  assumes "aligned q n w" "x \<in># events q"
  shows "\<exists>p. priority x = Fin p \<and> n \<le> \<lfloor>p / w\<rfloor> \<and>
    x \<in> set (calq q (firstsub q + nat (\<lfloor>p / w\<rfloor> mod int (nbuckets q))))"
proof -
  obtain i where i: "i < nbuckets q" "x \<in> set (calq q (firstsub q + i))"
    using assms(2) by (auto simp: events_def in_contents_iff)
  then obtain p where "priority x = Fin p" "n \<le> \<lfloor>p / w\<rfloor>" "\<lfloor>p / w\<rfloor> mod int (nbuckets q) = int i"
    using assms(1) by (auto simp: aligned_def)
  then show ?thesis using i by auto
qed

lemma virtual_bucket: "0 < w \<Longrightarrow> of_int \<lfloor>p / w\<rfloor> * w \<le> p \<and> p < (of_int \<lfloor>p / w\<rfloor> + 1) * (w::real)"
proof -
  assume w: "0 < w"
  have "of_int \<lfloor>p / w\<rfloor> * w \<le> p / w * w" using w by (intro mult_right_mono) auto
  moreover have "p / w * w < (of_int \<lfloor>p / w\<rfloor> + 1) * w" using w floor_correct [of "p / w"] by (intro mult_strict_right_mono) auto
  ultimately show ?thesis using w by simp
qed

lemma bucket_head_le:
  assumes "cq_wf q" "j < nbuckets q" "x \<in> set (calq q (firstsub q + j))"
  shows "fle (priority (hd (calq q (firstsub q + j)))) (priority x)"
proof (cases "calq q (firstsub q + j)")
  case (Cons e es)
  then have "bucket_ok (e # es)" using wf_bucket_at [OF assms(1,2)] by simp
  then show ?thesis using bucket_ok_hd assms(3) Cons by auto
qed (use assms(3) in simp)

lemma no_hit_no_event:
  assumes wf: "cq_wf q" and al: "aligned q n w" and x: "x \<in># events q" "priority x = Fin p"
    and no: "\<not> hit q (Fin ((of_int (n + int j) + 3 / 2) * w)) ((n + int j) mod int (nbuckets q))"
  shows "\<lfloor>p / w\<rfloor> \<noteq> n + int j"
proof
  assume v: "\<lfloor>p / w\<rfloor> = n + int j"
  define i where "i = nat ((n + int j) mod int (nbuckets q))"
  have "0 < nbuckets q" using calendar_bounds [OF wf] by simp
  then have i: "i < nbuckets q" by (simp add: i_def nat_less_iff)
  have xi: "x \<in> set (calq q (firstsub q + i))" using aligned_event [OF al x(1)] x(2) v by (auto simp: i_def)
  then have "calq q (firstsub q + i) \<noteq> []" by auto
  moreover have "hd (calq q (firstsub q + i)) \<in># events q"
    using i calculation by (auto simp: events_def in_contents_iff intro!: exI [of _ i])
  then obtain r where "priority (hd (calq q (firstsub q + i))) = Fin r" using aligned_event [OF al] by blast
  moreover have "r \<le> p" using bucket_head_le [OF wf i xi] x(2) calculation by simp
  moreover have w: "0 < w" using al by (simp add: aligned_def)
  then have "p < (of_int (n + int j) + 3 / 2) * w"
    using virtual_bucket [OF w, of p] v by (simp add: algebra_simps)
  ultimately have "hit q (Fin ((of_int (n + int j) + 3 / 2) * w)) ((n + int j) mod int (nbuckets q))"
    by (simp add: hit_def Let_def i_def)
  then show False using no by blast
qed

lemma hit_is_minimum:
  assumes wf: "cq_wf q" and al: "aligned q n w"
    and before: "\<And>x p. x \<in># events q \<Longrightarrow> priority x = Fin p \<Longrightarrow> n + int m \<le> \<lfloor>p / w\<rfloor>"
    and found: "hit q (Fin ((of_int (n + int m) + 3 / 2) * w)) ((n + int m) mod int (nbuckets q))"
    and i: "i = nat ((n + int m) mod int (nbuckets q))"
  shows "\<exists>p. priority (hd (calq q (firstsub q + i))) = Fin p \<and> \<lfloor>p / w\<rfloor> = n + int m \<and>
    (\<forall>x \<in># events q. fle (Fin p) (priority x))"
proof -
  have two: "2 \<le> nbuckets q" using calendar_bounds [OF wf] by simp
  then have i_less: "i < nbuckets q" by (simp add: i nat_less_iff)
  define e where "e = hd (calq q (firstsub q + i))"
  have e: "e \<in> set (calq q (firstsub q + i))" "flt (priority e) (Fin ((of_int (n + int m) + 3 / 2) * w))"
    using found by (auto simp: hit_def Let_def e_def i)
  obtain p where p: "priority e = Fin p" "\<lfloor>p / w\<rfloor> mod int (nbuckets q) = int i"
    using al e(1) i_less unfolding aligned_def by blast
  have ev: "e \<in># events q" using e(1) i_less by (auto simp: events_def in_contents_iff)
  have w: "0 < w" using al by (simp add: aligned_def)
  have "p < (of_int (n + int m) + 3 / 2) * w" using e(2) p(1) by simp
  then have "of_int \<lfloor>p / w\<rfloor> * w < (of_int (n + int m) + 3 / 2) * w" using virtual_bucket [OF w, of p] by linarith
  then have "real_of_int \<lfloor>p / w\<rfloor> < of_int (n + int m) + 3 / 2" using w by simp
  then have near: "\<lfloor>p / w\<rfloor> \<le> n + int m + 1" by linarith
  have "int i = (n + int m) mod int (nbuckets q)" using two by (simp add: i)
  then have "int (nbuckets q) dvd \<lfloor>p / w\<rfloor> - (n + int m)" using p(2) mod_eq_dvd_iff by metis
  moreover have "0 \<le> \<lfloor>p / w\<rfloor> - (n + int m)" using before [OF ev p(1)] by simp
  ultimately have v: "\<lfloor>p / w\<rfloor> = n + int m" using near two zdvd_not_zless [of "\<lfloor>p / w\<rfloor> - (n + int m)" "int (nbuckets q)"] by linarith
  have "fle (Fin p) (priority x)" if x: "x \<in># events q" for x
  proof -
    obtain r where r: "priority x = Fin r" "x \<in> set (calq q (firstsub q + nat (\<lfloor>r / w\<rfloor> mod int (nbuckets q))))"
      using aligned_event [OF al x] by blast
    show ?thesis
    proof (cases "\<lfloor>r / w\<rfloor> = n + int m")
      case True
      then show ?thesis using bucket_head_le [OF wf i_less, of x] r p(1) by (simp add: e_def i)
    next
      case False
      then have "\<lfloor>p / w\<rfloor> + 1 \<le> \<lfloor>r / w\<rfloor>" using before [OF x r(1)] v by linarith
      then have "(of_int \<lfloor>p / w\<rfloor> + 1) * w \<le> of_int \<lfloor>r / w\<rfloor> * w" using w by (simp add: mult_right_mono)
      then show ?thesis using virtual_bucket [OF w, of p] virtual_bucket [OF w, of r] r(1) by simp
    qed
  qed
  then show ?thesis using p v by (auto simp: e_def)
qed

text \<open>The search from an aligned queue.\<close>

lemma find_node_aligned:
  assumes wf: "cq_wf q" and size: "0 < qsize q" and al: "aligned q n w"
  obtains q1 i e es p where "find_node Fin q = Inr (q1, int i)" "q1 = q\<lparr>buckettop := buckettop q1\<rparr>" "i < nbuckets q"
    "calq q (firstsub q + i) = e # es" "priority e = Fin p" "\<forall>x \<in># events q. fle (Fin p) (priority x)"
    "\<lfloor>p / w\<rfloor> < n + int (nbuckets q) \<longrightarrow> int i = \<lfloor>p / w\<rfloor> mod int (nbuckets q) \<and>
       buckettop q1 = Fin ((of_int \<lfloor>p / w\<rfloor> + 3 / 2) * w)"
proof -
  let ?N = "nbuckets q"
  have N: "0 < ?N" using calendar_bounds [OF wf] by simp
  have lb: "0 \<le> lastbucket q" "lastbucket q < int ?N" using al N by (simp_all add: aligned_def)
  obtain m where m: "\<forall>j<m. \<not> hit q (top_after Fin q j) ((lastbucket q + int j) mod int ?N)"
    "m < ?N \<and> hit q (top_after Fin q m) ((lastbucket q + int m) mod int ?N) \<and>
     scan ?N Fin q (lastbucket q) = Inr (q\<lparr>buckettop := top_after Fin q m\<rparr>, Some ((lastbucket q + int m) mod int ?N)) \<or>
     m = ?N \<and> scan ?N Fin q (lastbucket q) = Inr (q\<lparr>buckettop := top_after Fin q m\<rparr>, None)"
    using scan_spec [OF lb, of 0 ?N Fin] N lb by (auto simp: mod_pos_pos_trivial)
  have before: "n + int m \<le> \<lfloor>p / w\<rfloor>" if x: "x \<in># events q" "priority x = Fin p" for x p
  proof (rule ccontr)
    assume "\<not> n + int m \<le> \<lfloor>p / w\<rfloor>"
    moreover have ge: "n \<le> \<lfloor>p / w\<rfloor>" using aligned_event [OF al x(1)] x(2) by auto
    ultimately have j: "nat (\<lfloor>p / w\<rfloor> - n) < m" by linarith
    define j where "j = nat (\<lfloor>p / w\<rfloor> - n)"
    have "\<lfloor>p / w\<rfloor> \<noteq> n + int j"
      using m(1) j unfolding j_def [symmetric]
      by (intro no_hit_no_event [OF wf al x]) (simp add: aligned_top_after [OF al] aligned_index [OF al])
    then show False using ge by (simp add: j_def)
  qed
  show thesis
  proof (cases "m < ?N")
    case True
    define i where "i = nat ((n + int m) mod int ?N)"
    have h: "hit q (Fin ((of_int (n + int m) + 3 / 2) * w)) ((n + int m) mod int ?N)"
      using m(2) True by (simp add: aligned_top_after [OF al] aligned_index [OF al])
    obtain p where p: "priority (hd (calq q (firstsub q + i))) = Fin p" "\<lfloor>p / w\<rfloor> = n + int m"
      "\<forall>x \<in># events q. fle (Fin p) (priority x)"
      using hit_is_minimum [OF wf al _ h i_def] before by blast
    have ne: "calq q (firstsub q + i) \<noteq> []" using h by (auto simp: hit_def Let_def i_def)
    have idx: "int i = (n + int m) mod int ?N" "i < ?N" using N by (simp_all add: i_def nat_less_iff)
    show thesis
    proof (rule that [of "q\<lparr>buckettop := top_after Fin q m\<rparr>" i "hd (calq q (firstsub q + i))" "tl (calq q (firstsub q + i))" p])
      show "find_node Fin q = Inr (q\<lparr>buckettop := top_after Fin q m\<rparr>, int i)"
        using m(2) True by (simp add: find_node_def aligned_index [OF al] idx(1))
    qed (use p ne idx in \<open>simp_all add: aligned_top_after [OF al]\<close>)
  next
    case False
    let ?q = "q\<lparr>buckettop := top_after Fin q m\<rparr>"
    have low: "lowest_of ?q {..<?N} (direct_search ?q [0..<?N] None)" using direct_search_all [of ?q] wf by simp
    have "\<exists>i<?N. calq q (firstsub q + i) \<noteq> []"
      using wf size contents_empty_iff [of "calq q" "firstsub q" ?N] by (auto simp: cq_wf_def events_def)
    then obtain i where i: "direct_search ?q [0..<?N] None = Some (i, priority (hd (calq q (firstsub q + i))))" "i < ?N"
      "calq q (firstsub q + i) \<noteq> []"
      "\<forall>k<?N. \<forall>x\<in>set (calq q (firstsub q + k)). fle (priority (hd (calq q (firstsub q + i)))) (priority x)"
      using low by (auto simp: lowest_of_def split: option.splits)
    have "hd (calq q (firstsub q + i)) \<in># events q"
      using i(2,3) by (auto simp: events_def in_contents_iff intro!: exI [of _ i])
    then obtain p where p: "priority (hd (calq q (firstsub q + i))) = Fin p" "n + int m \<le> \<lfloor>p / w\<rfloor>"
      using aligned_event [OF al] before by blast
    show thesis
    proof (rule that [of ?q i "hd (calq q (firstsub q + i))" "tl (calq q (firstsub q + i))" p])
      show "find_node Fin q = Inr (?q, int i)" using m(2) False i(1) by (simp add: find_node_def)
      show "\<forall>x \<in># events q. fle (Fin p) (priority x)"
        using i(4) p(1) by (auto simp: events_def in_contents_iff)
      show "\<lfloor>p / w\<rfloor> < n + int ?N \<longrightarrow> int i = \<lfloor>p / w\<rfloor> mod int ?N \<and> buckettop ?q = Fin ((of_int \<lfloor>p / w\<rfloor> + 3 / 2) * w)"
        using p(2) m(2) False by simp
    qed (use i p in simp_all)
  qed
qed

text \<open>Removing an event that is the earliest, in the current year.\<close>

lemma take_aligned:
  assumes wf: "cq_wf q" and al: "aligned q n w" and i: "i < nbuckets q" "calq q (firstsub q + i) = e # es"
    and p: "priority e = Fin p" "\<forall>x \<in># events q. fle (Fin p) (priority x)" "int i = \<lfloor>p / w\<rfloor> mod int (nbuckets q)"
    and q': "firstsub q' = firstsub q" "nbuckets q' = nbuckets q" "cwidth q' = cwidth q" "lastbucket q' = int i"
      "buckettop q' = Fin ((of_int \<lfloor>p / w\<rfloor> + 3 / 2) * w)" "calq q' = (calq q)(firstsub q + i := es)"
  shows "aligned q' \<lfloor>p / w\<rfloor> w"
proof -
  have w: "0 < w" "0 \<le> n" using al by (simp_all add: aligned_def)
  have ev: "x \<in># events q" if "k < nbuckets q" "x \<in> set (calq q (firstsub q + k))" for k x
    using that by (auto simp: events_def in_contents_iff)
  have "n \<le> \<lfloor>p / w\<rfloor>" using al i p(1) by (fastforce simp: aligned_def)
  then have pos: "0 \<le> \<lfloor>p / w\<rfloor>" using w(2) by linarith
  have later: "\<exists>r. priority x = Fin r \<and> \<lfloor>p / w\<rfloor> \<le> \<lfloor>r / w\<rfloor> \<and> \<lfloor>r / w\<rfloor> mod int (nbuckets q) = int k"
    if k: "k < nbuckets q" "x \<in> set (calq q (firstsub q + k))" for k x
  proof -
    obtain r where r: "priority x = Fin r" "\<lfloor>r / w\<rfloor> mod int (nbuckets q) = int k"
      using al k by (auto simp: aligned_def)
    moreover have "p \<le> r" using p(2) ev [OF k] r(1) by fastforce
    then have "\<lfloor>p / w\<rfloor> \<le> \<lfloor>r / w\<rfloor>" using w by (intro floor_mono divide_right_mono) auto
    ultimately show ?thesis by blast
  qed
  have "\<exists>r. priority x = Fin r \<and> \<lfloor>p / w\<rfloor> \<le> \<lfloor>r / w\<rfloor> \<and> \<lfloor>r / w\<rfloor> mod int (nbuckets q) = int k"
    if k: "k < nbuckets q" "x \<in> set (calq q' (firstsub q + k))" for k x
    using later [of k x] that i by (cases "k = i") (auto simp: q'(6))
  then show ?thesis using al w pos p(3) q'(1-5) unfolding aligned_def by simp
qed

lemma calqueue_get_aligned:
  assumes inv: "cq_inv q" and size: "0 < qsize q" "bot_threshold q < int (qsize q)" and al: "aligned q n w"
  obtains q' e p where "calqueue_get fuel Fin q = Inr (q', Some (payload e))" "cq_inv q'"
    "events q = add_mset e (events q')" "priority e = Fin p" "\<forall>x \<in># events q. fle (priority e) (priority x)"
    "\<lfloor>p / w\<rfloor> < n + int (nbuckets q) \<longrightarrow> aligned q' \<lfloor>p / w\<rfloor> w"
proof -
  have wf: "cq_wf q" using inv by (simp add: cq_inv_def)
  obtain q1 i e es p where f: "find_node Fin q = Inr (q1, int i)" "q1 = q\<lparr>buckettop := buckettop q1\<rparr>" "i < nbuckets q"
    "calq q (firstsub q + i) = e # es" "priority e = Fin p" "\<forall>x \<in># events q. fle (Fin p) (priority x)"
    "\<lfloor>p / w\<rfloor> < n + int (nbuckets q) \<longrightarrow> int i = \<lfloor>p / w\<rfloor> mod int (nbuckets q) \<and>
       buckettop q1 = Fin ((of_int \<lfloor>p / w\<rfloor> + 3 / 2) * w)"
    using find_node_aligned [OF wf size(1) al] .
  obtain b where q1: "q1 = q\<lparr>buckettop := b\<rparr>" using f(2) by metis
  define q' where "q' = q1\<lparr>lastbucket := int i, lastprio := priority e, qsize := qsize q1 - 1,
      calq := (calq q1)(firstsub q + i := es)\<rparr>"
  have take: "take_node q1 (int i) = Inr (q', e)" using f(3,4) by (simp add: take_node_def slot_def q1 q'_def)
  have q': "cq_wf q'" "cq_frame q1 q'" "events q = add_mset e (events q')"
    using take_node_post [of q1 "int i" "firstsub q + i"] wf f(3,4) take by (auto simp: slot_def q1)
  have "\<not> int (qsize q') < bot_threshold q'" using size by (simp add: q'_def q1 of_nat_diff)
  then have "calqueue_get fuel Fin q = Inr (q', Some (payload e))"
    using size(1) f(1) take by (simp add: calqueue_get_def calqueue_deq_def deq_with_def)
  moreover have "cq_inv q'" using inv q'(1) by (auto simp: cq_inv_def q'_def q1)
  moreover have "aligned q' \<lfloor>p / w\<rfloor> w" if "\<lfloor>p / w\<rfloor> < n + int (nbuckets q)"
    using f(7) that by (intro take_aligned [OF wf al f(3,4,5,6)]) (auto simp: q'_def q1)
  ultimately show thesis using that q'(3) f(5,6) by auto
qed

text \<open>Inserting an event that is not before the current bucket.\<close>

lemma calqueue_put_aligned:
  assumes inv: "cq_inv q" and room: "qsize q < 2 * nbuckets q" and al: "aligned q n w"
    and p: "n \<le> \<lfloor>p / w\<rfloor>" "\<lfloor>p / w\<rfloor> < 2 ^ 31"
  obtains q' where "calqueue_put fuel Fin q (Fin p) x = Inr q'" "cq_inv q'" "aligned q' n w"
    "events q' = add_mset \<lparr>priority = Fin p, payload = x\<rparr> (events q)"
proof -
  have wf: "cq_wf q" using inv by (simp add: cq_inv_def)
  have N: "0 < nbuckets q" using calendar_bounds [OF wf] by simp
  have w: "0 < w" "0 \<le> n" "cwidth q = Fin w" using al by (simp_all add: aligned_def)
  define i where "i = nat (\<lfloor>p / w\<rfloor> mod int (nbuckets q))"
  have i: "i < nbuckets q" "int i = \<lfloor>p / w\<rfloor> mod int (nbuckets q)" using N by (simp_all add: i_def nat_less_iff)
  have pos: "0 \<le> \<lfloor>p / w\<rfloor>" using p(1) w(2) by linarith
  then have "0 \<le> p / w" by simp
  then have v: "to_integer 32 (fdiv Fin (Fin p) (cwidth q)) = Some \<lfloor>p / w\<rfloor>"
    using w p by (simp add: trunc_def)
  define q' where "q' = q\<lparr>calq := (calq q)(firstsub q + i := insert_event \<lparr>priority = Fin p, payload = x\<rparr> (calq q (firstsub q + i))),
      qsize := qsize q + 1\<rparr>"
  have "slot q (c_rem \<lfloor>p / w\<rfloor> (int (nbuckets q))) = Some (firstsub q + i)"
    unfolding c_rem_nonneg [OF pos] using N by (simp add: slot_def i_def)
  then have put: "put_node Fin q (Fin p) x = Inr q'" using v by (simp add: put_node_def q'_def)
  then have "calqueue_put fuel Fin q (Fin p) x = Inr q'"
    using put_with_quiet [OF resize_idle wf] room by (simp add: calqueue_put_def)
  moreover have "cq_wf q'" "events q' = add_mset \<lparr>priority = Fin p, payload = x\<rparr> (events q)"
    using put_node_post [OF wf, of "Fin p" x Fin] put by auto
  moreover have "cq_inv q'" using inv room calculation(2) by (auto simp: cq_inv_def q'_def)
  moreover have "aligned q' n w" using al i p(1) by (auto simp: aligned_def q'_def)
  ultimately show thesis using that by blast
qed

end
