(* ===== verification/Event_Queue.thy ===== *)
theory Event_Queue
  imports Calqueue_Order
begin

text \<open>
  The contract of the event queue towards the simulation, and the properties of the calendar
  queue. The contract is a locale over the multiset of queued events; the calendar queue
  is an instance of it for every rounding function.
\<close>

section \<open>One resizing is enough\<close>

text \<open>
  The resizing function given to the operations inside a resizing is never used: it may be
  the one that does nothing.
\<close>

definition no_resize :: "'a calqueue \<Rightarrow> nat \<Rightarrow> cq_error + 'a calqueue" where
  "no_resize q n = Inr q"

lemma no_resize_idle [simp]: "idle_when_off no_resize"
  by (simp add: idle_when_off_def no_resize_def)

lemma res_bind_cong_post:
  assumes "res_post Q m" "\<And>x. Q x \<Longrightarrow> f x = g x" shows "res_bind m f = res_bind m g"
  using assms by (cases m) auto

lemma put_all_no_resize:
  assumes "idle_when_off r" "cq_wf q" "\<not> resize_enabled q \<or> qsize q + length es \<le> 2 * nbuckets q"
  shows "put_all r rnd es q = put_all no_resize rnd es q"
  using assms(2,3)
proof (induction es arbitrary: q)
  case (Cons e es)
  have "\<not> resize_enabled q \<or> qsize q < 2 * nbuckets q" using Cons.prems(2) by auto
  then have "put_with r' rnd q (priority e) (payload e) = put_node rnd q (priority e) (payload e)"
    if "idle_when_off r'" for r'
    using put_with_quiet [OF that Cons.prems(1)] by blast
  moreover have "res_bind (put_node rnd q (priority e) (payload e)) (put_all r rnd es) =
      res_bind (put_node rnd q (priority e) (payload e)) (put_all no_resize rnd es)"
    by (rule res_bind_cong_post [OF put_node_post [OF Cons.prems(1)]], rule Cons.IH)
      (use Cons.prems(2) in \<open>auto simp: cq_frame_def\<close>)
  ultimately show ?case using assms(1) by simp
qed simp

lemma deq_with_no_resize:
  assumes "idle_when_off r" "cq_wf q" "\<not> resize_enabled q"
  shows "deq_with r rnd q = deq_with no_resize rnd q"
proof (cases "qsize q = 0")
  case False
  show ?thesis unfolding deq_with_alt
  proof (simp only: False if_False, rule res_bind_cong_post [OF take_found_post [OF assms(2)]])
    fix x :: "'a calqueue \<times> 'a calqueue_node"
    assume x: "case x of (q', e) \<Rightarrow> cq_wf q' \<and> cq_frame q q' \<and> events q = add_mset e (events q')"
    obtain q' e where "x = (q', e)" by (meson surj_pair)
    then show "(case x of (q2, e) \<Rightarrow> if int (qsize q2) < bot_threshold q2
          then res_bind (r q2 (nbuckets q2 div 2)) (\<lambda>q3. Inr (q3, Some e)) else Inr (q2, Some e)) =
        (case x of (q2, e) \<Rightarrow> if int (qsize q2) < bot_threshold q2
          then res_bind (no_resize q2 (nbuckets q2 div 2)) (\<lambda>q3. Inr (q3, Some e)) else Inr (q2, Some e))"
      using x assms(1,3) by (simp add: idle_when_off_def no_resize_def cq_frame_def)
  qed (use False in simp)
qed (simp add: deq_with_def)

lemma sample_no_resize:
  assumes "idle_when_off r" "cq_wf q" "\<not> resize_enabled q"
  shows "sample r rnd n q = sample no_resize rnd n q"
  using assms(2,3)
proof (induction n arbitrary: q)
  case (Suc n)
  show ?case
  proof (cases "qsize q = 0")
    case True
    then show ?thesis by (simp add: deq_with_def)
  next
    case False
    have "0 < qsize q" using False by simp
    note post = deq_with_off_post [OF no_resize_idle Suc.prems(1) this Suc.prems(2), of rnd]
    show ?thesis
      unfolding sample.simps deq_with_no_resize [OF assms(1) Suc.prems]
      by (rule res_bind_cong_post [OF post]) (auto simp: Suc.IH cq_frame_def Suc.prems(2))
  qed
qed simp

lemma new_width_no_resize:
  assumes "idle_when_off r" "cq_wf q"
  shows "new_width r rnd q = new_width no_resize rnd q"
proof (cases "qsize q < 2")
  case False
  let ?q = "q\<lparr>resize_enabled := False\<rparr>"
  have s: "sample r rnd (nsamples (qsize q)) ?q = sample no_resize rnd (nsamples (qsize q)) ?q"
    using assms by (intro sample_no_resize) auto
  have post: "res_post (\<lambda>(q', es). cq_wf q' \<and> cq_frame ?q q' \<and> events ?q = events q' + mset es \<and> length es = nsamples (qsize q))
      (sample no_resize rnd (nsamples (qsize q)) ?q)"
    using assms(2) by (intro sample_post) (auto simp: nsamples_le)
  show ?thesis unfolding new_width_def s
    by (simp only: False if_False, rule res_bind_cong_post [OF post])
      (auto simp: put_all_no_resize [OF assms(1)] cq_frame_def)
qed (simp add: new_width_def)

lemma copy_buckets_no_resize:
  assumes "idle_when_off r" "cq_wf q"
    and "\<And>j. j < i \<Longrightarrow> old + j < firstsub q \<or> firstsub q + nbuckets q \<le> old + j"
    and "qsize q + size (contents (calq q) old i) \<le> 2 * nbuckets q"
  shows "copy_buckets r rnd old i q = copy_buckets no_resize rnd old i q"
  using assms(2-)
proof (induction i arbitrary: q)
  case (Suc i)
  have sp: "contents (calq q) old (Suc i) = contents (calq q) old i + mset (calq q (old + i))"
    by (simp add: contents_def)
  then have room: "\<not> resize_enabled q \<or> qsize q + length (calq q (old + i)) \<le> 2 * nbuckets q" using Suc.prems(3) by simp
  have "copy_buckets r rnd old i q1 = copy_buckets no_resize rnd old i q1"
    if q1: "cq_wf q1 \<and> cq_frame q q1 \<and> events q1 = events q + mset (calq q (old + i))" for q1
  proof (rule Suc.IH)
    have same: "contents (calq q1) old i = contents (calq q) old i"
    proof (rule contents_cong)
      show "calq q1 (old + j) = calq q (old + j)" if "j < i" for j
        using q1 Suc.prems(2) [of j] that by (auto simp: cq_frame_def)
    qed
    show "old + j < firstsub q1 \<or> firstsub q1 + nbuckets q1 \<le> old + j" if "j < i" for j
      using Suc.prems(2) [of j] that q1 by (simp add: cq_frame_def)
    have "qsize q1 = qsize q + length (calq q (old + i))" using q1 Suc.prems(1) by (simp add: cq_wf_def)
    then show "qsize q1 + size (contents (calq q1) old i) \<le> 2 * nbuckets q1"
      using Suc.prems(3) q1 sp by (simp add: same cq_frame_def)
  qed (use q1 in blast)
  then show ?case unfolding copy_buckets.simps put_all_no_resize [OF assms(1) Suc.prems(1) room]
    by (rule res_bind_cong_post [OF put_all_post [OF no_resize_idle Suc.prems(1) room]])
qed simp

lemma resize_no_resize:
  assumes "cq_wf q" "calendar_size newsize" "qsize q \<le> 2 * newsize"
  shows "resize (Suc fuel) rnd q newsize = resize 1 rnd q newsize"
proof (cases "resize_enabled q")
  case True
  let ?copy = "\<lambda>r (q1, bwidth). res_bind
      (localinit rnd q1 (if firstsub q1 = 0 then CALQSPACE - newsize else 0) newsize bwidth (lastprio q1))
      (copy_buckets r rnd (firstsub q1) (nbuckets q1))"
  have "?copy r x = ?copy no_resize x" if "idle_when_off r"
    and x: "case x of (q1, w) \<Rightarrow> cq_wf q1 \<and> cq_frame q q1 \<and> events q1 = events q" for r x
  proof -
    obtain q1 w where x_eq: "x = (q1, w)" by (meson surj_pair)
    have q1: "cq_wf q1" "qsize q1 \<le> 2 * newsize" using x x_eq assms(1,3) by (auto simp: cq_wf_def)
    show ?thesis unfolding x_eq prod.case
      by (rule res_bind_cong_post [OF localinit_ready [OF q1(1) assms(2) q1(2)]], rule copy_buckets_no_resize [OF that(1)])
        blast+
  qed
  then have "res_bind (new_width no_resize rnd q) (?copy r) = res_bind (new_width no_resize rnd q) (?copy no_resize)"
    if "idle_when_off r" for r
    using that by (intro res_bind_cong_post [OF new_width_post [OF no_resize_idle assms(1) True]]) blast
  then have "resize (Suc f) rnd q newsize = res_bind (new_width no_resize rnd q) (?copy no_resize)" for f
    unfolding resize.simps new_width_no_resize [OF resize_idle assms(1)] using True
    by (simp only: not_True_eq_False if_False resize_idle)
  then show ?thesis by (simp only: One_nat_def)
qed simp

lemma calqueue_put_fuel:
  assumes "cq_inv q"
  shows "calqueue_put (Suc fuel) rnd q p x = calqueue_put 1 rnd q p x"
proof -
  have wf: "cq_wf q" using assms by (simp add: cq_inv_def)
  have eq: "resize (Suc fuel) rnd q1 (2 * nbuckets q1) = resize 1 rnd q1 (2 * nbuckets q1)"
    if "cq_wf q1" "cq_frame q q1" "qsize q1 = Suc (qsize q)" "nbuckets q1 < MAXNBUCKETS" for q1
    using that grow_ok [OF assms that] by (intro resize_no_resize) auto
  show ?thesis unfolding calqueue_put_def put_with_def
    by (rule res_bind_cong_post [OF put_node_post [OF wf]]) (metis eq)
qed

lemma calqueue_deq_fuel:
  assumes "cq_inv q"
  shows "calqueue_deq (Suc fuel) rnd q = calqueue_deq 1 rnd q"
proof (cases "qsize q = 0")
  case False
  then have wf: "cq_wf q" "0 < qsize q" using assms by (simp_all add: cq_inv_def)
  have eq: "(if int (qsize q1) < bot_threshold q1
       then res_bind (resize (Suc fuel) rnd q1 (nbuckets q1 div 2)) (\<lambda>q3. Inr (q3, Some e)) else Inr (q1, Some e)) =
      (if int (qsize q1) < bot_threshold q1
       then res_bind (resize 1 rnd q1 (nbuckets q1 div 2)) (\<lambda>q3. Inr (q3, Some e)) else Inr (q1, Some e))"
    if "cq_wf q1" for q1 :: "'a calqueue" and e :: "'a calqueue_node"
  proof (cases "int (qsize q1) < bot_threshold q1")
    case True
    show ?thesis unfolding resize_no_resize [OF that shrink_ok [OF that True], of fuel] ..
  qed simp
  show ?thesis unfolding calqueue_deq_def deq_with_alt
  proof (simp only: False if_False, rule res_bind_cong_post [OF take_found_post [OF wf]])
    fix x :: "'a calqueue \<times> 'a calqueue_node"
    assume "case x of (q', e) \<Rightarrow> cq_wf q' \<and> cq_frame q q' \<and> events q = add_mset e (events q')"
    then show "(case x of (q1, e) \<Rightarrow> if int (qsize q1) < bot_threshold q1
         then res_bind (resize (Suc fuel) rnd q1 (nbuckets q1 div 2)) (\<lambda>q3. Inr (q3, Some e)) else Inr (q1, Some e)) =
       (case x of (q1, e) \<Rightarrow> if int (qsize q1) < bot_threshold q1
         then res_bind (resize 1 rnd q1 (nbuckets q1 div 2)) (\<lambda>q3. Inr (q3, Some e)) else Inr (q1, Some e))"
      using eq by (cases x) (simp only: prod.case)
  qed
qed (simp add: calqueue_deq_empty)

section \<open>The contract\<close>

text \<open>
  An event queue as its client sees it: the state has an invariant and holds a multiset of
  events, inserting adds one event, removing returns one of the events, and returns none
  only if there is none. Either may stop with one of the errors \<open>bad\<close>.
\<close>

locale event_queue =
  fixes inv :: "'q \<Rightarrow> bool" and ev :: "'q \<Rightarrow> 'n multiset" and bad :: "'e \<Rightarrow> bool"
    and put :: "'q \<Rightarrow> 'n \<Rightarrow> 'e + 'q" and get :: "'q \<Rightarrow> 'e + ('q \<times> 'n option)"
  assumes put_adds: "inv q \<Longrightarrow> put q n = Inr q' \<Longrightarrow> inv q' \<and> ev q' = add_mset n (ev q)"
    and put_stops: "inv q \<Longrightarrow> put q n = Inl err \<Longrightarrow> bad err"
    and get_removes: "inv q \<Longrightarrow> get q = Inr (q', Some n) \<Longrightarrow> inv q' \<and> ev q = add_mset n (ev q')"
    and get_none: "inv q \<Longrightarrow> get q = Inr (q', None) \<Longrightarrow> q' = q \<and> ev q = {#}"
    and get_stops: "inv q \<Longrightarrow> get q = Inl err \<Longrightarrow> bad err"
begin

lemma put_cases:
  assumes "inv q"
  obtains (stop) err where "put q n = Inl err" "bad err"
    | (added) q' where "put q n = Inr q'" "inv q'" "ev q' = add_mset n (ev q)"
  using assms put_adds put_stops by (cases "put q n") blast+

lemma get_cases:
  assumes "inv q" "ev q \<noteq> {#}"
  obtains (stop) err where "get q = Inl err" "bad err"
    | (event) q' n where "get q = Inr (q', Some n)" "inv q'" "n \<in># ev q" "ev q' = ev q - {#n#}"
proof (cases "get q")
  case (Inl err)
  then show ?thesis using stop get_stops assms(1) by blast
next
  case (Inr r)
  obtain q' e where r: "r = (q', e)" by (meson surj_pair)
  have "e \<noteq> None" using Inr r get_none [OF assms(1), of q'] assms(2) by metis
  then obtain n where "e = Some n" by blast
  then have g: "get q = Inr (q', Some n)" using Inr r by simp
  then have "inv q'" "ev q = add_mset n (ev q')" using get_removes [OF assms(1)] by blast+
  then have "n \<in># ev q" "ev q' = ev q - {#n#}" by (metis union_single_eq_member, metis add_mset_remove_trivial)
  with g \<open>inv q'\<close> show ?thesis by (rule event)
qed

lemma put_two:
  assumes "inv q" "put q a = Inr q1" "put q1 b = Inr q2"
  shows "inv q2 \<and> ev q2 = add_mset b (add_mset a (ev q))"
  using put_adds [OF assms(1,2)] put_adds [OF _ assms(3)] by simp

end

definition cq_stop :: "cq_error \<Rightarrow> bool" where
  "cq_stop err \<longleftrightarrow> err = Undefined_cast \<or> err = Outside_calendar"

lemma res_postD:
  "res_post P m \<Longrightarrow> (case m of Inl err \<Rightarrow> cq_stop err | Inr x \<Rightarrow> P x)"
  by (cases m) (auto simp: cq_stop_def)

lemma calqueue_deq_cases:
  assumes "cq_inv q"
  shows "case calqueue_deq (Suc fuel) rnd q of
      Inl err \<Rightarrow> cq_stop err
    | Inr (q', None) \<Rightarrow> q' = q \<and> events q = {#}
    | Inr (q', Some e) \<Rightarrow> cq_inv q' \<and> events q = add_mset e (events q')"
proof (cases "qsize q = 0")
  case True
  then show ?thesis using assms by (simp add: calqueue_deq_empty cq_inv_def cq_wf_def)
next
  case False
  then show ?thesis using res_postD [OF calqueue_deq_post [OF assms, of fuel rnd]] by (auto split: sum.splits)
qed

interpretation cq: event_queue cq_inv events cq_stop
    "\<lambda>q n. calqueue_put 1 rnd q (priority n) (payload n)" "calqueue_deq 1 rnd" for rnd
proof unfold_locales
  fix q q' :: "'a calqueue" and n :: "'a calqueue_node" and err
  assume inv: "cq_inv q"
  note put = res_postD [OF calqueue_put_post [OF inv, of "priority n" "payload n" 0 rnd]]
    and get = calqueue_deq_cases [OF inv, of 0 rnd]
  show "calqueue_put 1 rnd q (priority n) (payload n) = Inr q' \<Longrightarrow> cq_inv q' \<and> events q' = add_mset n (events q)"
    using put by simp
  show "calqueue_put 1 rnd q (priority n) (payload n) = Inl err \<Longrightarrow> cq_stop err" using put by simp
  show "calqueue_deq 1 rnd q = Inr (q', Some n) \<Longrightarrow> cq_inv q' \<and> events q = add_mset n (events q')" using get by simp
  show "calqueue_deq 1 rnd q = Inr (q', None) \<Longrightarrow> q' = q \<and> events q = {#}" using get by simp
  show "calqueue_deq 1 rnd q = Inl err \<Longrightarrow> cq_stop err" using get by simp
qed

end
