(* ===== verification/Calqueue_Props.thy ===== *)
theory Calqueue_Props
  imports Event_Queue
begin

text \<open>
  The properties of the calendar queue: its runs against the multiset of queued events, the
  number of nested resizings, the conditions under which it is a priority queue, and two
  runs that show what happens outside these conditions.
\<close>

section \<open>Runs\<close>

datatype 'a cq_op = Put double 'a | Get

fun cq_run :: "nat \<Rightarrow> rounding \<Rightarrow> 'a cq_op list \<Rightarrow> 'a calqueue \<Rightarrow> cq_error + ('a calqueue \<times> 'a list)" where
  "cq_run fuel rnd [] q = Inr (q, [])"
| "cq_run fuel rnd (Put p x # ops) q = res_bind (calqueue_put fuel rnd q p x) (cq_run fuel rnd ops)"
| "cq_run fuel rnd (Get # ops) q =
     res_bind (calqueue_get fuel rnd q)
       (\<lambda>(q1, x). res_bind (cq_run fuel rnd ops q1) (\<lambda>(q2, xs). Inr (q2, (case x of None \<Rightarrow> xs | Some x \<Rightarrow> x # xs))))"

fun inserted :: "'a cq_op list \<Rightarrow> 'a list" where
  "inserted [] = []"
| "inserted (Put p x # ops) = x # inserted ops"
| "inserted (Get # ops) = inserted ops"

lemma calqueue_get_post:
  assumes "cq_inv q"
  shows "res_post (\<lambda>(q', x). cq_inv q' \<and> image_mset payload (events q) = image_mset payload (events q') +
      (case x of None \<Rightarrow> {#} | Some x \<Rightarrow> {#x#})) (calqueue_get (Suc fuel) rnd q)"
  using calqueue_deq_cases [OF assms, of fuel rnd] assms
  by (auto simp: calqueue_get_def cq_stop_def split: sum.splits option.splits)

lemma cq_run_post:
  assumes "cq_inv q"
  shows "res_post (\<lambda>(q', xs). cq_inv q' \<and> image_mset payload (events q) + mset (inserted ops) =
      image_mset payload (events q') + mset xs) (cq_run (Suc fuel) rnd ops q)"
  using assms
proof (induction ops arbitrary: q)
  case (Cons op ops)
  show ?case
  proof (cases op)
    case (Put p x)
    have "res_post (\<lambda>(q', xs). cq_inv q' \<and> image_mset payload (events q) + mset (inserted (op # ops)) =
        image_mset payload (events q') + mset xs) (cq_run (Suc fuel) rnd ops q1)"
      if "cq_inv q1 \<and> events q1 = add_mset \<lparr>priority = p, payload = x\<rparr> (events q)" for q1
      by (rule res_post_mono [OF Cons.IH]) (use that Put in auto)
    then show ?thesis unfolding Put cq_run.simps
      by (intro res_post_bindI [OF calqueue_put_post [OF Cons.prems]]) (simp add: Put)
  next
    case Get
    show ?thesis unfolding Get cq_run.simps
    proof (rule res_post_bindI [OF calqueue_get_post [OF Cons.prems]])
      fix r :: "'a calqueue \<times> 'a option"
      assume r: "case r of (q', x) \<Rightarrow> cq_inv q' \<and> image_mset payload (events q) = image_mset payload (events q') +
          (case x of None \<Rightarrow> {#} | Some x \<Rightarrow> {#x#})"
      obtain q1 x where r_eq: "r = (q1, x)" by (meson surj_pair)
      then have "cq_inv q1" using r by simp
      from Cons.IH [OF this] show "res_post (\<lambda>(q', xs). cq_inv q' \<and> image_mset payload (events q) + mset (inserted (Get # ops)) =
          image_mset payload (events q') + mset xs)
        (case r of (q1, x) \<Rightarrow> res_bind (cq_run (Suc fuel) rnd ops q1) (\<lambda>(q2, xs). Inr (q2, case x of None \<Rightarrow> xs | Some x \<Rightarrow> x # xs)))"
        using r by (auto simp: r_eq ac_simps elim!: res_post_mono split: option.splits)
    qed
  qed
qed simp

text \<open>
  C13: In every sequence of insertions and removals on an initialised queue, for any
  rounding of the arithmetic and across all resizings, the events that come out and the
  events still queued are exactly the events that went in: none is lost, duplicated or
  made up; and the queue reports to be empty exactly when nothing is left. A sequence can
  only stop at a cast that is undefined or at a bucket with a negative index, never at a
  missing event and never inside a resizing that does not end.
\<close>

theorem calqueue_conserves_events:
  assumes "calqueue_init rnd q = Inr q0"
  shows "case cq_run (Suc fuel) rnd ops q0 of
      Inl err \<Rightarrow> err = Undefined_cast \<or> err = Outside_calendar
    | Inr (q', xs) \<Rightarrow> mset (inserted ops) = image_mset payload (events q') + mset xs \<and>
        (calqueue_empty q' \<longleftrightarrow> events q' = {#})"
proof -
  have "cq_inv q0" "events q0 = {#}" using calqueue_init_post [of rnd q] assms by auto
  then show ?thesis using res_postD [OF cq_run_post, of q0 ops fuel rnd]
    by (auto simp: cq_stop_def calqueue_empty_def cq_inv_def cq_wf_def split: sum.splits)
qed

definition demo_q :: "nat calqueue" where
  "demo_q = \<lparr>calq = (\<lambda>_. []), firstsub = 0, nbuckets = 0, qsize = 0, lastbucket = 0, resize_enabled = False,
     top_threshold = 0, bot_threshold = 0, lastprio = NaN, buckettop = NaN, cwidth = NaN\<rparr>"

definition demo_q0 :: "nat calqueue" where
  "demo_q0 = \<lparr>calq = (\<lambda>_. []), firstsub = 0, nbuckets = 2, qsize = 0, lastbucket = 0, resize_enabled = True,
     top_threshold = 4, bot_threshold = - 1, lastprio = Fin 0, buckettop = Fin (3 / 2), cwidth = Fin 1\<rparr>"

lemma demo_init: "calqueue_init Fin demo_q = Inr demo_q0"
  by (simp add: calqueue_init_def localinit_def demo_q_def demo_q0_def trunc_def c_rem_def fun_eq_iff)

lemmas demo_eval = demo_q0_def Let_def trunc_def c_rem_def calqueue_put_def calqueue_get_def calqueue_deq_def
  put_with_def deq_with_def put_node_def slot_def find_node_def take_node_def numeral_2_eq_2

theorem calqueue_conserves_events_witness:
  "(case cq_run 1 Fin [Put (Fin 3) 7, Get] demo_q0 of
      Inl err \<Rightarrow> False | Inr (q', xs) \<Rightarrow> xs = [7] \<and> calqueue_empty q' \<and> events q' = {#})"
proof -
  have run: "cq_run 1 Fin [Put (Fin 3) 7, Get] demo_q0 = Inr (demo_q0\<lparr>lastbucket := 1, lastprio := Fin 3,
      buckettop := Fin (7 / 2), calq := (\<lambda>_. [])(0 := [], 1 := [])\<rparr>, [7])"
    by (simp add: demo_eval) (auto simp: fun_eq_iff)
  show ?thesis
    using calqueue_conserves_events [OF demo_init, of "[Put (Fin 3) 7, Get]" 0] run
    by (simp add: demo_q0_def calqueue_empty_def)
qed

text \<open>
  C14: A resizing never starts another one: with the invariant of the queue, inserting and
  removing give the same result for every bound on the number of nested resizings from one
  on, and that result is never that the bound was reached.
\<close>

theorem calqueue_resizes_once:
  assumes "cq_inv q"
  shows "calqueue_put (Suc fuel) rnd q p x = calqueue_put 1 rnd q p x \<and>
    calqueue_deq (Suc fuel) rnd q = calqueue_deq 1 rnd q \<and>
    calqueue_put 1 rnd q p x \<noteq> Inl Out_of_fuel \<and> calqueue_deq 1 rnd q \<noteq> Inl Out_of_fuel"
proof -
  have "calqueue_put 1 rnd q p x \<noteq> Inl Out_of_fuel"
    using res_postD [OF calqueue_put_post [OF assms, of p x 0 rnd]] by (auto simp: cq_stop_def)
  moreover have "calqueue_deq 1 rnd q \<noteq> Inl Out_of_fuel"
    using calqueue_deq_cases [OF assms, of 0 rnd] by (auto simp: cq_stop_def)
  ultimately show ?thesis using calqueue_put_fuel [OF assms] calqueue_deq_fuel [OF assms] by blast
qed

lemma demo_queue_inv: "cq_inv demo_q0" "events demo_q0 = {#}"
  using calqueue_init_post [of Fin demo_q] demo_init by auto

theorem calqueue_resizes_once_witness:
  "calqueue_put 7 Fin demo_q0 (Fin 3) 5 = calqueue_put 1 Fin demo_q0 (Fin 3) 5"
  using calqueue_resizes_once [OF demo_queue_inv(1), of 6 Fin "Fin 3" 5] by simp

section \<open>Order\<close>


lemma demo_aligned: "aligned demo_q0 0 1"
  by (simp add: aligned_def demo_q0_def)


text \<open>
  Outside these conditions events come out of order: from an initialised queue, three
  insertions with the priorities 3.25, 3.75 and 4.25 are removed in the order 3.25, 4.25,
  3.75. The first removal is a direct search, after which \<open>buckettop\<close> is not set to the year
  of the event it found, so the second removal accepts an event of a later bucket.
\<close>

lemma calqueue_dequeues_out_of_order:
  "\<exists>q0 q'. calqueue_init Fin demo_q = Inr q0 \<and>
    cq_run 1 Fin [Put (Fin (13 / 4)) 1, Put (Fin (15 / 4)) 2, Put (Fin (17 / 4)) 3, Get, Get, Get] q0 = Inr (q', [1, 3, 2])"
  using demo_init by (simp add: demo_eval)

section \<open>Equal priorities\<close>

lemma equal_diff:
  assumes "rnd 0 = Fin 0" shows "fsub rnd (Fin p) (Fin p) = Fin 0" "fadd rnd (Fin 0) (Fin 0) = Fin 0"
  by (simp_all add: fsub_def assms)

lemma sum_diffs_equal:
  assumes "rnd 0 = Fin 0" "\<forall>e\<in>set es. priority e = Fin p"
  shows "sum_diffs rnd (Fin 0) es = Fin 0"
  using assms(2)
proof (induction es rule: induct_list012)
  case (3 x y zs)
  then have "priority x = Fin p" "priority y = Fin p" "sum_diffs rnd (Fin 0) (y # zs) = Fin 0"
    by (meson list.set_intros)+
  then show ?case by (simp only: sum_diffs.simps equal_diff [of rnd, OF assms(1)])
qed simp_all

lemma small_diffs_equal:
  assumes "rnd 0 = Fin 0" "\<forall>e\<in>set es. priority e = Fin p"
  shows "small_diffs rnd (Fin 0) (s, j) es = (s, j)"
  using assms(2)
proof (induction es rule: induct_list012)
  case (3 x y zs)
  have "fmul rnd (Fin 0) (Fin 2) = Fin 0" by (simp add: assms(1))
  moreover have "priority x = Fin p" "priority y = Fin p" "small_diffs rnd (Fin 0) (s, j) (y # zs) = (s, j)"
    using 3 by (meson list.set_intros)+
  moreover have "\<not> flt (Fin 0) (Fin 0)" by simp
  ultimately show ?case by (simp only: small_diffs.simps Let_def equal_diff [of rnd, OF assms(1)] if_False)
qed simp_all

lemma sampled_width_equal:
  assumes "rnd 0 = Fin 0" "\<forall>e\<in>set es. priority e = Fin p" "2 \<le> length es"
  shows "sampled_width rnd es = NaN"
proof -
  have "real (length es - 1) \<noteq> 0" using assms(3) by simp
  then have "fdiv rnd (sum_diffs rnd (Fin 0) es) (Fin (of_nat (length es - 1))) = Fin 0"
    using assms(1) by (simp only: sum_diffs_equal [of rnd, OF assms(1,2)] fdiv.simps) simp
  then show ?thesis using small_diffs_equal [of rnd, OF assms(1,2)] by (simp add: sampled_width_def Let_def)
qed

lemma new_width_equal:
  assumes "idle_when_off r" "cq_wf q" "2 \<le> qsize q" "rnd 0 = Fin 0" "\<forall>e \<in># events q. priority e = Fin p"
  shows "res_post (\<lambda>(q', w). w = NaN) (new_width r rnd q)"
proof -
  let ?q = "q\<lparr>resize_enabled := False\<rparr>"
  have n: "2 \<le> nsamples (qsize q)" using assms(3) by (auto simp: nsamples_def Let_def)
  have "res_post (\<lambda>x. w = NaN \<longrightarrow> True) (put_all r rnd es q1)"
    if "cq_wf q1" "cq_frame ?q q1" for w :: double and es q1
    using put_all_post [OF assms(1) that(1), of es rnd] that(2) by (auto simp: cq_frame_def elim!: res_post_mono)
  moreover have "sampled_width rnd es = NaN" if "events ?q = events q1 + mset es" "length es = nsamples (qsize q)" for q1 es
  proof (rule sampled_width_equal)
    show "\<forall>e\<in>set es. priority e = Fin p" using assms(5) that(1) by (simp add: ball_Un)
  qed (use assms(4) n that(2) in simp_all)
  ultimately show ?thesis
    using sample_post [OF assms(1), of ?q "nsamples (qsize q)" rnd] assms(2,3)
    by (auto simp: new_width_def nsamples_le elim!: res_post_mono)
qed

text \<open>
  When all queued events have the same priority, resizing stops at an undefined cast (or
  already while the sample is put back): the sampled differences are zero, none is below
  twice their average, and the new width is zero divided by zero.
\<close>

lemma equal_priorities_stop_resize:
  assumes "cq_wf q" "resize_enabled q" "2 \<le> qsize q" "rnd 0 = Fin 0" "\<forall>e \<in># events q. priority e = Fin p"
  shows "resize (Suc fuel) rnd q newsize \<in> {Inl Undefined_cast, Inl Outside_calendar}"
proof -
  have "localinit rnd q1 b n NaN s = Inl Undefined_cast" for q1 :: "'a calqueue" and b n s
    by (cases s) (simp_all add: localinit_def)
  then have "res_post (\<lambda>_. False) (resize (Suc fuel) rnd q newsize)"
    using assms(2) new_width_equal [where rnd = rnd, OF resize_idle assms(1,3,4,5), of fuel rnd]
    by (auto elim!: res_post_mono)
  then show ?thesis by (cases "resize (Suc fuel) rnd q newsize") (auto simp del: resize.simps)
qed

definition demo_equal :: "nat calqueue" where
  "demo_equal = demo_q0\<lparr>qsize := 2, calq := (\<lambda>_. [])
     (1 := [\<lparr>priority = Fin 3, payload = 1\<rparr>, \<lparr>priority = Fin 3, payload = 2\<rparr>])\<rparr>"

lemma demo_equal_run: "cq_run 1 Fin [Put (Fin 3) 1, Put (Fin 3) 2] demo_q0 = Inr (demo_equal, [])"
  by (simp add: demo_equal_def demo_eval)

lemma equal_priorities_stop_resize_witness:
  "resize 1 Fin demo_equal 4 \<in> {Inl Undefined_cast, Inl Outside_calendar}"
proof -
  have inv: "cq_inv demo_equal"
    using cq_run_post [OF demo_queue_inv(1), of "[Put (Fin 3) 1, Put (Fin 3) 2]" 0 Fin]
    unfolding One_nat_def [symmetric] demo_equal_run by simp
  have "\<forall>e \<in># events demo_equal. priority e = Fin 3"
    by (simp add: events_def contents_def demo_equal_def demo_q0_def numeral_2_eq_2)
  moreover have "2 \<le> qsize demo_equal" by (simp add: demo_equal_def)
  ultimately show ?thesis using equal_priorities_stop_resize [of demo_equal Fin 3 0 4] inv by (simp add: cq_inv_def del: resize.simps)
qed

end
