(* ===== verification/Numerical.thy ===== *)
theory Numerical
  imports Double "HOL-Library.Word"
begin

unbundle bit_operations_syntax

text \<open>
  The random numbers of the testbed, \<open>libfibers/testbed/src/numerical.c\<close>. The seed of a
  thread is a 64-bit integer whose two 32-bit halves are the states of two
  multiply-with-carry generators; on the little-endian machine the first half is the low
  one. The results of \<open>random\<close> of the C library are part of the state: a sequence whose first
  element is the next result. \<open>log\<close> is an argument, like the rounding function.
\<close>

section \<open>Generators\<close>

record rng =
  master_seed :: "64 word"
  random_results :: "nat \<Rightarrow> nat"

definition low_half :: "64 word \<Rightarrow> 32 word" where
  "low_half s = ucast s"

definition high_half :: "64 word \<Rightarrow> 32 word" where
  "high_half s = ucast (drop_bit 32 s)"

definition join_halves :: "32 word \<Rightarrow> 32 word \<Rightarrow> 64 word" where
  "join_halves lo hi = ucast lo OR push_bit 32 (ucast hi)"

definition seeded :: "rng \<Rightarrow> rng" where
  "seeded g = (if master_seed g = 0
     then \<lparr>master_seed = of_nat (random_results g 0), random_results = (\<lambda>k. random_results g (Suc k))\<rparr> else g)"

definition mwc :: "32 word \<Rightarrow> 32 word \<Rightarrow> 32 word" where
  "mwc a s = a * (s AND 0xFFFF) + drop_bit 16 s"

definition Random :: "rounding \<Rightarrow> rng \<Rightarrow> double \<times> rng" where
  "Random rnd g =
     (let g1 = seeded g;
          seed1 = mwc 36969 (low_half (master_seed g1));
          seed2 = mwc 18000 (high_half (master_seed g1));
          u = push_bit 16 seed1 + drop_bit 16 seed1 + seed2
      in (fmul rnd (fadd rnd (Fin (of_nat (unat u))) (Fin 1)) (rnd (2328306435454494 / 10 ^ 25)),
          g1\<lparr>master_seed := join_halves seed1 seed2\<rparr>))"

text \<open>A negative mean ends the program: the result \<open>None\<close>.\<close>

definition Expent :: "rounding \<Rightarrow> (double \<Rightarrow> double) \<Rightarrow> double \<Rightarrow> rng \<Rightarrow> (double \<times> rng) option" where
  "Expent rnd lg mean g =
     (if flt mean (Fin 0) then None
      else (let (r, g1) = Random rnd g
            in Some (fmul rnd (fneg mean) (lg (fsub rnd (Fin 1) r)), g1)))"

section \<open>The seed\<close>

lemma bit_beyond: "\<not> bit (w :: 32 word) (32 + n)"
  using bit_imp_le_length [of w "32 + n"] by auto

lemma halves_join [simp]: "low_half (join_halves lo hi) = lo" "high_half (join_halves lo hi) = hi"
  by (auto simp: low_half_def high_half_def join_halves_def bit_simps bit_beyond intro!: bit_word_eqI)

lemma unat_div_pow2: "unat (drop_bit n w) = unat w div 2 ^ n"
  using unsigned_less [where ?'a = nat, of w] by (subst unsigned_drop_bit_eq) (simp add: drop_bit_eq_div take_bit_nat_eq_self)

lemma unat_mod_pow2: "unat (take_bit n w) = unat w mod 2 ^ n"
  by (subst unsigned_take_bit_eq) (simp only: take_bit_eq_mod)

lemma join_halves_eq_0: "join_halves lo hi = 0 \<longleftrightarrow> lo = 0 \<and> hi = 0"
proof
  assume "join_halves lo hi = 0"
  then have "lo = low_half 0" "hi = high_half 0" by (metis halves_join)+
  then show "lo = 0 \<and> hi = 0" by (simp add: low_half_def high_half_def)
qed (simp add: join_halves_def)

lemma halves_eq_0: "s = 0 \<longleftrightarrow> low_half s = 0 \<and> high_half s = 0"
proof
  assume h: "low_half s = 0 \<and> high_half s = 0"
  show "s = 0"
  proof (rule bit_word_eqI)
    fix n assume n: "n < LENGTH(64)"
    have "bit (low_half s) n = False" "bit (high_half s) (n - 32) = False" using h by simp_all
    then show "bit s n \<longleftrightarrow> bit (0 :: 64 word) n"
      using n by (cases "n < 32") (auto simp: low_half_def high_half_def bit_simps)
  qed
qed (simp add: low_half_def high_half_def)

lemma mwc_unat:
  assumes "unat a < 2 ^ 16"
  shows "unat (mwc a s) = unat a * (unat s mod 65536) + unat s div 65536"
proof -
  have lo: "unat (s AND 0xFFFF) = unat s mod 65536"
  proof -
    have "s AND 0xFFFF = take_bit 16 s" by (simp add: take_bit_eq_mask mask_eq_decr_exp)
    then show ?thesis by (simp only: unat_mod_pow2) simp
  qed
  have hi: "unat (drop_bit 16 s) = unat s div 65536" by (simp only: unat_div_pow2) simp
  have s: "unat s < 4294967296" using unsigned_less [where ?'a = nat, of s] by simp
  have "unat a * (unat s mod 65536) \<le> 65535 * 65535" using assms by (intro mult_mono) auto
  moreover have "unat s div 65536 \<le> 65535" using s by linarith
  ultimately show ?thesis using lo hi
    by (simp add: mwc_def unat_word_ariths)
qed

lemma mwc_eq_0: "0 < a \<Longrightarrow> unat a < 2 ^ 16 \<Longrightarrow> mwc a s = 0 \<longleftrightarrow> s = 0"
proof -
  assume a: "0 < a" "unat a < 2 ^ 16"
  have pos: "0 < unat a" using a(1) by (simp add: word_less_nat_alt)
  have "mwc a s = 0 \<longleftrightarrow> unat (mwc a s) = 0" by (simp add: unsigned_eq_0_iff)
  also have "\<dots> \<longleftrightarrow> unat s mod 65536 = 0 \<and> unat s div 65536 = 0" using pos by (simp add: mwc_unat [OF a(2)])
  also have "\<dots> \<longleftrightarrow> unat s = 0" by (metis div_mult_mod_eq add_0 div_0 mod_0 mult_0)
  finally show ?thesis by (simp add: unsigned_eq_0_iff)
qed

lemma Random_seed:
  "master_seed (snd (Random rnd g)) =
     join_halves (mwc 36969 (low_half (master_seed (seeded g)))) (mwc 18000 (high_half (master_seed (seeded g))))"
  by (simp add: Random_def Let_def)

lemma Random_seed_nonzero:
  "master_seed (seeded g) \<noteq> 0 \<Longrightarrow> master_seed (snd (Random rnd g)) \<noteq> 0"
  unfolding Random_seed join_halves_eq_0 halves_eq_0 [of "master_seed (seeded g)"]
  by (simp add: mwc_eq_0 word_less_nat_alt)

lemma Random_high_half:
  "high_half (master_seed (snd (Random rnd g))) = mwc 18000 (high_half (master_seed (seeded g)))"
  by (simp add: Random_seed)

lemma seeded_high_half:
  assumes "\<forall>k. random_results g k < 2 ^ 31" "master_seed g = 0"
  shows "high_half (master_seed (seeded g)) = 0"
proof -
  have "unat (of_nat (random_results g 0) :: 64 word) < 2 ^ 32"
    using assms(1) [rule_format, of 0] by (simp add: unsigned_of_nat take_bit_nat_eq_self)
  then have "unat (drop_bit 32 (of_nat (random_results g 0) :: 64 word)) = 0"
    by (simp only: unat_div_pow2 div_less)
  then have "drop_bit 32 (of_nat (random_results g 0) :: 64 word) = 0" by (rule unsigned_eq_0_iff [THEN iffD1])
  then show ?thesis using assms(2) by (simp add: seeded_def high_half_def)
qed

section \<open>The range of the results\<close>

lemma Random_value:
  "\<exists>k. 1 \<le> k \<and> k \<le> 4294967296 \<and>
     fst (Random rnd g) = fmul rnd (rnd k) (rnd (2328306435454494 / 10 ^ 25))"
proof -
  have "\<exists>u :: 32 word. fst (Random rnd g) =
      fmul rnd (fadd rnd (Fin (of_nat (unat u))) (Fin 1)) (rnd (2328306435454494 / 10 ^ 25))"
    unfolding Random_def Let_def fst_conv by (rule exI, rule refl)
  then obtain u :: "32 word" where u: "fst (Random rnd g) =
      fmul rnd (fadd rnd (Fin (of_nat (unat u))) (Fin 1)) (rnd (2328306435454494 / 10 ^ 25))" by blast
  define n where "n = unat u"
  have "n < 4294967296" unfolding n_def using unsigned_less [where ?'a = nat, of u] by simp
  moreover note u [folded n_def]
  ultimately show ?thesis by (intro exI [of _ "real n + 1"]) simp
qed

lemma scale_bounds:
  fixes a c r :: real
  assumes a: "1 \<le> a" "a \<le> 4294967297 - 999999 / 1000000"
    and c: "\<bar>c - 2328306435454494 / 10 ^ 25\<bar> \<le> 1 / 10 ^ 25"
    and r: "\<bar>r - a * c\<bar> \<le> a * c / 10 ^ 14"
  shows "1 / 10 ^ 10 \<le> r" "r \<le> 1 - 1 / 10 ^ 10"
proof -
  have c': "2328306435454493 / 10 ^ 25 \<le> c" "c \<le> 2328306435454495 / 10 ^ 25" using c by linarith+
  then have "1 * (2328306435454493 / 10 ^ 25) \<le> a * c" using a by (intro mult_mono) auto
  moreover have "a * c \<le> (4294967297 - 999999 / 1000000) * (2328306435454495 / 10 ^ 25)"
    using a c' by (intro mult_mono) auto
  moreover have "a * c - a * c / 10 ^ 14 \<le> r" "r \<le> a * c + a * c / 10 ^ 14" using r by linarith+
  ultimately show "1 / 10 ^ 10 \<le> r" "r \<le> 1 - 1 / 10 ^ 10" by simp_all
qed

lemma Random_range:
  assumes "ieee_rounding rnd"
  obtains r where "fst (Random rnd g) = Fin r" "1 / 10 ^ 10 \<le> r" "r \<le> 1 - 1 / 10 ^ 10"
proof -
  obtain k where k: "1 \<le> k" "k \<le> 4294967296"
    "fst (Random rnd g) = fmul rnd (rnd k) (rnd (2328306435454494 / 10 ^ 25))" using Random_value by blast
  obtain a where a: "rnd k = Fin a" "\<bar>a - k\<bar> \<le> k / 2 ^ 53"
    by (rule ieee_close [OF assms, of k]) (use k in auto)
  obtain c where c: "rnd (2328306435454494 / 10 ^ 25) = Fin c"
    "\<bar>c - 2328306435454494 / 10 ^ 25\<bar> \<le> 2328306435454494 / 10 ^ 25 / 2 ^ 53"
    by (rule ieee_close [OF assms, of "2328306435454494 / 10 ^ 25"]) auto
  have "1 \<le> a" using ieee_mono [OF assms k(1)] assms a(1) by (simp add: ieee_rounding_def)
  moreover have "a \<le> k + k / 2 ^ 53" using a(2) by linarith
  then have "a \<le> 4294967297 - 999999 / 1000000" using k(2) by simp
  moreover have c': "\<bar>c - 2328306435454494 / 10 ^ 25\<bar> \<le> 1 / 10 ^ 25" using c(2) by simp
  have "2328306435454494 / 10 ^ 25 - 1 / 10 ^ 25 \<le> c" using c' by linarith
  then have "0 \<le> c" by simp
  ultimately have "\<bar>a * c - a * c\<bar> \<le> a * c / 10 ^ 14" by simp
  note ac = scale_bounds [OF \<open>1 \<le> a\<close> \<open>a \<le> 4294967297 - 999999 / 1000000\<close> c' this]
  obtain r where r: "rnd (a * c) = Fin r" "\<bar>r - a * c\<bar> \<le> a * c / 2 ^ 53"
    by (rule ieee_close [OF assms, of "a * c"]) (use ac in auto)
  have "\<bar>r - a * c\<bar> \<le> a * c / 10 ^ 14" using r(2) ac by simp
  then show thesis using scale_bounds [OF \<open>1 \<le> a\<close> \<open>a \<le> 4294967297 - 999999 / 1000000\<close> c'] that [of r] k(3) a(1) c(1) r(1) by simp
qed

text \<open>
  The logarithm of the C library: finite and not positive on the numbers it is given.
\<close>

definition log_law :: "(double \<Rightarrow> double) \<Rightarrow> bool" where
  "log_law lg \<longleftrightarrow> (\<forall>x. 1 / 10 ^ 11 \<le> x \<and> x \<le> 1 \<longrightarrow> (\<exists>y. lg (Fin x) = Fin y \<and> - 100 \<le> y \<and> y \<le> 0))"

lemma Expent_range:
  assumes "ieee_rounding rnd" "log_law lg" "0 \<le> m"
  obtains t g' where "Expent rnd lg (Fin m) g = Some (t, g')" "fle (Fin 0) t"
proof -
  obtain r where r: "fst (Random rnd g) = Fin r" "1 / 10 ^ 10 \<le> r" "r \<le> 1 - 1 / 10 ^ 10"
    using Random_range [OF assms(1)] .
  obtain x where x: "rnd (1 - r) = Fin x" "\<bar>x - (1 - r)\<bar> \<le> (1 - r) / 2 ^ 53"
    by (rule ieee_close [OF assms(1), of "1 - r"]) (use r in auto)
  have "x \<le> 1" using ieee_le_one [OF assms(1), of "1 - r"] x(1) r(2) by simp
  moreover define z where "z = 1 - r"
  have "1 / 10 ^ 10 \<le> z" "z - z / 2 ^ 53 \<le> x" using x(2) r(3) unfolding z_def by linarith+
  then have "1 / 10 ^ 11 \<le> x" by simp
  ultimately obtain y where y: "lg (Fin x) = Fin y" "y \<le> 0" using assms(2) by (auto simp: log_law_def)
  obtain g' where g: "Random rnd g = (Fin r, g')" using r(1) by (metis prod.collapse)
  have "fsub rnd (Fin 1) (Fin r) = Fin x" by (simp add: fsub_def x(1))
  then have "Expent rnd lg (Fin m) g = Some (rnd (- m * y), g')" using assms(3) g y(1) by (simp add: Expent_def)
  moreover have "fle (Fin 0) (rnd (- m * y))"
    using assms(3) y(2) by (intro ieee_nonneg [OF assms(1)]) (simp add: mult_nonneg_nonpos)
  ultimately show thesis using that by blast
qed

section \<open>Properties\<close>

text \<open>
  C35: With a rounding as IEEE 754 defines it, the result of \<open>Random\<close> is a finite number
  strictly between 0 and 1, as the comment in the code says, and \<open>Expent\<close> with a mean that
  is not negative returns a number that is not negative; a negative mean ends the program.
\<close>

theorem random_numbers_in_range:
  assumes "ieee_rounding rnd" "log_law lg"
  shows "(\<exists>r. fst (Random rnd g) = Fin r \<and> 0 < r \<and> r < 1) \<and>
    (if 0 \<le> m then \<exists>t g'. Expent rnd lg (Fin m) g = Some (t, g') \<and> fle (Fin 0) t
     else Expent rnd lg (Fin m) g = None)"
proof -
  obtain r where "fst (Random rnd g) = Fin r" "1 / 10 ^ 10 \<le> r" "r \<le> 1 - 1 / 10 ^ 10"
    using Random_range [OF assms(1)] .
  then have "\<exists>r. fst (Random rnd g) = Fin r \<and> 0 < r \<and> r < 1" by auto
  moreover have "\<exists>t g'. Expent rnd lg (Fin m) g = Some (t, g') \<and> fle (Fin 0) t" if "0 \<le> m"
    using Expent_range [OF assms that] by metis
  moreover have "Expent rnd lg (Fin m) g = None" if "\<not> 0 \<le> m" using that by (simp add: Expent_def)
  ultimately show ?thesis by simp
qed

fun exact_log :: "double \<Rightarrow> double" where
  "exact_log (Fin x) = (if 0 < x then Fin (ln x) else NaN)"
| "exact_log _ = NaN"

lemma exact_log_law: "log_law exact_log"
proof -
  have "- 100 \<le> ln x" if "1 / 10 ^ 11 \<le> x" "x \<le> 1" for x :: real
  proof -
    have "0 < x" using that(1) by (rule less_le_trans [rotated]) simp
    have "1 / x \<le> 10 ^ 11" using that(1) \<open>0 < x\<close> by (simp add: field_simps)
    also have "\<dots> \<le> (2::real) ^ 100" by simp
    also have "\<dots> \<le> exp 1 ^ 100" using exp_ge_add_one_self [of 1] by (intro power_mono) auto
    finally have "1 / x \<le> exp 100" by (simp add: exp_of_nat_mult [of 100 1, symmetric])
    then have "ln (1 / x) \<le> 100" using \<open>0 < x\<close> by (metis ln_exp ln_le_cancel_iff exp_gt_zero divide_pos_pos zero_less_one)
    then show ?thesis using \<open>0 < x\<close> by (simp add: ln_div)
  qed
  moreover have "0 < x" if "1 / 10 ^ 11 \<le> x" for x :: real
    using that by (rule less_le_trans [rotated]) simp
  ultimately show ?thesis by (auto simp: log_law_def)
qed

theorem random_numbers_in_range_witness:
  "(\<exists>r. fst (Random Fin \<lparr>master_seed = 1, random_results = (\<lambda>k. 0)\<rparr>) = Fin r \<and> 0 < r \<and> r < 1) \<and>
   (\<exists>t g'. Expent Fin exact_log (Fin 60) \<lparr>master_seed = 1, random_results = (\<lambda>k. 0)\<rparr> = Some (t, g') \<and> fle (Fin 0) t) \<and>
   Expent Fin exact_log (Fin (- 1)) \<lparr>master_seed = 1, random_results = (\<lambda>k. 0)\<rparr> = None"
  using random_numbers_in_range [OF ieee_rounding_exact exact_log_law, of "\<lparr>master_seed = 1, random_results = (\<lambda>k. 0)\<rparr>" 60]
    random_numbers_in_range [OF ieee_rounding_exact exact_log_law, of "\<lparr>master_seed = 1, random_results = (\<lambda>k. 0)\<rparr>" "- 1"]
  by simp

text \<open>Drawing several numbers.\<close>

fun draws :: "rounding \<Rightarrow> nat \<Rightarrow> rng \<Rightarrow> rng" where
  "draws rnd 0 g = g"
| "draws rnd (Suc n) g = draws rnd n (snd (Random rnd g))"

lemma draws_keep:
  assumes "master_seed g \<noteq> 0" "high_half (master_seed g) = 0"
  shows "high_half (master_seed (draws rnd n g)) = 0 \<and> master_seed (draws rnd n g) \<noteq> 0 \<and>
    random_results (draws rnd n g) = random_results g"
  using assms
proof (induction n arbitrary: g)
  case (Suc n)
  have s: "seeded g = g" using Suc.prems by (simp add: seeded_def)
  have "high_half (master_seed (snd (Random rnd g))) = 0"
    unfolding Random_high_half s by (simp add: Suc.prems(2) mwc_def)
  moreover have "master_seed (snd (Random rnd g)) \<noteq> 0" using Random_seed_nonzero s Suc.prems(1) by metis
  moreover have "random_results (snd (Random rnd g)) = random_results g" by (simp add: Random_def Let_def s)
  ultimately show ?case using Suc.IH [of "snd (Random rnd g)"] by simp
qed simp

text \<open>
  The seed of a thread that has not drawn a number yet comes from \<open>random\<close>, whose results
  are below two to the 31. The high half of the seed, the state of the second generator, is
  therefore zero and stays zero for all numbers the thread draws: every result is that of
  the first generator alone. A seed that was not zero never becomes zero, so \<open>random\<close> is not
  called again.
\<close>

lemma second_generator_stays_zero:
  assumes "master_seed g = 0" "\<forall>k. random_results g k < 2 ^ 31" "random_results g 0 \<noteq> 0"
  shows "high_half (master_seed (draws rnd n (seeded g))) = 0 \<and> master_seed (draws rnd n (seeded g)) \<noteq> 0 \<and>
    random_results (draws rnd n (seeded g)) = (\<lambda>k. random_results g (Suc k))"
proof -
  have "unat (of_nat (random_results g 0) :: 64 word) = random_results g 0"
    using assms(2) [rule_format, of 0] by (simp add: unsigned_of_nat take_bit_nat_eq_self)
  then have "(of_nat (random_results g 0) :: 64 word) \<noteq> 0" using assms(3) by (metis unsigned_0)
  then show ?thesis using draws_keep [of "seeded g"] seeded_high_half [OF assms(2,1)] assms(1) by (simp add: seeded_def)
qed

theorem second_generator_stays_zero_witness:
  "high_half (master_seed (draws Fin 3 (seeded \<lparr>master_seed = 0, random_results = (\<lambda>k. 5 + k mod 2)\<rparr>))) = 0"
proof -
  have "\<forall>k::nat. 5 + k mod 2 < 2 ^ 31"
  proof
    fix k :: nat
    have "k mod 2 < 2" by simp
    then show "5 + k mod 2 < 2 ^ 31" by simp
  qed
  then show ?thesis
    using second_generator_stays_zero [of "\<lparr>master_seed = 0, random_results = (\<lambda>k. 5 + k mod 2)\<rparr>" Fin 3] by simp
qed

end
