(* ===== verification/Channel.thy ===== *)
theory Channel
  imports Numerical Calqueue
begin

unbundle bit_operations_syntax

text \<open>
  The radio channels of a cell of the simulated network, \<open>libfibers/testbed/src/channel.c\<close>
  and the bitmap macros and structures of \<open>model.h\<close>. The list of allocated channels is a
  list whose head is \<open>pointer->channels\<close> and whose order is that of the \<open>prev\<close> pointers. The
  mathematical library is a record of functions. A word of the bitmap outside the part
  that is initialised is the error \<open>Bad_index\<close>. \<open>malloc\<close> is taken to succeed.
\<close>

section \<open>State\<close>

record libm =
  rnd_of :: rounding
  log_of :: "double \<Rightarrow> double"
  pow_of :: "double \<Rightarrow> double \<Rightarrow> double"

record sir_data_per_cell =
  fading :: double
  power :: double

record channel =
  channel_id :: int
  sir_data :: sir_data_per_cell

record lp_state_type =
  channel_counter :: "32 word"
  arriving_calls :: "32 word"
  complete_calls :: "32 word"
  blocked_on_setup :: "32 word"
  blocked_on_handoff :: "32 word"
  leaving_handoffs :: "32 word"
  arriving_handoffs :: "32 word"
  cont_no_sir_aim :: "32 word"
  executed_events :: "32 word"
  lvt :: double
  ta :: double
  ref_ta :: double
  ta_duration :: double
  ta_change :: double
  channels_per_cell :: int
  channel_state :: "32 word list"
  channels :: "channel list"
  dummy :: int
  dummy_flag :: bool

datatype sim_error = Queue cq_error | Cast | Bad_index | Null_state | Exit | Abort

section \<open>The bitmap of busy channels\<close>

definition CHECK_CHANNEL :: "lp_state_type \<Rightarrow> int \<Rightarrow> sim_error + bool" where
  "CHECK_CHANNEL p i =
     (if 0 \<le> i \<and> nat i div 32 < length (channel_state p)
      then Inr (channel_state p ! (nat i div 32) AND push_bit (nat i mod 32) 1 \<noteq> 0) else Inl Bad_index)"

definition SET_CHANNEL :: "lp_state_type \<Rightarrow> int \<Rightarrow> sim_error + lp_state_type" where
  "SET_CHANNEL p i =
     (let k = nat i div 32 in
      if 0 \<le> i \<and> k < length (channel_state p)
      then Inr (p\<lparr>channel_state := (channel_state p)[k := channel_state p ! k OR push_bit (nat i mod 32) 1]\<rparr>)
      else Inl Bad_index)"

definition RESET_CHANNEL :: "lp_state_type \<Rightarrow> int \<Rightarrow> sim_error + lp_state_type" where
  "RESET_CHANNEL p i =
     (let k = nat i div 32 in
      if 0 \<le> i \<and> k < length (channel_state p)
      then Inr (p\<lparr>channel_state := (channel_state p)[k := channel_state p ! k AND NOT (push_bit (nat i mod 32) 1)]\<rparr>)
      else Inl Bad_index)"

section \<open>Fading, gains and rates\<close>

definition expent :: "libm \<Rightarrow> double \<Rightarrow> rng \<Rightarrow> sim_error + (double \<times> rng)" where
  "expent M mean g = (case Expent (rnd_of M) (log_of M) mean g of None \<Rightarrow> Inl Exit | Some r \<Rightarrow> Inr r)"

fun fading_recheck :: "libm \<Rightarrow> channel list \<Rightarrow> rng \<Rightarrow> sim_error + (channel list \<times> rng)" where
  "fading_recheck M [] g = Inr ([], g)"
| "fading_recheck M (ch # chs) g =
     res_bind (expent M (Fin 1) g)
       (\<lambda>(f, g1). res_bind (fading_recheck M chs g1)
         (\<lambda>(chs', g2). Inr (ch\<lparr>sir_data := (sir_data ch)\<lparr>fading := f\<rparr>\<rparr> # chs', g2)))"

abbreviation (input) DAY :: int where "DAY \<equiv> 86400"
abbreviation (input) WEEK :: int where "WEEK \<equiv> 604800"

text \<open>The bounds in the code are 8.5, 13, 15, 19 and 21 hours.\<close>

definition recompute_ta :: "libm \<Rightarrow> double \<Rightarrow> double \<Rightarrow> sim_error + double" where
  "recompute_ta M ref time_now =
     (case to_integer 32 time_now of
        None \<Rightarrow> Inl Cast
      | Some t \<Rightarrow>
          (let now = c_rem t WEEK; times = (\<lambda>f. Inr (fmul (rnd_of M) ref f)) in
           if now > 5 * DAY then times (Fin 5)
           else (let now = c_rem now DAY in
             if now < 30600 then times (Fin 4)
             else if now < 46800 then times (rnd_of M (8 / 10))
             else if now < 54000 then times (rnd_of M (25 / 10))
             else if now < 68400 then times (Fin 2)
             else if now < 75600 then times (rnd_of M (22 / 10))
             else times (rnd_of M (45 / 10)))))"

definition gain :: "libm \<Rightarrow> real \<Rightarrow> rng \<Rightarrow> double \<times> rng" where
  "gain M base g =
     (let (r, g1) = Random (rnd_of M) g;
          variation = fmul (rnd_of M) (Fin 10) r;
          variation = pow_of M (Fin 10) (fdiv (rnd_of M) variation (Fin 10))
      in (fmul (rnd_of M) (rnd_of M base) variation, g1))"

definition generate_cross_path_gain :: "libm \<Rightarrow> rng \<Rightarrow> double \<times> rng" where
  "generate_cross_path_gain M = gain M (5 / 10 ^ 14)"

definition generate_path_gain :: "libm \<Rightarrow> rng \<Rightarrow> double \<times> rng" where
  "generate_path_gain M = gain M (1 / 10 ^ 10)"

section \<open>Freeing and allocating a channel\<close>

fun unlink :: "int \<Rightarrow> channel list \<Rightarrow> channel list option" where
  "unlink ch [] = None"
| "unlink ch (c # cs) = (if channel_id c = ch then Some cs else map_option ((#) c) (unlink ch cs))"

definition deallocation :: "libm \<Rightarrow> lp_state_type \<Rightarrow> int \<Rightarrow> rng \<Rightarrow> sim_error + (lp_state_type \<times> rng)" where
  "deallocation M p ch g =
     (case unlink ch (channels p) of
        None \<Rightarrow> Inl Abort
      | Some cs \<Rightarrow>
          res_bind (RESET_CHANNEL (p\<lparr>channels := cs\<rparr>) ch)
            (\<lambda>p1. res_bind (fading_recheck M (channels p1) g)
              (\<lambda>(cs', g1). Inr (p1\<lparr>channels := cs'\<rparr>, g1))))"

fun find_free :: "lp_state_type \<Rightarrow> nat \<Rightarrow> int \<Rightarrow> sim_error + int" where
  "find_free p 0 i = Inr (- 1)"
| "find_free p (Suc n) i = res_bind (CHECK_CHANNEL p i) (\<lambda>busy. if \<not> busy then Inr i else find_free p n (i + 1))"

text \<open>The loop over the other channels: new fading, and the sum of the interference.\<close>

fun interference :: "libm \<Rightarrow> channel list \<Rightarrow> double \<Rightarrow> rng \<Rightarrow> sim_error + (channel list \<times> double \<times> rng)" where
  "interference M [] summ g = Inr ([], summ, g)"
| "interference M (ch # chs) summ g =
     res_bind (expent M (Fin 1) g)
       (\<lambda>(f, g1).
          (let (x, g2) = generate_cross_path_gain M g1;
               summ1 = fadd (rnd_of M) summ (fmul (rnd_of M) (fmul (rnd_of M) x (power (sir_data ch))) f)
           in res_bind (interference M chs summ1 g2)
                (\<lambda>(chs', s, g3). Inr (ch\<lparr>sir_data := (sir_data ch)\<lparr>fading := f\<rparr>\<rparr> # chs', s, g3))))"

definition clamp_power :: "double \<Rightarrow> double" where
  "clamp_power x = (let y = (if flt x (Fin 3) then Fin 3 else x) in if flt (Fin 3000) y then Fin 3000 else y)"

text \<open>
  The fading of a channel that gets the minimal power is not set here: the value of the new
  memory, \<open>junk\<close>, is overwritten by \<open>fading_recheck\<close> before anything reads it.
\<close>

definition new_power :: "libm \<Rightarrow> double \<Rightarrow> double \<Rightarrow> rng \<Rightarrow> sim_error + (sir_data_per_cell \<times> rng)" where
  "new_power M junk summ g =
     (if summ = Fin 0 then Inr (\<lparr>fading = junk, power = Fin 3\<rparr>, g)
      else res_bind (expent M (Fin 1) g)
        (\<lambda>(f, g1). (let (x, g2) = generate_path_gain M g1
           in Inr (\<lparr>fading = f, power = clamp_power (fdiv (rnd_of M) (fmul (rnd_of M) (Fin 10) summ)
                                             (fmul (rnd_of M) x f))\<rparr>, g2))))"

definition allocation :: "libm \<Rightarrow> double \<Rightarrow> lp_state_type \<Rightarrow> rng \<Rightarrow> sim_error + (int \<times> lp_state_type \<times> rng)" where
  "allocation M junk p g =
     res_bind (find_free p (nat (channels_per_cell p)) 0)
       (\<lambda>index. if index = - 1 then Inl Abort
         else res_bind (SET_CHANNEL p index)
          (\<lambda>p1. res_bind (interference M (channels p1) (Fin 0) g)
           (\<lambda>(chs, summ, g1). res_bind (new_power M junk summ g1)
            (\<lambda>(sd, g2). res_bind (fading_recheck M (\<lparr>channel_id = index, sir_data = sd\<rparr> # chs) g2)
             (\<lambda>(chs', g3). Inr (index, p1\<lparr>channels := chs'\<rparr>, g3))))))"

section \<open>The invariant of a cell\<close>

text \<open>Bit \<open>i\<close> of the bitmap.\<close>

definition busy :: "lp_state_type \<Rightarrow> nat \<Rightarrow> bool" where
  "busy p i \<longleftrightarrow> bit (channel_state p ! (i div 32)) (i mod 32)"

text \<open>
  The free channels are counted, the listed channels are the busy ones of the bitmap, and no
  channel is listed twice.
\<close>

definition cell_ok :: "lp_state_type \<Rightarrow> bool" where
  "cell_ok p \<longleftrightarrow> channels_per_cell p = 1000 \<and> length (channel_state p) = 32 \<and>
     distinct (map channel_id (channels p)) \<and>
     (\<forall>c \<in> set (channels p). 0 \<le> channel_id c \<and> channel_id c < 1000) \<and>
     (\<forall>i < 1000. busy p i \<longleftrightarrow> int i \<in> channel_id ` set (channels p))"

lemma and_bit_nonzero: "(w :: 32 word) AND push_bit n 1 \<noteq> 0 \<longleftrightarrow> bit w n"
proof -
  have "bit (w AND push_bit n 1) m \<longleftrightarrow> bit w n \<and> m = n" for m
    by (auto simp: bit_simps dest: bit_imp_le_length)
  then show ?thesis by (metis bit_0_eq bit_word_eqI bot_apply bot_bool_def)
qed

lemma word_bound: "i < 1000 \<Longrightarrow> i div 32 < (32::nat)"
  by linarith

lemma CHECK_CHANNEL_busy:
  "length (channel_state p) = 32 \<Longrightarrow> i < 1000 \<Longrightarrow> CHECK_CHANNEL p (int i) = Inr (busy p i)"
  unfolding CHECK_CHANNEL_def and_bit_nonzero by (simp add: busy_def word_bound)

lemma busy_set:
  assumes "length (channel_state p) = 32" "i < 1000" "SET_CHANNEL p (int i) = Inr p'" "j < 1000"
  shows "busy p' j \<longleftrightarrow> j = i \<or> busy p j"
proof (cases "j div 32 = i div 32")
  case True
  then have "j = i \<longleftrightarrow> j mod 32 = i mod 32" by (metis div_mult_mod_eq)
  then show ?thesis using assms True word_bound [of i]
    by (auto simp: SET_CHANNEL_def busy_def Let_def bit_simps)
next
  case False
  then show ?thesis using assms word_bound [of i] by (auto simp: SET_CHANNEL_def busy_def Let_def)
qed

lemma busy_reset:
  assumes "length (channel_state p) = 32" "i < 1000" "RESET_CHANNEL p (int i) = Inr p'" "j < 1000"
  shows "busy p' j \<longleftrightarrow> j \<noteq> i \<and> busy p j"
proof (cases "j div 32 = i div 32")
  case True
  then have "j = i \<longleftrightarrow> j mod 32 = i mod 32" by (metis div_mult_mod_eq)
  then show ?thesis using assms True word_bound [of i]
    by (auto simp: RESET_CHANNEL_def busy_def Let_def bit_simps)
next
  case False
  then show ?thesis using assms word_bound [of i] by (auto simp: RESET_CHANNEL_def busy_def Let_def)
qed

section \<open>Operations keep the invariant\<close>

lemma expent_one: "\<exists>f g'. expent M (Fin 1) g = Inr (f, g')"
  by (auto simp: expent_def Expent_def Let_def split: prod.splits)

lemma fading_recheck_total: "\<exists>cs' g'. fading_recheck M cs g = Inr (cs', g') \<and> map channel_id cs' = map channel_id cs"
proof (induction cs arbitrary: g)
  case (Cons c cs)
  obtain f g1 where "expent M (Fin 1) g = Inr (f, g1)" using expent_one by blast
  moreover obtain cs' g2 where "fading_recheck M cs g1 = Inr (cs', g2)" "map channel_id cs' = map channel_id cs"
    using Cons.IH by blast
  ultimately show ?case by simp
qed simp

lemma interference_total:
  "\<exists>cs' s' g'. interference M cs s g = Inr (cs', s', g') \<and> map channel_id cs' = map channel_id cs"
proof (induction cs arbitrary: s g)
  case (Cons c cs)
  obtain f g1 where f: "expent M (Fin 1) g = Inr (f, g1)" using expent_one by blast
  obtain x g2 where x: "generate_cross_path_gain M g1 = (x, g2)" by (meson surj_pair)
  obtain cs' s' g3 where "interference M cs (fadd (rnd_of M) s (fmul (rnd_of M) (fmul (rnd_of M) x (power (sir_data c))) f)) g2 =
      Inr (cs', s', g3)" "map channel_id cs' = map channel_id cs"
    using Cons.IH by blast
  then show ?case using f x by simp
qed simp

lemma new_power_total: "\<exists>sd g'. new_power M junk s g = Inr (sd, g')"
proof -
  obtain f g1 where "expent M (Fin 1) g = Inr (f, g1)" using expent_one by blast
  then show ?thesis by (auto simp: new_power_def split: prod.splits)
qed

lemma unlink_Some:
  assumes "c \<in> set cs" "channel_id c = ch" "distinct (map channel_id cs)"
  shows "\<exists>cs'. unlink ch cs = Some cs' \<and> mset (map channel_id cs) = add_mset ch (mset (map channel_id cs')) \<and>
    distinct (map channel_id cs') \<and> ch \<notin> channel_id ` set cs'"
  using assms
proof (induction cs)
  case (Cons d cs)
  show ?case
  proof (cases "channel_id d = ch")
    case False
    then obtain cs' where cs': "unlink ch cs = Some cs'" "mset (map channel_id cs) = add_mset ch (mset (map channel_id cs'))"
      "distinct (map channel_id cs')" "ch \<notin> channel_id ` set cs'"
      using Cons by auto
    have "set (map channel_id cs) = insert ch (set (map channel_id cs'))"
      using arg_cong [OF cs'(2), of set_mset] by simp
    then show ?thesis using False Cons.prems(3) cs' by auto
  qed (use Cons.prems in auto)
qed simp

lemma find_free_first:
  assumes "length (channel_state p) = 32" "k + n \<le> 1000"
  shows "find_free p n (int k) = Inr (case filter (\<lambda>i. \<not> busy p i) [k..<k + n] of [] \<Rightarrow> - 1 | i # _ \<Rightarrow> int i)"
  using assms(2)
proof (induction n arbitrary: k)
  case (Suc n)
  have "CHECK_CHANNEL p (int k) = Inr (busy p k)" using Suc.prems by (intro CHECK_CHANNEL_busy assms(1)) simp
  moreover have "[k..<k + Suc n] = k # [Suc k..<Suc k + n]" by (simp add: upt_rec)
  ultimately show ?case using Suc.IH [of "Suc k"] Suc.prems by (simp add: add.commute)
qed simp

lemma free_channel:
  assumes "cell_ok p" "length (channels p) < 1000"
  obtains i where "find_free p (nat (channels_per_cell p)) 0 = Inr (int i)" "i < 1000" "int i \<notin> channel_id ` set (channels p)"
proof -
  let ?free = "filter (\<lambda>i. \<not> busy p i) [0..<1000]"
  have len: "length (channel_state p) = 32" using assms(1) by (simp add: cell_ok_def)
  have "card (channel_id ` set (channels p)) \<le> length (channels p)" by (metis card_length length_map list.set_map)
  then have "\<not> int ` {..<1000} \<subseteq> channel_id ` set (channels p)"
    using assms(2) card_mono [of "channel_id ` set (channels p)" "int ` {..<1000}"] by (auto simp: card_image)
  then obtain k where "k < 1000" "\<not> busy p k" using assms(1) by (auto simp: cell_ok_def)
  then have "k \<in> set ?free" by simp
  then obtain i rest where i: "?free = i # rest" by (cases ?free) auto
  then have "i \<in> set ?free" by simp
  then have "i < 1000" "int i \<notin> channel_id ` set (channels p)" using assms(1) by (auto simp: cell_ok_def)
  moreover have "find_free p (nat (channels_per_cell p)) 0 = Inr (int i)"
    using find_free_first [OF len, of 0 1000] i assms(1) by (simp add: cell_ok_def)
  ultimately show thesis using that by blast
qed

lemma SET_CHANNEL_ok:
  assumes "length (channel_state p) = 32" "i < 1000"
  obtains bits where "SET_CHANNEL p (int i) = Inr (p\<lparr>channel_state := bits\<rparr>)" "length bits = 32"
  using assms word_bound [OF assms(2)] by (simp add: SET_CHANNEL_def Let_def)

lemma RESET_CHANNEL_ok:
  assumes "length (channel_state p) = 32" "i < 1000"
  obtains bits where "RESET_CHANNEL p (int i) = Inr (p\<lparr>channel_state := bits\<rparr>)" "length bits = 32"
  using assms word_bound [OF assms(2)] by (simp add: RESET_CHANNEL_def Let_def)

lemma ids_cong: "map channel_id cs = map channel_id ds \<Longrightarrow> channel_id ` set cs = channel_id ` set ds"
  by (metis list.set_map)

lemma cell_ok_ids:
  "cell_ok p \<longleftrightarrow> channels_per_cell p = 1000 \<and> length (channel_state p) = 32 \<and>
     distinct (map channel_id (channels p)) \<and> set (map channel_id (channels p)) \<subseteq> {0..<1000} \<and>
     (\<forall>i < 1000. busy p i \<longleftrightarrow> int i \<in> set (map channel_id (channels p)))"
  by (auto simp: cell_ok_def)

text \<open>
  With fewer channels in use than the cell has, an allocation succeeds, it takes a channel
  that was free, and the invariant is kept.
\<close>

lemma allocation_ok:
  assumes "cell_ok p" "length (channels p) < 1000"
  obtains i bits chs g' where
    "allocation M junk p g = Inr (int i, p\<lparr>channel_state := bits, channels := chs\<rparr>, g')"
    "map channel_id chs = int i # map channel_id (channels p)"
    "cell_ok (p\<lparr>channel_state := bits, channels := chs\<rparr>)"
proof -
  have len: "length (channel_state p) = 32" using assms(1) by (simp add: cell_ok_def)
  obtain i where i: "find_free p (nat (channels_per_cell p)) 0 = Inr (int i)" "i < 1000"
    "int i \<notin> channel_id ` set (channels p)" using free_channel [OF assms] .
  obtain bits where b: "SET_CHANNEL p (int i) = Inr (p\<lparr>channel_state := bits\<rparr>)" "length bits = 32"
    using SET_CHANNEL_ok [OF len i(2)] .
  obtain cs s g1 where cs: "interference M (channels p) (Fin 0) g = Inr (cs, s, g1)" "map channel_id cs = map channel_id (channels p)"
    using interference_total by blast
  obtain sd g2 where sd: "new_power M junk s g1 = Inr (sd, g2)" using new_power_total by blast
  obtain chs g3 where chs: "fading_recheck M (\<lparr>channel_id = int i, sir_data = sd\<rparr> # cs) g2 = Inr (chs, g3)"
    "map channel_id chs = int i # map channel_id (channels p)"
    using fading_recheck_total [of M "\<lparr>channel_id = int i, sir_data = sd\<rparr> # cs" g2] cs(2) by auto
  have eq: "allocation M junk p g = Inr (int i, p\<lparr>channel_state := bits, channels := chs\<rparr>, g3)"
    unfolding allocation_def using i(1) b(1) cs(1) sd chs(1) by (simp del: fading_recheck.simps)
  have "busy (p\<lparr>channel_state := bits, channels := chs\<rparr>) j \<longleftrightarrow> j = i \<or> busy p j" if "j < 1000" for j
    using busy_set [OF len i(2) b(1) that] by (simp add: busy_def)
  then have "cell_ok (p\<lparr>channel_state := bits, channels := chs\<rparr>)"
    using assms(1) b(2) i(2,3) unfolding cell_ok_ids by (simp add: chs(2))
  then show thesis by (rule that [OF eq chs(2)])
qed

text \<open>Freeing a channel that is in use succeeds, and the invariant is kept.\<close>

lemma deallocation_ok:
  assumes "cell_ok p" "ch \<in> channel_id ` set (channels p)"
  obtains bits chs g' where
    "deallocation M p ch g = Inr (p\<lparr>channel_state := bits, channels := chs\<rparr>, g')"
    "mset (map channel_id (channels p)) = add_mset ch (mset (map channel_id chs))"
    "cell_ok (p\<lparr>channel_state := bits, channels := chs\<rparr>)"
proof -
  obtain cs where cs: "unlink ch (channels p) = Some cs"
    "mset (map channel_id (channels p)) = add_mset ch (mset (map channel_id cs))"
    "distinct (map channel_id cs)" "ch \<notin> channel_id ` set cs"
    using unlink_Some assms unfolding cell_ok_def by blast
  obtain i where i: "ch = int i" "i < 1000" using assms by (auto simp: cell_ok_def dest!: bspec elim: nonneg_int_cases)
  have len: "length (channel_state (p\<lparr>channels := cs\<rparr>)) = 32" using assms(1) by (simp add: cell_ok_def)
  obtain bits where b: "RESET_CHANNEL (p\<lparr>channels := cs\<rparr>) (int i) = Inr (p\<lparr>channels := cs, channel_state := bits\<rparr>)"
    "length bits = 32" using RESET_CHANNEL_ok [OF len i(2)] by auto
  obtain chs g1 where chs: "fading_recheck M cs g = Inr (chs, g1)" "map channel_id chs = map channel_id cs"
    using fading_recheck_total by blast
  have eq: "deallocation M p ch g = Inr (p\<lparr>channel_state := bits, channels := chs\<rparr>, g1)"
    using cs(1) b(1) chs(1) by (simp add: deallocation_def i(1))
  have ids: "mset (map channel_id (channels p)) = add_mset ch (mset (map channel_id chs))"
    using cs(2) chs(2) by simp
  have "busy (p\<lparr>channel_state := bits, channels := chs\<rparr>) j \<longleftrightarrow> j \<noteq> i \<and> busy p j" if "j < 1000" for j
    using busy_reset [OF len i(2) b(1) that] by (simp add: busy_def)
  moreover have "distinct (map channel_id chs)" "ch \<notin> set (map channel_id chs)" using cs(3,4) chs(2) by (simp, metis list.set_map)
  moreover have "set (map channel_id (channels p)) = insert ch (set (map channel_id chs))"
    using arg_cong [OF ids, of set_mset] by simp
  ultimately have "cell_ok (p\<lparr>channel_state := bits, channels := chs\<rparr>)"
    using assms(1) b(2) i unfolding cell_ok_ids by auto
  then show thesis by (rule that [OF eq ids])
qed

end
