(* ===== verification/Model.thy ===== *)
theory Model
  imports Channel Event_Queue
begin

text \<open>
  The simulated cell of the testbed, \<open>libfibers/testbed/src/model.c\<close>, and the loop that every
  fiber of the testbed runs, \<open>main_loop\<close> of \<open>main.c\<close>. The queue and the state of a cell live in
  two slots of the fiber's local storage; here they are passed along. The random numbers
  come from the thread a fiber happens to run on: the loop takes one generator state per
  iteration, so a fiber may have moved to another thread between two events. The values
  of uninitialised memory (the timestamp and the channel of the first event, the fading of
  a new channel) are arguments.
\<close>

section \<open>Events\<close>

record msg_t =
  sender :: "32 word"
  receiver :: "32 word"
  msg_type :: int
  timestamp :: double
  msg_channel :: int

abbreviation (input) INIT :: int where "INIT \<equiv> 0"
abbreviation (input) START_CALL :: int where "START_CALL \<equiv> 20"
abbreviation (input) END_CALL :: int where "END_CALL \<equiv> 21"
abbreviation (input) COMPLETE_CALLS :: "32 word" where "COMPLETE_CALLS \<equiv> 15000"

definition pack_event :: "32 word \<Rightarrow> int \<Rightarrow> double \<Rightarrow> int \<Rightarrow> msg_t" where
  "pack_event cell ty stamp ch =
     \<lparr>sender = cell, receiver = cell, msg_type = ty, timestamp = stamp, msg_channel = ch\<rparr>"

definition queue_put :: "libm \<Rightarrow> msg_t calqueue \<Rightarrow> double \<Rightarrow> msg_t \<Rightarrow> sim_error + msg_t calqueue" where
  "queue_put M q stamp m = (case calqueue_put 1 (rnd_of M) q stamp m of Inl err \<Rightarrow> Inl (Queue err) | Inr q' \<Rightarrow> Inr q')"

definition queue_get :: "libm \<Rightarrow> msg_t calqueue \<Rightarrow> sim_error + (msg_t calqueue \<times> msg_t option)" where
  "queue_get M q = (case calqueue_get 1 (rnd_of M) q of Inl err \<Rightarrow> Inl (Queue err) | Inr r \<Rightarrow> Inr r)"

section \<open>The handler of events\<close>

text \<open>The new state that \<open>INIT\<close> returns, or the code the other events return.\<close>

datatype ret = New_state lp_state_type | Code int

definition init_state :: "libm \<Rightarrow> lp_state_type" where
  "init_state M =
     \<lparr>channel_counter = 1000, arriving_calls = 0, complete_calls = 0, blocked_on_setup = 0,
      blocked_on_handoff = 0, leaving_handoffs = 0, arriving_handoffs = 0, cont_no_sir_aim = 0,
      executed_events = 0, lvt = Fin 0, ta = rnd_of M (16 / 100), ref_ta = rnd_of M (16 / 100),
      ta_duration = Fin 60, ta_change = Fin 150, channels_per_cell = 1000,
      channel_state = replicate 32 0, channels = [], dummy = 0, dummy_flag = False\<rparr>"

definition process_init ::
    "libm \<Rightarrow> msg_t \<Rightarrow> msg_t calqueue \<Rightarrow> rng \<Rightarrow> sim_error + (lp_state_type \<times> msg_t calqueue \<times> rng)" where
  "process_init M msg q g =
     (let (r, g1) = Random (rnd_of M) g;
          stamp = fmul (rnd_of M) (Fin 20) r
      in res_bind (queue_put M q stamp (pack_event (receiver msg) START_CALL stamp (- 1)))
           (\<lambda>q1. Inr (init_state M, q1, g1)))"

definition setup_call ::
    "libm \<Rightarrow> double \<Rightarrow> msg_t \<Rightarrow> lp_state_type \<Rightarrow> msg_t calqueue \<Rightarrow> rng \<Rightarrow>
     sim_error + (lp_state_type \<times> msg_t calqueue \<times> rng)" where
  "setup_call M junk msg s q g =
     (if channel_counter s = 0 then Inr (s\<lparr>blocked_on_setup := blocked_on_setup s + 1\<rparr>, q, g)
      else (let s1 = s\<lparr>channel_counter := channel_counter s - 1\<rparr>
        in res_bind (expent M (ta_duration s1) g)
          (\<lambda>(d, g1). (let stamp = fadd (rnd_of M) (timestamp msg) d
            in res_bind (allocation M junk s1 g1)
              (\<lambda>(ch, s2, g2). res_bind (queue_put M q stamp (pack_event (receiver msg) END_CALL stamp ch))
                (\<lambda>q1. Inr (s2, q1, g2)))))))"

definition process_start_call ::
    "libm \<Rightarrow> double \<Rightarrow> msg_t \<Rightarrow> lp_state_type \<Rightarrow> msg_t calqueue \<Rightarrow> rng \<Rightarrow>
     sim_error + (lp_state_type \<times> msg_t calqueue \<times> rng)" where
  "process_start_call M junk msg s q g =
     res_bind (setup_call M junk msg (s\<lparr>arriving_calls := arriving_calls s + 1\<rparr>) q g)
       (\<lambda>(s1, q1, g1). res_bind (recompute_ta M (ref_ta s1) (timestamp msg))
         (\<lambda>rate. (let s2 = s1\<lparr>ta := rate\<rparr>
           in res_bind (expent M (ta s2) g1)
             (\<lambda>(d, g2). (let stamp = fadd (rnd_of M) (timestamp msg) d
               in res_bind (queue_put M q1 stamp (pack_event (receiver msg) START_CALL stamp (- 1)))
                 (\<lambda>q2. Inr (s2, q2, g2)))))))"

definition process_end_call ::
    "libm \<Rightarrow> msg_t \<Rightarrow> lp_state_type \<Rightarrow> rng \<Rightarrow> sim_error + (int \<times> lp_state_type \<times> rng)" where
  "process_end_call M msg s g =
     (let s1 = s\<lparr>channel_counter := channel_counter s + 1, complete_calls := complete_calls s + 1\<rparr>
      in res_bind (deallocation M s1 (msg_channel msg) g)
           (\<lambda>(s2, g1). Inr (if complete_calls s2 = COMPLETE_CALLS then 1 else 0, s2, g1)))"

definition ProcessEvent ::
    "libm \<Rightarrow> double \<Rightarrow> msg_t \<Rightarrow> lp_state_type option \<Rightarrow> msg_t calqueue \<Rightarrow> rng \<Rightarrow>
     sim_error + (ret \<times> lp_state_type option \<times> msg_t calqueue \<times> rng)" where
  "ProcessEvent M junk msg state q g =
     (let state1 = map_option (\<lambda>s. s\<lparr>lvt := timestamp msg, executed_events := executed_events s + 1\<rparr>) state
      in if msg_type msg = INIT then
           res_bind (process_init M msg q g) (\<lambda>(s, q1, g1). Inr (New_state s, state1, q1, g1))
         else if msg_type msg = START_CALL then
           (case state1 of None \<Rightarrow> Inl Null_state
            | Some s \<Rightarrow> res_bind (process_start_call M junk msg s q g) (\<lambda>(s1, q1, g1). Inr (Code 0, Some s1, q1, g1)))
         else if msg_type msg = END_CALL then
           (case state1 of None \<Rightarrow> Inl Null_state
            | Some s \<Rightarrow> res_bind (process_end_call M msg s g) (\<lambda>(c, s1, g1). Inr (Code c, Some s1, q, g1)))
         else Inl Abort)"

section \<open>The loop of a fiber\<close>

type_synonym cell = "lp_state_type option \<times> msg_t calqueue"

definition main_start :: "libm \<Rightarrow> int \<Rightarrow> int \<Rightarrow> double \<Rightarrow> int \<Rightarrow> msg_t calqueue \<Rightarrow> 32 word \<Rightarrow> sim_error + cell" where
  "main_start M q_idx state_idx junk_stamp junk_ch q ident =
     (if q_idx = - 1 \<or> state_idx = - 1 then Inl Exit
      else (case calqueue_init (rnd_of M) q of
              Inl err \<Rightarrow> Inl (Queue err)
            | Inr q1 \<Rightarrow>
                res_bind (queue_put M q1 (Fin 0)
                  \<lparr>sender = ident, receiver = ident, msg_type = INIT, timestamp = junk_stamp, msg_channel = junk_ch\<rparr>)
                  (\<lambda>q2. Inr (None, q2))))"

text \<open>One iteration; the flag says that the loop is left.\<close>

definition main_step :: "libm \<Rightarrow> double \<Rightarrow> 32 word \<Rightarrow> rng \<Rightarrow> cell \<Rightarrow> sim_error + (bool \<times> cell)" where
  "main_step M junk ident g c =
     (case c of (state, q) \<Rightarrow>
        res_bind (queue_get M q)
          (\<lambda>(q1, event). (case event of
             None \<Rightarrow> Inl Exit
           | Some msg \<Rightarrow>
               if receiver msg \<noteq> ident then Inl Exit
               else res_bind (ProcessEvent M junk msg state q1 g)
                 (\<lambda>(r, state1, q2, g1). Inr (case r of
                    New_state s \<Rightarrow> (False, (Some s, q2))
                  | Code c \<Rightarrow> (c \<noteq> 0, (state1, q2)))))))"

fun main_loop :: "libm \<Rightarrow> double \<Rightarrow> 32 word \<Rightarrow> rng list \<Rightarrow> cell \<Rightarrow> sim_error + (bool \<times> cell)" where
  "main_loop M junk ident [] c = Inr (False, c)"
| "main_loop M junk ident (g # gs) c =
     res_bind (main_step M junk ident g c)
       (\<lambda>(stop, c1). if stop then Inr (True, c1) else main_loop M junk ident gs c1)"

section \<open>The invariant of the simulation\<close>

definition msgs :: "msg_t calqueue \<Rightarrow> msg_t multiset" where
  "msgs q = image_mset payload (events q)"

definition ending :: "msg_t multiset \<Rightarrow> int multiset" where
  "ending ms = image_mset msg_channel (filter_mset (\<lambda>m. msg_type m = END_CALL) ms)"

definition starting :: "msg_t multiset \<Rightarrow> nat" where
  "starting ms = size (filter_mset (\<lambda>m. msg_type m = START_CALL) ms)"

definition cell_inv :: "libm \<Rightarrow> lp_state_type \<Rightarrow> bool" where
  "cell_inv M s \<longleftrightarrow> cell_ok s \<and> unat (channel_counter s) + length (channels s) = 1000 \<and>
     arriving_calls s = complete_calls s + blocked_on_setup s + of_nat (length (channels s)) \<and>
     ref_ta s = rnd_of M (16 / 100) \<and> ta_duration s = Fin 60"

definition queue_inv :: "32 word \<Rightarrow> lp_state_type \<Rightarrow> nat \<Rightarrow> msg_t multiset \<Rightarrow> bool" where
  "queue_inv ident s k ms \<longleftrightarrow>
     (\<forall>m \<in># ms. receiver m = ident \<and> (msg_type m = START_CALL \<or> msg_type m = END_CALL)) \<and>
     starting ms = k \<and> ending ms = mset (map channel_id (channels s))"

definition sim_inv :: "libm \<Rightarrow> 32 word \<Rightarrow> cell \<Rightarrow> bool" where
  "sim_inv M ident c \<longleftrightarrow> cq_inv (snd c) \<and>
     (case fst c of
        None \<Rightarrow> \<exists>m. msgs (snd c) = {#m#} \<and> msg_type m = INIT \<and> receiver m = ident
      | Some s \<Rightarrow> cell_inv M s \<and> queue_inv ident s 1 (msgs (snd c)))"

text \<open>
  Postconditions of the simulation: the queue may stop at one of its errors, and the clock
  may exceed the range of an integer; nothing else goes wrong.
\<close>

fun sim_post :: "('a \<Rightarrow> bool) \<Rightarrow> sim_error + 'a \<Rightarrow> bool" where
  "sim_post P (Inl (Queue err)) \<longleftrightarrow> cq_stop err"
| "sim_post P (Inl Cast) \<longleftrightarrow> True"
| "sim_post P (Inl _) \<longleftrightarrow> False"
| "sim_post P (Inr x) \<longleftrightarrow> P x"

lemma sim_post_mono: "sim_post Q m \<Longrightarrow> (\<And>x. Q x \<Longrightarrow> P x) \<Longrightarrow> sim_post P m"
  by (cases "(Q, m)" rule: sim_post.cases) auto

lemma sim_post_bindI: "sim_post Q m \<Longrightarrow> (\<And>x. Q x \<Longrightarrow> sim_post P (f x)) \<Longrightarrow> sim_post P (res_bind m f)"
  by (cases "(Q, m)" rule: sim_post.cases) auto

lemma sim_post_bind: "sim_post P (res_bind m f) \<longleftrightarrow> sim_post (\<lambda>x. sim_post P (f x)) m"
  by (cases "(\<lambda>x. sim_post P (f x), m)" rule: sim_post.cases) auto

lemma queue_put_post:
  assumes "cq_inv q"
  shows "sim_post (\<lambda>q'. cq_inv q' \<and> msgs q' = add_mset m (msgs q)) (queue_put M q stamp m)"
  using res_postD [OF calqueue_put_post [OF assms, of stamp m 0 "rnd_of M"]]
  by (auto simp: queue_put_def msgs_def split: sum.splits)

lemma queue_get_post:
  assumes "cq_inv q" "msgs q \<noteq> {#}"
  shows "sim_post (\<lambda>(q', r). \<exists>m. r = Some m \<and> cq_inv q' \<and> msgs q = add_mset m (msgs q')) (queue_get M q)"
proof -
  have ne: "events q \<noteq> {#}" using assms(2) by (auto simp: msgs_def)
  show ?thesis
  proof (rule cq.get_cases [OF assms(1) ne, of "rnd_of M"])
    fix err assume "calqueue_deq 1 (rnd_of M) q = Inl err" "cq_stop err"
    then show ?thesis by (simp add: queue_get_def calqueue_get_def)
  next
    fix q' n assume "calqueue_deq 1 (rnd_of M) q = Inr (q', Some n)" "cq_inv q'" "n \<in># events q" "events q' = events q - {#n#}"
    then show ?thesis by (simp add: queue_get_def calqueue_get_def msgs_def image_mset_Diff multi_member_split)
  qed
qed

end
