(* ===== verification/Simulation.thy ===== *)
theory Simulation
  imports Model
begin

text \<open>
  The simulation keeps its invariant: the busy channels of the cell are exactly the channels
  of the calls that are to end, and there is always one call to start. So an allocation
  never finds the cell full, a deallocation never misses its channel, and the queue of a
  fiber never runs empty.
\<close>

section \<open>Rates\<close>

lemma nonneg_not_neg: "fle (Fin 0) x \<Longrightarrow> \<not> flt x (Fin 0)"
  by (cases x) auto

lemma expent_nonneg:
  assumes "\<not> flt mean (Fin 0)"
  obtains d g' where "expent M mean g = Inr (d, g')"
proof (cases "Random (rnd_of M) g")
  case (Pair r g1)
  then show thesis using that assms by (simp add: expent_def Expent_def)
qed

lemma ieee_fraction:
  assumes "ieee_rounding rnd" "1 / 100 \<le> x" "x \<le> 100"
  obtains y where "rnd x = Fin y" "0 \<le> y"
proof -
  obtain y where "rnd x = Fin y" by (rule ieee_close [OF assms(1), of x]) (use assms(2,3) in auto)
  moreover have "0 \<le> y" using ieee_nonneg [OF assms(1), of x] assms(2) calculation by simp
  ultimately show thesis using that by blast
qed

lemma rate_nonneg:
  assumes "ieee_rounding rnd" "0 \<le> f"
  shows "\<not> flt (fmul rnd (rnd (16 / 100)) (Fin f)) (Fin 0)"
proof -
  obtain a where a: "rnd (16 / 100) = Fin a" "0 \<le> a" by (rule ieee_fraction [OF assms(1), of "16 / 100"]) auto
  have "fle (Fin 0) (rnd (a * f))" using a assms by (intro ieee_nonneg) auto
  then show ?thesis unfolding a(1) fmul.simps by (rule nonneg_not_neg)
qed

lemma recompute_ta_post:
  assumes "ieee_rounding (rnd_of M)"
  shows "sim_post (\<lambda>rate. \<not> flt rate (Fin 0)) (recompute_ta M (rnd_of M (16 / 100)) now)"
proof (cases "to_integer 32 now")
  case (Some t)
  note ok = rate_nonneg [OF assms]
  have "\<not> flt (fmul (rnd_of M) (rnd_of M (16 / 100)) (rnd_of M f)) (Fin 0)" if "f \<in> {8 / 10, 25 / 10, 22 / 10, 45 / 10}" for f
  proof -
    have "1 / 100 \<le> f" "f \<le> 100" using that by auto
    then obtain y where "rnd_of M f = Fin y" "0 \<le> y" using ieee_fraction [OF assms] by blast
    then show ?thesis using ok by simp
  qed
  then show ?thesis using Some ok by (simp add: recompute_ta_def Let_def)
qed (simp add: recompute_ta_def)

section \<open>The handlers\<close>

lemma queue_inv_put_end:
  assumes "queue_inv ident s k ms" "map channel_id (channels s') = ch # map channel_id (channels s)"
  shows "queue_inv ident s' k (add_mset (pack_event ident END_CALL stamp ch) ms)"
  using assms by (simp add: queue_inv_def starting_def ending_def pack_event_def flip: mset_map)

lemma queue_inv_put_start:
  assumes "queue_inv ident s k ms" "channels s' = channels s"
  shows "queue_inv ident s' (Suc k) (add_mset (pack_event ident START_CALL stamp ch) ms)"
  using assms by (simp add: queue_inv_def starting_def ending_def pack_event_def)

lemma setup_call_post:
  assumes cq: "cq_inv q" and cell: "cell_inv M s" and queue: "queue_inv ident s k (msgs q)"
    and s': "s' = s\<lparr>arriving_calls := arriving_calls s + 1\<rparr>" and ident: "receiver msg = ident"
  shows "sim_post (\<lambda>(s1, q1, g1). cq_inv q1 \<and> cell_inv M s1 \<and> queue_inv ident s1 k (msgs q1) \<and>
      complete_calls s1 = complete_calls s) (setup_call M junk msg s' q g)"
proof (cases "channel_counter s = 0")
  case True
  then show ?thesis using assms
    by (simp add: setup_call_def cell_inv_def cell_ok_def busy_def queue_inv_def)
next
  case False
  define s1 where "s1 = s'\<lparr>channel_counter := channel_counter s' - 1\<rparr>"
  have counter: "unat (channel_counter s1) + 1 = unat (channel_counter s)"
    using False by (simp add: s1_def s' unat_minus_one unat_gt_0)
  have ok: "cell_ok s1" "length (channels s1) < 1000" "ta_duration s1 = Fin 60"
    using cell counter by (auto simp: s1_def s' cell_inv_def cell_ok_def busy_def)
  have "\<not> flt (ta_duration s1) (Fin 0)" by (simp add: ok(3))
  then obtain d g1 where d: "expent M (ta_duration s1) g = Inr (d, g1)" by (rule expent_nonneg)
  obtain i bits chs g2 where a: "allocation M junk s1 g1 = Inr (int i, s1\<lparr>channel_state := bits, channels := chs\<rparr>, g2)"
    "map channel_id chs = int i # map channel_id (channels s1)"
    "cell_ok (s1\<lparr>channel_state := bits, channels := chs\<rparr>)"
    using allocation_ok [OF ok(1,2)] .
  let ?s = "s1\<lparr>channel_state := bits, channels := chs\<rparr>"
  have len: "length chs = Suc (length (channels s))" using arg_cong [OF a(2), of length] by (simp add: s1_def s')
  have "cell_inv M ?s" using cell counter a(3) len by (simp add: cell_inv_def s1_def s' algebra_simps)
  moreover have "queue_inv ident ?s k (add_mset (pack_event ident END_CALL stamp (int i)) (msgs q))" for stamp
    using a(2) by (intro queue_inv_put_end [OF queue]) (simp add: s1_def s')
  moreover have "complete_calls ?s = complete_calls s" by (simp add: s1_def s')
  moreover have "channel_counter s' \<noteq> 0" using False by (simp add: s')
  ultimately show ?thesis unfolding setup_call_def
    using d a(1) by (auto simp: s1_def [symmetric] Let_def ident intro!: sim_post_bindI [OF queue_put_post [OF cq]])
qed

lemma process_start_call_post:
  assumes "ieee_rounding (rnd_of M)" and cq: "cq_inv q" and cell: "cell_inv M s"
    and queue: "queue_inv ident s 0 (msgs q)" and ident: "receiver msg = ident"
  shows "sim_post (\<lambda>(s1, q1, g1). cq_inv q1 \<and> cell_inv M s1 \<and> queue_inv ident s1 1 (msgs q1) \<and>
      complete_calls s1 = complete_calls s) (process_start_call M junk msg s q g)"
  unfolding process_start_call_def
proof (rule sim_post_bindI [OF setup_call_post [OF cq cell queue refl ident]])
  fix x :: "lp_state_type \<times> msg_t calqueue \<times> rng"
  assume x: "case x of (s1, q1, g1) \<Rightarrow> cq_inv q1 \<and> cell_inv M s1 \<and> queue_inv ident s1 0 (msgs q1) \<and>
      complete_calls s1 = complete_calls s"
  obtain s1 q1 g1 where x_eq: "x = (s1, q1, g1)" by (rule prod_cases3)
  have s1: "cq_inv q1" "cell_inv M s1" "queue_inv ident s1 0 (msgs q1)" "complete_calls s1 = complete_calls s"
    using x by (simp_all add: x_eq)
  have ref: "ref_ta s1 = rnd_of M (16 / 100)" using s1(2) by (simp add: cell_inv_def)
  have "sim_post (\<lambda>(s1, q1, g1). cq_inv q1 \<and> cell_inv M s1 \<and> queue_inv ident s1 1 (msgs q1) \<and>
      complete_calls s1 = complete_calls s)
    (let s2 = s1\<lparr>ta := rate\<rparr> in res_bind (expent M (ta s2) g1)
      (\<lambda>(d, g2). (let stamp = fadd (rnd_of M) (timestamp msg) d
        in res_bind (queue_put M q1 stamp (pack_event (receiver msg) START_CALL stamp (- 1)))
          (\<lambda>q2. Inr (s2, q2, g2)))))" if rate: "\<not> flt rate (Fin 0)" for rate
  proof -
    obtain d g2 where d: "expent M rate g1 = Inr (d, g2)" using expent_nonneg [OF rate] .
    have "cell_inv M (s1\<lparr>ta := rate\<rparr>)" using s1(2) by (simp add: cell_inv_def cell_ok_def busy_def)
    moreover have "queue_inv ident (s1\<lparr>ta := rate\<rparr>) 1 (add_mset (pack_event ident START_CALL stamp (- 1)) (msgs q1))" for stamp
      using queue_inv_put_start [OF s1(3), of "s1\<lparr>ta := rate\<rparr>"] by simp
    ultimately show ?thesis using d s1(4)
      by (auto simp: Let_def ident intro!: sim_post_bindI [OF queue_put_post [OF s1(1)]])
  qed
  then show "sim_post (\<lambda>(s1, q1, g1). cq_inv q1 \<and> cell_inv M s1 \<and> queue_inv ident s1 1 (msgs q1) \<and>
      complete_calls s1 = complete_calls s)
    (case x of (s1, q1, g1) \<Rightarrow> res_bind (recompute_ta M (ref_ta s1) (timestamp msg))
         (\<lambda>rate. (let s2 = s1\<lparr>ta := rate\<rparr> in res_bind (expent M (ta s2) g1)
             (\<lambda>(d, g2). (let stamp = fadd (rnd_of M) (timestamp msg) d
               in res_bind (queue_put M q1 stamp (pack_event (receiver msg) START_CALL stamp (- 1)))
                 (\<lambda>q2. Inr (s2, q2, g2)))))))"
    unfolding x_eq prod.case ref by (rule sim_post_bindI [OF recompute_ta_post [OF assms(1)]])
qed

lemma process_end_call_post:
  assumes cell: "cell_inv M s" and busy: "msg_channel msg \<in> channel_id ` set (channels s)"
  shows "\<exists>c s' g'. process_end_call M msg s g = Inr (c, s', g') \<and> cell_inv M s' \<and>
    mset (map channel_id (channels s)) = add_mset (msg_channel msg) (mset (map channel_id (channels s'))) \<and>
    complete_calls s' = complete_calls s + 1 \<and> c = (if complete_calls s' = COMPLETE_CALLS then 1 else 0)"
proof -
  define s1 where "s1 = s\<lparr>channel_counter := channel_counter s + 1, complete_calls := complete_calls s + 1\<rparr>"
  have ok: "cell_ok s1" "msg_channel msg \<in> channel_id ` set (channels s1)"
    using assms by (auto simp: s1_def cell_inv_def cell_ok_def busy_def)
  obtain bits chs g' where d: "deallocation M s1 (msg_channel msg) g = Inr (s1\<lparr>channel_state := bits, channels := chs\<rparr>, g')"
    "mset (map channel_id (channels s1)) = add_mset (msg_channel msg) (mset (map channel_id chs))"
    "cell_ok (s1\<lparr>channel_state := bits, channels := chs\<rparr>)"
    using deallocation_ok [OF ok] .
  have len: "length (channels s) = Suc (length chs)" using arg_cong [OF d(2), of size] by (simp add: s1_def)
  have "unat (channel_counter s) \<le> 1000" using cell by (simp add: cell_inv_def)
  then have "unat (channel_counter s + 1) = unat (channel_counter s) + 1"
    by (simp add: unat_word_ariths)
  then have "cell_inv M (s1\<lparr>channel_state := bits, channels := chs\<rparr>)"
    using cell d(3) len by (simp add: cell_inv_def s1_def algebra_simps)
  then show ?thesis using d(1,2) unfolding process_end_call_def s1_def [symmetric]
    by (auto simp: s1_def)
qed

lemma init_cell_inv: "cell_inv M (init_state M)"
proof -
  have "\<not> busy (init_state M) i" if "i < 1000" for i
    using word_bound [OF that] by (simp add: busy_def init_state_def)
  then show ?thesis by (simp add: cell_inv_def cell_ok_def) (simp add: init_state_def)
qed

lemma process_init_post:
  assumes "cq_inv q" "msgs q = {#}" "receiver msg = ident"
  shows "sim_post (\<lambda>(s, q1, g1). cq_inv q1 \<and> cell_inv M s \<and> queue_inv ident s 1 (msgs q1) \<and> complete_calls s = 0)
    (process_init M msg q g)"
proof -
  obtain r g1 where r: "Random (rnd_of M) g = (r, g1)" by (meson surj_pair)
  have "queue_inv ident (init_state M) 0 {#}" by (simp add: queue_inv_def starting_def ending_def init_state_def)
  then have "queue_inv ident (init_state M) 1 {#pack_event ident START_CALL stamp (- 1)#}" for stamp
    using queue_inv_put_start by fastforce
  moreover have "complete_calls (init_state M) = 0" by (simp add: init_state_def)
  ultimately show ?thesis using init_cell_inv assms
    by (auto simp: process_init_def r Let_def intro!: sim_post_bindI [OF queue_put_post [OF assms(1)]])
qed

section \<open>The loop\<close>

definition completed :: "cell \<Rightarrow> nat" where
  "completed c = (case fst c of None \<Rightarrow> 0 | Some s \<Rightarrow> unat (complete_calls s))"

text \<open>After the next event was taken: what the handler finds.\<close>

lemma queue_inv_take:
  assumes "queue_inv ident s 1 (add_mset m ms)"
  shows "receiver m = ident"
    "msg_type m = START_CALL \<and> queue_inv ident s 0 ms \<or>
     msg_type m = END_CALL \<and> msg_channel m \<in> channel_id ` set (channels s) \<and>
       (\<forall>s'. mset (map channel_id (channels s)) = add_mset (msg_channel m) (mset (map channel_id (channels s'))) \<longrightarrow>
         queue_inv ident s' 1 ms)"
proof -
  have type: "msg_type m = START_CALL \<or> msg_type m = END_CALL" and rest: "\<forall>m \<in># ms. receiver m = ident \<and>
      (msg_type m = START_CALL \<or> msg_type m = END_CALL)" and rec: "receiver m = ident"
    using assms by (auto simp: queue_inv_def)
  show "receiver m = ident" by (rule rec)
  show "msg_type m = START_CALL \<and> queue_inv ident s 0 ms \<or>
     msg_type m = END_CALL \<and> msg_channel m \<in> channel_id ` set (channels s) \<and>
       (\<forall>s'. mset (map channel_id (channels s)) = add_mset (msg_channel m) (mset (map channel_id (channels s'))) \<longrightarrow>
         queue_inv ident s' 1 ms)"
  proof (cases "msg_type m = START_CALL")
    case True
    then show ?thesis using assms by (auto simp: queue_inv_def starting_def ending_def)
  next
    case False
    then have e: "msg_type m = END_CALL" using type by simp
    then have eq: "add_mset (msg_channel m) (ending ms) = mset (map channel_id (channels s))" "starting ms = 1"
      using assms by (simp_all add: queue_inv_def starting_def ending_def)
    have "msg_channel m \<in># mset (map channel_id (channels s))" unfolding eq(1) [symmetric] by simp
    then have "msg_channel m \<in> channel_id ` set (channels s)" by simp
    moreover have "queue_inv ident s' 1 ms"
      if "mset (map channel_id (channels s)) = add_mset (msg_channel m) (mset (map channel_id (channels s')))" for s'
      using rest eq that unfolding queue_inv_def by (metis add_mset_add_mset_same_iff)
    ultimately show ?thesis using e by blast
  qed
qed

definition step_post :: "libm \<Rightarrow> 32 word \<Rightarrow> bool \<times> cell \<Rightarrow> bool" where
  "step_post M ident r \<longleftrightarrow> sim_inv M ident (snd r) \<and>
     (if fst r then completed (snd r) = 15000 else completed (snd r) < 15000)"

lemma main_step_post:
  assumes ieee: "ieee_rounding (rnd_of M)" and inv: "sim_inv M ident c" and running: "completed c < 15000"
  shows "sim_post (step_post M ident) (main_step M junk ident g c)"
proof -
  obtain st q where c: "c = (st, q)" by (meson surj_pair)
  have cq: "cq_inv q" using inv by (simp add: sim_inv_def c)
  have ne: "msgs q \<noteq> {#}"
    using inv by (auto simp: sim_inv_def c queue_inv_def starting_def split: option.splits)
  have handle: "sim_post (step_post M ident)
      (if receiver m \<noteq> ident then Inl Exit
       else res_bind (ProcessEvent M junk m st q1 g) (\<lambda>(r, state1, q2, g1). Inr (case r of
          New_state s \<Rightarrow> (False, (Some s, q2)) | Code c \<Rightarrow> (c \<noteq> 0, (state1, q2)))))"
    if q1: "cq_inv q1" "msgs q = add_mset m (msgs q1)" for m q1
  proof (cases st)
    case None
    then have m: "msgs q1 = {#}" "msg_type m = INIT" "receiver m = ident"
      using inv q1(2) by (auto simp: sim_inv_def c)
    show ?thesis using process_init_post [OF q1(1) m(1,3), of M g] m(2,3)
      by (auto simp: ProcessEvent_def step_post_def sim_inv_def completed_def None sim_post_bind elim!: sim_post_mono)
  next
    case (Some s)
    define s1 where "s1 = s\<lparr>lvt := timestamp m, executed_events := executed_events s + 1\<rparr>"
    have cell: "cell_inv M s1" "queue_inv ident s1 1 (add_mset m (msgs q1))" "unat (complete_calls s1) < 15000"
      using inv q1(2) running
      by (simp_all add: sim_inv_def completed_def c Some s1_def cell_inv_def cell_ok_def busy_def queue_inv_def)
    note taken = queue_inv_take [OF cell(2)]
    from taken(2) show ?thesis
    proof (elim disjE conjE)
      assume start: "msg_type m = START_CALL" "queue_inv ident s1 0 (msgs q1)"
      show ?thesis using process_start_call_post [OF ieee q1(1) cell(1) start(2) taken(1), of junk g] start(1) taken(1) cell(3)
        by (auto simp: ProcessEvent_def Some s1_def [symmetric] step_post_def sim_inv_def completed_def sim_post_bind elim!: sim_post_mono)
    next
      assume ending: "msg_type m = END_CALL" "msg_channel m \<in> channel_id ` set (channels s1)"
        "\<forall>s'. mset (map channel_id (channels s1)) = add_mset (msg_channel m) (mset (map channel_id (channels s'))) \<longrightarrow>
           queue_inv ident s' 1 (msgs q1)"
      obtain k s2 g2 where e: "process_end_call M m s1 g = Inr (k, s2, g2)" "cell_inv M s2" "queue_inv ident s2 1 (msgs q1)"
        "complete_calls s2 = complete_calls s1 + 1" "k = (if complete_calls s2 = COMPLETE_CALLS then 1 else 0)"
        using process_end_call_post [OF cell(1) ending(2), of g] ending(3) by blast
      have count: "unat (complete_calls s2) = unat (complete_calls s1) + 1"
        using cell(3) by (simp add: e(4) unat_word_ariths)
      then have "complete_calls s2 = COMPLETE_CALLS \<longleftrightarrow> unat (complete_calls s2) = 15000"
        by (simp add: word_unat_eq_iff)
      then show ?thesis using e ending(1) taken(1) q1(1) count cell(3)
        by (auto simp: ProcessEvent_def Some s1_def [symmetric] step_post_def sim_inv_def completed_def)
    qed
  qed
  show ?thesis unfolding main_step_def c prod.case
  proof (rule sim_post_bindI [OF queue_get_post [OF cq ne]])
    fix x :: "msg_t calqueue \<times> msg_t option"
    assume "case x of (q', r) \<Rightarrow> \<exists>m. r = Some m \<and> cq_inv q' \<and> msgs q = add_mset m (msgs q')"
    then obtain q1 m where "x = (q1, Some m)" "cq_inv q1" "msgs q = add_mset m (msgs q1)" by (cases x) auto
    then show "sim_post (step_post M ident) (case x of (q1, event) \<Rightarrow> (case event of
        None \<Rightarrow> Inl Exit
      | Some msg \<Rightarrow> if receiver msg \<noteq> ident then Inl Exit
          else res_bind (ProcessEvent M junk msg st q1 g) (\<lambda>(r, state1, q2, g1). Inr (case r of
            New_state s \<Rightarrow> (False, (Some s, q2)) | Code c \<Rightarrow> (c \<noteq> 0, (state1, q2))))))"
      using handle [of q1 m] by (simp only: prod.case option.case)
  qed
qed

lemma main_loop_post:
  assumes "ieee_rounding (rnd_of M)" "sim_inv M ident c" "completed c < 15000"
  shows "sim_post (step_post M ident) (main_loop M junk ident gs c)"
  using assms(2,3)
proof (induction gs arbitrary: c)
  case (Cons g gs)
  show ?case unfolding main_loop.simps
  proof (rule sim_post_bindI [OF main_step_post [OF assms(1) Cons.prems]])
    fix r :: "bool \<times> cell"
    assume r: "step_post M ident r"
    obtain stop c1 where r_eq: "r = (stop, c1)" by (meson surj_pair)
    show "sim_post (step_post M ident) (case r of (stop, c1) \<Rightarrow> if stop then Inr (True, c1) else main_loop M junk ident gs c1)"
    proof (cases stop)
      case False
      then have "sim_inv M ident c1" "completed c1 < 15000" using r by (simp_all add: r_eq step_post_def)
      then show ?thesis unfolding r_eq prod.case using False Cons.IH [of c1] by (simp only: if_False)
    qed (use r in \<open>simp add: r_eq\<close>)
  qed
qed (simp add: step_post_def)

lemma main_start_post:
  "q_idx \<noteq> - 1 \<Longrightarrow> state_idx \<noteq> - 1 \<Longrightarrow>
   sim_post (\<lambda>c. sim_inv M ident c \<and> completed c = 0) (main_start M q_idx state_idx js jc q ident)"
proof -
  assume idx: "q_idx \<noteq> - 1" "state_idx \<noteq> - 1"
  show ?thesis
  proof (cases "calqueue_init (rnd_of M) q")
    case (Inl err)
    then show ?thesis using calqueue_init_post [of "rnd_of M" q] idx by (auto simp: main_start_def cq_stop_def)
  next
    case (Inr q1)
    then have "cq_inv q1" "msgs q1 = {#}" using calqueue_init_post [of "rnd_of M" q] by (auto simp: msgs_def)
    then show ?thesis using idx Inr
      by (auto simp: main_start_def sim_inv_def completed_def intro!: sim_post_bindI [OF queue_put_post])
  qed
qed

section \<open>Properties\<close>

text \<open>
  C12: The loop of a fiber, from its start and for any number of events, whatever random
  numbers the threads it runs on produce, never aborts and never leaves the program: an
  allocation always finds a free channel, a deallocation always finds its channel, no
  event is missing or of an unknown type or addressed to another fiber. It can only stop
  inside the event queue, or when the simulated time exceeds an integer. At every point
  the free and the busy channels add up to the channels of the cell, the busy channels are
  those of the calls that have still to end, and every call that has arrived was completed,
  was blocked or is in progress; the loop is left exactly with the last of 15000 calls.
\<close>

theorem simulation_never_aborts:
  assumes "ieee_rounding (rnd_of M)" "main_start M q_idx state_idx js jc q ident = Inr c0"
  shows "case main_loop M junk ident gs c0 of
      Inl err \<Rightarrow> err \<in> {Queue Undefined_cast, Queue Outside_calendar, Cast}
    | Inr (stop, None, q') \<Rightarrow> \<not> stop
    | Inr (stop, Some s, q') \<Rightarrow>
        distinct (map channel_id (channels s)) \<and> unat (channel_counter s) + length (channels s) = 1000 \<and>
        ending (msgs q') = mset (map channel_id (channels s)) \<and>
        arriving_calls s = complete_calls s + blocked_on_setup s + of_nat (length (channels s)) \<and>
        (if stop then complete_calls s = COMPLETE_CALLS else unat (complete_calls s) < 15000)"
proof -
  have "q_idx \<noteq> - 1" "state_idx \<noteq> - 1" using assms(2) by (auto simp: main_start_def)
  then have "sim_inv M ident c0" "completed c0 < 15000"
    using main_start_post [of q_idx state_idx M ident js jc q] assms(2) by auto
  note post = main_loop_post [OF assms(1) this, of junk gs]
  show ?thesis
  proof (cases "main_loop M junk ident gs c0")
    case (Inl err)
    then show ?thesis using post by (cases err) (auto simp: cq_stop_def)
  next
    case (Inr r)
    obtain stop st q' where r: "r = (stop, st, q')" by (rule prod_cases3)
    then show ?thesis using post Inr
      by (cases st) (auto simp: step_post_def sim_inv_def completed_def cell_inv_def cell_ok_def queue_inv_def word_unat_eq_iff split: if_splits)
  qed
qed

definition demo_libm :: libm where
  "demo_libm = \<lparr>rnd_of = Fin, log_of = exact_log, pow_of = (\<lambda>x y. Fin 1)\<rparr>"

definition demo_queue :: "msg_t calqueue" where
  "demo_queue = \<lparr>calq = (\<lambda>_. []), firstsub = 0, nbuckets = 0, qsize = 0, lastbucket = 0, resize_enabled = False,
     top_threshold = 0, bot_threshold = 0, lastprio = NaN, buckettop = NaN, cwidth = NaN\<rparr>"

lemma demo_start: "\<exists>c0. main_start demo_libm 0 1 NaN 0 demo_queue 1 = Inr c0"
  by (simp add: main_start_def demo_libm_def demo_queue_def calqueue_init_def localinit_def Let_def trunc_def c_rem_def
      queue_put_def calqueue_put_def put_with_def put_node_def slot_def)

theorem simulation_never_aborts_witness:
  "\<exists>c0. main_start demo_libm 0 1 NaN 0 demo_queue 1 = Inr c0 \<and>
    (case main_loop demo_libm NaN 1 [\<lparr>master_seed = 7, random_results = (\<lambda>k. 0)\<rparr>] c0 of
      Inl err \<Rightarrow> err \<in> {Queue Undefined_cast, Queue Outside_calendar, Cast}
    | Inr (stop, None, q') \<Rightarrow> \<not> stop
    | Inr (stop, Some s, q') \<Rightarrow> unat (channel_counter s) + length (channels s) = 1000)"
proof -
  obtain c0 where c0: "main_start demo_libm 0 1 NaN 0 demo_queue 1 = Inr c0" using demo_start by blast
  have "ieee_rounding (rnd_of demo_libm)" by (simp add: demo_libm_def ieee_rounding_exact)
  from simulation_never_aborts [OF this c0, of NaN "[\<lparr>master_seed = 7, random_results = (\<lambda>k. 0)\<rparr>]"] c0
  show ?thesis by (auto split: sum.splits option.splits)
qed

end
