(* ===== verification/Lock_Owner.thy ===== *)
theory Lock_Owner
  imports Main
begin

text \<open>
  Locks with their owners, for the two implementations of fibers in which threads interleave
  (\<open>Ult\<close> and \<open>Fiber_Fine\<close>): a lock is taken exactly when a thread holds it, and one thread at
  most holds it. A step of one thread may take free locks and release its own.
\<close>

definition exclusive :: "('k \<Rightarrow> bool) \<Rightarrow> ('p \<Rightarrow> 'k set) \<Rightarrow> bool" where
  "exclusive L H \<longleftrightarrow> (\<forall>k. L k \<longleftrightarrow> (\<exists>p. k \<in> H p)) \<and> (\<forall>p q k. k \<in> H p \<and> k \<in> H q \<longrightarrow> p = q)"

lemma exclusive_held: "exclusive L H \<Longrightarrow> k \<in> H p \<Longrightarrow> L k"
  by (auto simp: exclusive_def)

lemma exclusive_owner: "exclusive L H \<Longrightarrow> L k \<Longrightarrow> \<exists>p. k \<in> H p"
  by (auto simp: exclusive_def)

lemma exclusive_unique: "exclusive L H \<Longrightarrow> k \<in> H p \<Longrightarrow> k \<in> H q \<Longrightarrow> p = q"
  unfolding exclusive_def by blast

lemma exclusive_change:
  assumes own: "exclusive L H" and free: "\<And>k. k \<in> h \<Longrightarrow> k \<notin> H p \<Longrightarrow> \<not> L k"
    and L': "\<And>k. L' k \<longleftrightarrow> k \<in> h \<or> k \<notin> H p \<and> L k" and H': "H' = H(p := h)"
  shows "exclusive L' H'"
  unfolding exclusive_def
proof (intro conjI allI impI)
  have held: "L k \<longleftrightarrow> (\<exists>q. k \<in> H q)" for k using own by (simp add: exclusive_def)
  have unique: "k \<in> H q \<Longrightarrow> k \<in> H r \<Longrightarrow> q = r" for k q r using own unfolding exclusive_def by blast
  have other: "k \<notin> h" if "k \<in> H q" "q \<noteq> p" for k q
    using that free [of k] held [of k] unique [of k q p] by blast
  show "L' k \<longleftrightarrow> (\<exists>q. k \<in> H' q)" for k
  proof (cases "k \<in> h")
    case True
    then show ?thesis unfolding L' H' by (metis fun_upd_same)
  next
    case False
    then have "(\<exists>q. k \<in> H' q) \<longleftrightarrow> (\<exists>q. q \<noteq> p \<and> k \<in> H q)" unfolding H' by (metis fun_upd_apply)
    also have "\<dots> \<longleftrightarrow> k \<notin> H p \<and> L k" unfolding held using unique by metis
    finally show ?thesis unfolding L' using False by blast
  qed
  show "q = r" if "k \<in> H' q \<and> k \<in> H' r" for q r k
    using that unique [of k q r] other [of k q] other [of k r] unfolding H' by (auto split: if_splits)
qed

end
