(* ===== verification/Ult.thy ===== *)
theory Ult
  imports Lock_Owner
begin

text \<open>
  The fibers of the testbed in user space, \<open>libfibers/testbed/src/ult.c\<close> and the macros of
  \<open>ult.h\<close>, as a step relation over threads that run concurrently. A step is one access to
  shared memory: the test-and-set of the flag \<open>running\<close>, the clearing of the flag, the begin
  and the end of the saving of a context by \<open>set_jmp\<close>, a jump by \<open>long_jmp\<close>. A context that is
  being saved is \<open>None\<close>. The fiber of a thread is known to other threads once the call that
  made it returns. The contents of registers are a type parameter. A jump is taken to
  return a value that is not zero, which the code does not ensure (\<open>Jmp\<close>).

  A fiber is named by its number. A thread outside the library is at \<open>User f\<close>, in fiber \<open>f\<close>.
\<close>

section \<open>State\<close>

datatype pc =
    No_fiber
  | User nat
  | Locked nat nat | Current nat nat | Saving nat nat | Saved nat nat | Jump nat nat
  | Create nat nat | Create_locked nat nat | Create_saving nat nat | Create_saved nat nat | Create_jump nat nat
  | Boot nat nat | Boot_locked nat nat | Boot_saving nat nat | Boot_saved nat nat | Boot_jump nat nat

record 'r ult_state =
  running :: "nat \<Rightarrow> bool"
  context_of :: "nat \<Rightarrow> 'r option"
  ult_id :: nat
  known :: "nat \<Rightarrow> bool"
  current :: "nat \<Rightarrow> nat option"
  regs :: "nat \<Rightarrow> 'r"
  pc_of :: "nat \<Rightarrow> pc"

definition ult_init :: "(nat \<Rightarrow> 'r) \<Rightarrow> 'r ult_state" where
  "ult_init r = \<lparr>running = (\<lambda>_. False), context_of = (\<lambda>_. None), ult_id = 0, known = (\<lambda>_. False),
     current = (\<lambda>_. None), regs = r, pc_of = (\<lambda>_. No_fiber)\<rparr>"

datatype 'r action = Compute 'r | Convert | Switch "nat option" | Creat 'r | Go

datatype 'r ult_outcome = Moved "'r ult_state" | Blocked | Crash

section \<open>Steps\<close>

definition goto :: "nat \<Rightarrow> pc \<Rightarrow> 'r ult_state \<Rightarrow> 'r ult_state" where
  "goto t p s = s\<lparr>pc_of := (pc_of s)(t := p)\<rparr>"

definition set_flag :: "nat \<Rightarrow> bool \<Rightarrow> 'r ult_state \<Rightarrow> 'r ult_state" where
  "set_flag f b s = s\<lparr>running := (running s)(f := b)\<rparr>"

definition ult_trylock :: "nat \<Rightarrow> 'r ult_state \<Rightarrow> bool \<times> 'r ult_state" where
  "ult_trylock f s = (\<not> running s f, set_flag f True s)"

text \<open>A lock that is taken lets the thread go on at \<open>p\<close>; otherwise the thread waits.\<close>

definition ult_lock :: "nat \<Rightarrow> nat \<Rightarrow> pc \<Rightarrow> 'r ult_state \<Rightarrow> 'r ult_outcome" where
  "ult_lock t f p s = (if running s f then Blocked else Moved (goto t p (set_flag f True s)))"

definition ult_unlock :: "nat \<Rightarrow> 'r ult_state \<Rightarrow> 'r ult_state" where
  "ult_unlock f s = set_flag f False s"

definition set_context :: "nat \<Rightarrow> 'r option \<Rightarrow> 'r ult_state \<Rightarrow> 'r ult_state" where
  "set_context f c s = s\<lparr>context_of := (context_of s)(f := c)\<rparr>"

definition long_jmp :: "nat \<Rightarrow> nat \<Rightarrow> pc \<Rightarrow> 'r ult_state \<Rightarrow> 'r ult_outcome" where
  "long_jmp t to p s =
     (case context_of s to of
        None \<Rightarrow> Crash
      | Some r \<Rightarrow> Moved (goto t p (s\<lparr>regs := (regs s)(t := r)\<rparr>)))"

definition ult_convert :: "nat \<Rightarrow> 'r ult_state \<Rightarrow> 'r ult_outcome" where
  "ult_convert t s =
     (let n = ult_id s in
      Moved (s\<lparr>ult_id := Suc n, running := (running s)(n := True),
               context_of := (context_of s)(n := Some (regs s t)), known := (known s)(n := True),
               current := (current s)(t := Some n), pc_of := (pc_of s)(t := User n)\<rparr>))"

text \<open>The call of \<open>ult_switch_to\<close> up to its \<open>ult_trylock\<close>.\<close>

definition ult_switch_to :: "nat \<Rightarrow> nat option \<Rightarrow> 'r ult_state \<Rightarrow> 'r ult_outcome" where
  "ult_switch_to t ult s =
     (case ult of
        None \<Rightarrow> Moved s
      | Some to \<Rightarrow>
          if \<not> known s to then Crash
          else (case ult_trylock to s of (free, s1) \<Rightarrow>
            if \<not> free then Moved s1
            else (case current s t of None \<Rightarrow> Crash | Some from \<Rightarrow> Moved (goto t (Locked from to) s1))))"

text \<open>
  \<open>context_create\<close> up to the return of the signal handler \<open>context_create_trampoline\<close>, which
  has saved a context with the registers \<open>r\<close> on the new stack.
\<close>

definition context_create :: "nat \<Rightarrow> nat \<Rightarrow> 'r \<Rightarrow> 'r ult_state \<Rightarrow> 'r ult_outcome" where
  "context_create t n r s =
     (case current s t of None \<Rightarrow> Crash | Some from \<Rightarrow> Moved (goto t (Create from n) (set_context n (Some r) s)))"

definition ult_creat :: "nat \<Rightarrow> 'r \<Rightarrow> 'r ult_state \<Rightarrow> 'r ult_outcome" where
  "ult_creat t r s =
     (let n = ult_id s in context_create t n r (set_flag n False (s\<lparr>ult_id := Suc n\<rparr>)))"

text \<open>The macros that save one context and jump to another one, access by access.\<close>

fun context_switch :: "nat \<Rightarrow> pc \<Rightarrow> 'r ult_state \<Rightarrow> 'r ult_outcome" where
  "context_switch t (Current from to) s = Moved (goto t (Saving from to) (set_context from None s))"
| "context_switch t (Saving from to) s = Moved (goto t (Saved from to) (set_context from (Some (regs s t)) s))"
| "context_switch t (Saved from to) s = Moved (goto t (Jump from to) (ult_unlock from s))"
| "context_switch t (Jump from to) s = long_jmp t to (User to) s"
| "context_switch t _ s = Blocked"

fun context_switch_create :: "nat \<Rightarrow> pc \<Rightarrow> 'r ult_state \<Rightarrow> 'r ult_outcome" where
  "context_switch_create t (Create f n) s = ult_lock t n (Create_locked f n) s"
| "context_switch_create t (Create_locked f n) s = Moved (goto t (Create_saving f n) (set_context f None s))"
| "context_switch_create t (Create_saving f n) s =
     Moved (goto t (Create_saved f n) (set_context f (Some (regs s t)) s))"
| "context_switch_create t (Create_saved f n) s = Moved (goto t (Create_jump f n) (ult_unlock f s))"
| "context_switch_create t (Create_jump f n) s = long_jmp t n (Boot f n) s"
| "context_switch_create t _ s = Blocked"

text \<open>
  The code the new context starts with: it locks the fiber that creates it again and switches
  back to it. With the last jump the creation returns and the fiber becomes known.
\<close>

fun context_create_boot :: "nat \<Rightarrow> pc \<Rightarrow> 'r ult_state \<Rightarrow> 'r ult_outcome" where
  "context_create_boot t (Boot f n) s =
     (case current s t of None \<Rightarrow> Crash | Some c \<Rightarrow> ult_lock t c (Boot_locked c n) s)"
| "context_create_boot t (Boot_locked f n) s = Moved (goto t (Boot_saving f n) (set_context n None s))"
| "context_create_boot t (Boot_saving f n) s =
     Moved (goto t (Boot_saved f n) (set_context n (Some (regs s t)) s))"
| "context_create_boot t (Boot_saved f n) s = Moved (goto t (Boot_jump f n) (ult_unlock n s))"
| "context_create_boot t (Boot_jump f n) s = long_jmp t f (User f) (s\<lparr>known := (known s)(n := True)\<rparr>)"
| "context_create_boot t _ s = Blocked"

text \<open>The next access of a thread inside the library.\<close>

fun advance :: "nat \<Rightarrow> pc \<Rightarrow> 'r ult_state \<Rightarrow> 'r ult_outcome" where
  "advance t (Locked from to) s = Moved (goto t (Current from to) (s\<lparr>current := (current s)(t := Some to)\<rparr>))"
| "advance t (Current from to) s = context_switch t (Current from to) s"
| "advance t (Saving from to) s = context_switch t (Saving from to) s"
| "advance t (Saved from to) s = context_switch t (Saved from to) s"
| "advance t (Jump from to) s = context_switch t (Jump from to) s"
| "advance t (Create f n) s = context_switch_create t (Create f n) s"
| "advance t (Create_locked f n) s = context_switch_create t (Create_locked f n) s"
| "advance t (Create_saving f n) s = context_switch_create t (Create_saving f n) s"
| "advance t (Create_saved f n) s = context_switch_create t (Create_saved f n) s"
| "advance t (Create_jump f n) s = context_switch_create t (Create_jump f n) s"
| "advance t (Boot f n) s = context_create_boot t (Boot f n) s"
| "advance t (Boot_locked f n) s = context_create_boot t (Boot_locked f n) s"
| "advance t (Boot_saving f n) s = context_create_boot t (Boot_saving f n) s"
| "advance t (Boot_saved f n) s = context_create_boot t (Boot_saved f n) s"
| "advance t (Boot_jump f n) s = context_create_boot t (Boot_jump f n) s"
| "advance t No_fiber s = Blocked"
| "advance t (User f) s = Blocked"

fun ult_step :: "nat \<Rightarrow> 'r action \<Rightarrow> 'r ult_state \<Rightarrow> 'r ult_outcome" where
  "ult_step t (Compute r) s = (case pc_of s t of User f \<Rightarrow> Moved (s\<lparr>regs := (regs s)(t := r)\<rparr>) | _ \<Rightarrow> Blocked)"
| "ult_step t Convert s = (case pc_of s t of No_fiber \<Rightarrow> ult_convert t s | _ \<Rightarrow> Blocked)"
| "ult_step t (Switch u) s = (case pc_of s t of User f \<Rightarrow> ult_switch_to t u s | _ \<Rightarrow> Blocked)"
| "ult_step t (Creat r) s = (case pc_of s t of User f \<Rightarrow> ult_creat t r s | _ \<Rightarrow> Blocked)"
| "ult_step t Go s = advance t (pc_of s t) s"

inductive ult_reach :: "(nat \<Rightarrow> 'r) \<Rightarrow> 'r ult_state \<Rightarrow> bool" for r where
  start: "ult_reach r (ult_init r)"
| move: "ult_reach r s \<Longrightarrow> ult_step t a s = Moved s' \<Longrightarrow> ult_reach r s'"

section \<open>Ownership of the flags\<close>

text \<open>The fibers whose flag a thread has set, and the fiber a thread is making.\<close>

fun holds :: "pc \<Rightarrow> nat set" where
  "holds No_fiber = {}"
| "holds (User f) = {f}"
| "holds (Locked f to) = {f, to}"
| "holds (Current f to) = {f, to}"
| "holds (Saving f to) = {f, to}"
| "holds (Saved f to) = {f, to}"
| "holds (Jump f to) = {to}"
| "holds (Create f n) = {f}"
| "holds (Create_locked f n) = {f, n}"
| "holds (Create_saving f n) = {f, n}"
| "holds (Create_saved f n) = {f, n}"
| "holds (Create_jump f n) = {n}"
| "holds (Boot f n) = {n}"
| "holds (Boot_locked f n) = {f, n}"
| "holds (Boot_saving f n) = {f, n}"
| "holds (Boot_saved f n) = {f, n}"
| "holds (Boot_jump f n) = {f}"

fun making :: "pc \<Rightarrow> (nat \<times> nat) option" where
  "making (Create f n) = Some (f, n)"
| "making (Create_locked f n) = Some (f, n)"
| "making (Create_saving f n) = Some (f, n)"
| "making (Create_saved f n) = Some (f, n)"
| "making (Create_jump f n) = Some (f, n)"
| "making (Boot f n) = Some (f, n)"
| "making (Boot_locked f n) = Some (f, n)"
| "making (Boot_saving f n) = Some (f, n)"
| "making (Boot_saved f n) = Some (f, n)"
| "making (Boot_jump f n) = Some (f, n)"
| "making _ = None"

text \<open>The fiber whose context a thread is saving.\<close>

fun saving :: "pc \<Rightarrow> nat option" where
  "saving (Saving f to) = Some f"
| "saving (Create_saving f n) = Some f"
| "saving (Boot_saving f n) = Some n"
| "saving _ = None"

text \<open>The two fibers of a call are different.\<close>

fun apart :: "pc \<Rightarrow> bool" where
  "apart No_fiber \<longleftrightarrow> True"
| "apart (User f) \<longleftrightarrow> True"
| "apart (Locked f to) \<longleftrightarrow> f \<noteq> to"
| "apart (Current f to) \<longleftrightarrow> f \<noteq> to"
| "apart (Saving f to) \<longleftrightarrow> f \<noteq> to"
| "apart (Saved f to) \<longleftrightarrow> f \<noteq> to"
| "apart (Jump f to) \<longleftrightarrow> f \<noteq> to"
| "apart (Create f n) \<longleftrightarrow> f \<noteq> n"
| "apart (Create_locked f n) \<longleftrightarrow> f \<noteq> n"
| "apart (Create_saving f n) \<longleftrightarrow> f \<noteq> n"
| "apart (Create_saved f n) \<longleftrightarrow> f \<noteq> n"
| "apart (Create_jump f n) \<longleftrightarrow> f \<noteq> n"
| "apart (Boot f n) \<longleftrightarrow> f \<noteq> n"
| "apart (Boot_locked f n) \<longleftrightarrow> f \<noteq> n"
| "apart (Boot_saving f n) \<longleftrightarrow> f \<noteq> n"
| "apart (Boot_saved f n) \<longleftrightarrow> f \<noteq> n"
| "apart (Boot_jump f n) \<longleftrightarrow> f \<noteq> n"

text \<open>The value of \<open>current\<close> of a thread.\<close>

fun home :: "pc \<Rightarrow> nat option" where
  "home No_fiber = None"
| "home (User f) = Some f"
| "home (Locked f to) = Some f"
| "home (Current f to) = Some to"
| "home (Saving f to) = Some to"
| "home (Saved f to) = Some to"
| "home (Jump f to) = Some to"
| "home (Create f n) = Some f"
| "home (Create_locked f n) = Some f"
| "home (Create_saving f n) = Some f"
| "home (Create_saved f n) = Some f"
| "home (Create_jump f n) = Some f"
| "home (Boot f n) = Some f"
| "home (Boot_locked f n) = Some f"
| "home (Boot_saving f n) = Some f"
| "home (Boot_saved f n) = Some f"
| "home (Boot_jump f n) = Some f"

definition homes :: "'r ult_state \<Rightarrow> bool" where
  "homes s \<longleftrightarrow> (\<forall>t. current s t = home (pc_of s t))"

definition owned :: "'r ult_state \<Rightarrow> bool" where
  "owned s \<longleftrightarrow> (\<forall>f. running s f \<longleftrightarrow> (\<exists>t. f \<in> holds (pc_of s t))) \<and>
     (\<forall>t u f. f \<in> holds (pc_of s t) \<and> f \<in> holds (pc_of s u) \<longrightarrow> t = u) \<and> (\<forall>t. apart (pc_of s t))"

definition makers :: "'r ult_state \<Rightarrow> bool" where
  "makers s \<longleftrightarrow>
     (\<forall>t f n. making (pc_of s t) = Some (f, n) \<longrightarrow> known s f \<and> \<not> known s n \<and> n < ult_id s) \<and>
     (\<forall>t u f g n. making (pc_of s t) = Some (f, n) \<and> making (pc_of s u) = Some (g, n) \<longrightarrow> t = u) \<and>
     (\<forall>t f. f \<in> holds (pc_of s t) \<longrightarrow> known s f \<or> (\<exists>g. making (pc_of s t) = Some (g, f))) \<and>
     (\<forall>f. known s f \<longrightarrow> f < ult_id s)"

definition contexts :: "'r ult_state \<Rightarrow> bool" where
  "contexts s \<longleftrightarrow> (\<forall>f < ult_id s. context_of s f = None \<longrightarrow> (\<exists>t. saving (pc_of s t) = Some f))"

definition ult_inv :: "'r ult_state \<Rightarrow> bool" where
  "ult_inv s \<longleftrightarrow> homes s \<and> owned s \<and> makers s \<and> contexts s"

lemma saving_holds: "saving p = Some f \<Longrightarrow> f \<in> holds p"
  by (cases p) auto

lemma saving_not_jump: "saving (Jump f g) = None" "saving (Boot_jump f g) = None" "saving (Create_jump f g) = None"
  by simp_all

subsection \<open>Taking and releasing a flag\<close>

lemma owned_exclusive: "owned s \<longleftrightarrow> exclusive (running s) (\<lambda>t. holds (pc_of s t)) \<and> (\<forall>t. apart (pc_of s t))"
  by (simp add: owned_def exclusive_def)

lemma owned_change:
  assumes own: "owned s" and free: "\<And>f. f \<in> holds p \<Longrightarrow> f \<notin> holds (pc_of s t) \<Longrightarrow> \<not> running s f" and p: "apart p"
    and run: "\<And>f. running s' f \<longleftrightarrow> f \<in> holds p \<or> f \<notin> holds (pc_of s t) \<and> running s f"
    and pc: "pc_of s' = (pc_of s)(t := p)"
  shows "owned s'"
proof -
  have "exclusive (running s') (\<lambda>u. holds (pc_of s' u))"
  proof (rule exclusive_change)
    show "exclusive (running s) (\<lambda>u. holds (pc_of s u))" using own by (simp add: owned_exclusive)
    show "\<And>f. f \<in> holds p \<Longrightarrow> f \<notin> holds (pc_of s t) \<Longrightarrow> \<not> running s f" by (rule free)
    show "\<And>f. running s' f \<longleftrightarrow> f \<in> holds p \<or> f \<notin> holds (pc_of s t) \<and> running s f" by (rule run)
    show "(\<lambda>u. holds (pc_of s' u)) = (\<lambda>u. holds (pc_of s u))(t := holds p)" by (simp add: pc fun_eq_iff)
  qed
  then show ?thesis using own p by (simp add: owned_exclusive pc)
qed

lemma owned_running: "owned s \<Longrightarrow> f \<in> holds (pc_of s t) \<Longrightarrow> running s f"
  by (auto simp: owned_def)

lemma apart_pc: "owned s \<Longrightarrow> apart (pc_of s t)"
  by (simp add: owned_def)

lemmas step_defs = goto_def set_flag_def set_context_def long_jmp_def ult_lock_def ult_convert_def
  ult_switch_to_def ult_creat_def ult_trylock_def ult_unlock_def context_create_def Let_def

text \<open>Every step changes the program counter of its thread only.\<close>

lemma advance_pc: "advance t p s = Moved s' \<Longrightarrow> pc_of s' = (pc_of s)(t := pc_of s' t)"
  by (cases p) (auto simp: step_defs split: option.splits if_splits)

lemma advance_homes:
  assumes "homes s" "advance t (pc_of s t) s = Moved s'"
  shows "homes s'"
proof -
  have h: "current s u = home (pc_of s u)" for u using assms(1) by (simp add: homes_def)
  have "current s' = (current s)(t := current s' t) \<and> current s' t = home (pc_of s' t)"
    using assms(2) h [of t] by (cases "pc_of s t") (auto simp: step_defs split: option.splits if_splits)
  then show ?thesis unfolding homes_def using h advance_pc [OF assms(2)] by (metis fun_upd_apply)
qed

lemma home_current: "homes s \<Longrightarrow> current s t = home (pc_of s t)"
  by (simp add: homes_def)

lemma advance_owned:
  assumes "homes s" "owned s" "advance t (pc_of s t) s = Moved s'"
  shows "owned s'"
proof (rule owned_change [OF assms(2), of "pc_of s' t" t s'])
  have run: "f \<in> holds (pc_of s t) \<Longrightarrow> running s f" for f by (rule owned_running [OF assms(2)])
  note ap = apart_pc [OF assms(2), of t] and h = home_current [OF assms(1), of t]
  show "pc_of s' = (pc_of s)(t := pc_of s' t)" using advance_pc assms(3) .
  show "apart (pc_of s' t)" using assms(3) ap h
    by (cases "pc_of s t") (auto simp: step_defs split: option.splits if_splits)
  show "\<not> running s f" if "f \<in> holds (pc_of s' t)" "f \<notin> holds (pc_of s t)" for f
    using assms(3) that h by (cases "pc_of s t") (auto simp: step_defs split: option.splits if_splits)
  show "running s' f \<longleftrightarrow> f \<in> holds (pc_of s' t) \<or> f \<notin> holds (pc_of s t) \<and> running s f" for f
    using assms(3) run [of f] ap h by (cases "pc_of s t") (auto simp: step_defs split: option.splits if_splits)
qed

subsection \<open>Fibers in the making\<close>

lemma makers_change:
  assumes mk: "makers s" and pc: "pc_of s' = (pc_of s)(t := p)" and id: "ult_id s' = ult_id s"
    and known: "known s' = known s" and same: "making p = making (pc_of s t)"
    and holds: "\<And>f. f \<in> holds p \<Longrightarrow> known s f \<or> (\<exists>g. making p = Some (g, f))"
  shows "makers s'"
proof -
  have m: "making (pc_of s' u) = making (pc_of s u)" for u using same by (simp add: pc)
  have h: "known s f \<or> (\<exists>g. making (pc_of s u) = Some (g, f))" if "f \<in> holds (pc_of s' u)" for f u
    using that mk holds [of f] same unfolding makers_def pc by (auto split: if_splits)
  show ?thesis using mk h unfolding makers_def m id known by blast
qed

lemma advance_frame:
  assumes "advance t p s = Moved s'" "current s t = home p"
  shows "ult_id s' = ult_id s"
    and "(\<forall>f n. p \<noteq> Boot_jump f n) \<Longrightarrow> known s' = known s \<and> making (pc_of s' t) = making p"
    and "p = Boot_jump f n \<Longrightarrow> known s' = (known s)(n := True) \<and> pc_of s' t = User f"
  using assms by (cases p; auto simp: step_defs split: option.splits if_splits)+

lemma makersD:
  assumes "makers s" "making (pc_of s t) = Some (f, n)"
  shows "known s f" "\<not> known s n" "n < ult_id s" "making (pc_of s u) = Some (g, n) \<Longrightarrow> u = t"
  using assms unfolding makers_def by blast+

lemma makers_held: "makers s \<Longrightarrow> f \<in> holds (pc_of s t) \<Longrightarrow> known s f \<or> (\<exists>g. making (pc_of s t) = Some (g, f))"
  unfolding makers_def by blast

lemma advance_makers:
  assumes homes: "homes s" and mk: "makers s" and step: "advance t (pc_of s t) s = Moved s'"
  shows "makers s'"
proof -
  have h: "current s t = home (pc_of s t)" by (rule home_current [OF homes])
  show ?thesis
  proof (cases "\<exists>f n. pc_of s t = Boot_jump f n")
    case False
    then have no_jump: "\<forall>f n. pc_of s t \<noteq> Boot_jump f n" by blast
    show ?thesis
    proof (rule makers_change [OF mk])
      show "pc_of s' = (pc_of s)(t := pc_of s' t)" by (rule advance_pc [OF step])
      show "known s f \<or> (\<exists>g. making (pc_of s' t) = Some (g, f))" if "f \<in> holds (pc_of s' t)" for f
      proof (cases "f \<in> holds (pc_of s t)")
        case True
        then show ?thesis using makers_held [OF mk True] advance_frame(2) [OF step h no_jump] by simp
      next
        case new: False
        then show ?thesis using that step h makersD [OF mk, of t]
          by (cases "pc_of s t") (auto simp: step_defs split: option.splits if_splits)
      qed
    qed (use advance_frame(1,2) [OF step h] no_jump in auto)
  next
    case True
    then obtain f n where p: "pc_of s t = Boot_jump f n" by blast
    note new = advance_frame(3) [OF step h p]
    have mt: "making (pc_of s t) = Some (f, n)" by (simp add: p)
    note d = makersD [OF mk mt]
    have pc: "pc_of s' u = (if u = t then User f else pc_of s u)" for u
      using advance_pc [OF step] new by (metis fun_upd_apply)
    have others: "making (pc_of s u) = Some (g, m) \<Longrightarrow> u \<noteq> t \<Longrightarrow> m \<noteq> n" for u g m using d(4) by blast
    have kn: "known s' m \<longleftrightarrow> m = n \<or> known s m" for m using new by simp
    have still: "u \<noteq> t" "making (pc_of s u) = Some (g, m)" if "making (pc_of s' u) = Some (g, m)" for u g m
      using that by (auto simp: pc split: if_splits)
    show ?thesis unfolding makers_def advance_frame(1) [OF step h]
    proof (intro conjI allI impI)
      show "known s' g" "\<not> known s' m" "m < ult_id s" if "making (pc_of s' u) = Some (g, m)" for u g m
        using makersD(1-3) [OF mk still(2) [OF that]] others [OF still(2) [OF that] still(1) [OF that]] by (simp_all add: kn)
      show "u = v" if "making (pc_of s' u) = Some (g, m) \<and> making (pc_of s' v) = Some (h, m)" for u v g h m
        using that still(2) makersD(4) [OF mk] by blast
      show "known s' g \<or> (\<exists>h. making (pc_of s' u) = Some (h, g))" if "g \<in> holds (pc_of s' u)" for u g
        using that makers_held [OF mk, of g u] d(1) by (auto simp: pc kn split: if_splits)
      show "g < ult_id s" if "known s' g" for g using that d(3) mk by (auto simp: kn makers_def)
    qed
  qed
qed

subsection \<open>Saved contexts\<close>

lemma advance_contexts:
  assumes homes: "homes s" and ctx: "contexts s" and step: "advance t (pc_of s t) s = Moved s'"
  shows "contexts s'"
  unfolding contexts_def
proof (intro allI impI)
  fix f
  assume f: "f < ult_id s'" "context_of s' f = None"
  show "\<exists>u. saving (pc_of s' u) = Some f"
  proof (cases "saving (pc_of s' t) = Some f")
    case False
    then have "context_of s f = None" "saving (pc_of s t) \<noteq> Some f"
      using step f(2) by (cases "pc_of s t"; auto simp: step_defs split: option.splits if_splits)+
    then obtain u where "saving (pc_of s u) = Some f" "u \<noteq> t"
      using ctx f(1) advance_frame(1) [OF step home_current [OF homes]] unfolding contexts_def by metis
    then show ?thesis using advance_pc [OF step] by (metis fun_upd_other)
  qed blast
qed

text \<open>A jump finds a context that is complete.\<close>

lemma held_context:
  assumes "ult_inv s" "f \<in> holds (pc_of s t)" "saving (pc_of s t) \<noteq> Some f"
  shows "context_of s f \<noteq> None"
proof
  assume none: "context_of s f = None"
  have inv: "owned s" "makers s" "contexts s" using assms(1) by (simp_all add: ult_inv_def)
  have "f < ult_id s" using makers_held [OF inv(2) assms(2)] makersD(3) [OF inv(2)] inv(2) by (auto simp: makers_def)
  then obtain u where u: "saving (pc_of s u) = Some f" using inv(3) none by (auto simp: contexts_def)
  then have "u = t" using saving_holds assms(2) inv(1) unfolding owned_def by blast
  then show False using u assms(3) by simp
qed

section \<open>The invariant\<close>

lemma advance_inv: "ult_inv s \<Longrightarrow> advance t (pc_of s t) s = Moved s' \<Longrightarrow> ult_inv s'"
  using advance_homes advance_owned advance_makers advance_contexts unfolding ult_inv_def by blast

lemma fresh_number:
  assumes "ult_inv s"
  shows "\<not> known s (ult_id s)" "\<not> running s (ult_id s)" "making (pc_of s t) \<noteq> Some (f, ult_id s)"
proof -
  have inv: "owned s" "makers s" using assms by (simp_all add: ult_inv_def)
  show kn: "\<not> known s (ult_id s)" using inv(2) by (auto simp: makers_def)
  show mk: "making (pc_of s u) \<noteq> Some (g, ult_id s)" for u g using makersD(3) [OF inv(2), of u g "ult_id s"] by auto
  then show "\<not> running s (ult_id s)" using kn makers_held [OF inv(2), of "ult_id s"] inv(1) by (auto simp: owned_def)
qed

lemma user_switch_inv:
  assumes inv: "ult_inv s" and p: "pc_of s t = User f" and step: "ult_switch_to t u s = Moved s'"
  shows "ult_inv s'"
proof (cases "s' = s")
  case False
  have parts: "owned s" "makers s" "contexts s" and homes: "homes s" using inv by (simp_all add: ult_inv_def)
  have cur: "current s t = Some f" using home_current [OF homes, of t] p by simp
  have same: "set_flag x True s = s" if "running s x" for x using that by (simp add: set_flag_def fun_upd_idem)
  obtain to where to: "known s to" "\<not> running s to" "s' = goto t (Locked f to) (set_flag to True s)"
    using step False cur same by (auto simp: ult_switch_to_def ult_trylock_def split: option.splits if_splits)
  have "running s f" using owned_running [OF parts(1), of f t] p by simp
  then have ne: "f \<noteq> to" using to(2) by blast
  have "owned s'" by (rule owned_change [OF parts(1), of "Locked f to" t]) (use p to ne \<open>running s f\<close> in \<open>auto simp: step_defs\<close>)
  moreover have "known s f" using makers_held [OF parts(2), of f t] p by simp
  then have "makers s'" using p to by (intro makers_change [OF parts(2), of s' t "Locked f to"]) (auto simp: step_defs)
  moreover have "contexts s'" using parts(3) p unfolding contexts_def to(3)
    by (simp add: step_defs) (metis option.distinct(1) saving.simps(5))
  moreover have "homes s'" using homes cur by (auto simp: homes_def to(3) step_defs)
  ultimately show ?thesis by (simp add: ult_inv_def)
qed (use inv in simp)

lemma contexts_new:
  assumes "contexts s" "pc_of s' = (pc_of s)(t := p)" "saving (pc_of s t) = None" "ult_id s' = Suc (ult_id s)"
    and "context_of s' = (context_of s)(ult_id s := Some c)"
  shows "contexts s'"
  unfolding contexts_def
proof (intro allI impI)
  fix f assume f: "f < ult_id s'" "context_of s' f = None"
  then have "f < ult_id s" "context_of s f = None" using assms(4,5) by (auto simp: less_Suc_eq split: if_splits)
  then obtain u where "saving (pc_of s u) = Some f" using assms(1) by (auto simp: contexts_def)
  moreover from this have "u \<noteq> t" using assms(3) by auto
  ultimately show "\<exists>u. saving (pc_of s' u) = Some f" using assms(2) by (metis fun_upd_other)
qed

lemma user_creat_inv:
  assumes inv: "ult_inv s" and p: "pc_of s t = User f" and step: "ult_creat t r s = Moved s'"
  shows "ult_inv s'"
proof -
  have parts: "owned s" "makers s" "contexts s" and homes: "homes s" using inv by (simp_all add: ult_inv_def)
  have cur: "current s t = Some f" using home_current [OF homes, of t] p by simp
  note fresh = fresh_number [OF inv]
  have kf: "known s f" using makers_held [OF parts(2), of f t] p by simp
  then have f: "f < ult_id s" using parts(2) by (simp add: makers_def)
  have s': "running s' = (running s)(ult_id s := False)" "pc_of s' = (pc_of s)(t := Create f (ult_id s))"
    "ult_id s' = Suc (ult_id s)" "known s' = known s" "context_of s' = (context_of s)(ult_id s := Some r)"
    "current s' = current s"
    using step cur by (auto simp: step_defs)
  have "owned s'" by (rule owned_change [OF parts(1) _ _ _ s'(2)])
    (use p f fresh owned_running [OF parts(1), of f t] in \<open>auto simp: s'(1)\<close>)
  moreover have "makers s'" unfolding makers_def
  proof (intro conjI allI impI)
    have mk: "making (pc_of s' u) = Some (g, m) \<longleftrightarrow> u = t \<and> g = f \<and> m = ult_id s \<or> making (pc_of s u) = Some (g, m)" for u g m
      using p by (auto simp: s'(2))
    show "known s' g" "\<not> known s' m" "m < ult_id s'" if "making (pc_of s' u) = Some (g, m)" for u g m
      using that makersD(1-3) [OF parts(2), of u g m] kf fresh(1) unfolding mk s'(3,4) by auto
    show "u = v" if "making (pc_of s' u) = Some (g, m) \<and> making (pc_of s' v) = Some (h, m)" for u v g h m
      using that makersD(4) [OF parts(2), of v h m u g] fresh(3) [of u g] fresh(3) [of v h] unfolding mk by auto
    show "known s' g \<or> (\<exists>h. making (pc_of s' u) = Some (h, g))" if "g \<in> holds (pc_of s' u)" for u g
      using that makers_held [OF parts(2), of g u] kf unfolding s' by (auto split: if_splits)
    show "g < ult_id s'" if "known s' g" for g using that parts(2) unfolding s' makers_def by auto
  qed
  moreover have "contexts s'" by (rule contexts_new [OF parts(3) s'(2) _ s'(3,5)]) (simp add: p)
  moreover have "homes s'" using homes p by (auto simp: homes_def s'(2,6))
  ultimately show ?thesis by (simp add: ult_inv_def)
qed

lemma ult_convert_inv:
  assumes inv: "ult_inv s" and p: "pc_of s t = No_fiber" and step: "ult_convert t s = Moved s'"
  shows "ult_inv s'"
proof -
  have parts: "owned s" "makers s" "contexts s" and homes: "homes s" using inv by (simp_all add: ult_inv_def)
  note fresh = fresh_number [OF inv]
  have s': "running s' = (running s)(ult_id s := True)" "pc_of s' = (pc_of s)(t := User (ult_id s))"
    "ult_id s' = Suc (ult_id s)" "known s' = (known s)(ult_id s := True)"
    "context_of s' = (context_of s)(ult_id s := Some (regs s t))" "current s' = (current s)(t := Some (ult_id s))"
    using step by (auto simp: step_defs)
  have "owned s'" by (rule owned_change [OF parts(1) _ _ _ s'(2)]) (use p fresh in \<open>auto simp: s'(1)\<close>)
  moreover have "makers s'" unfolding makers_def
  proof (intro conjI allI impI)
    have mk: "making (pc_of s' u) = making (pc_of s u)" for u using p by (simp add: s'(2))
    show "known s' g" "\<not> known s' m" "m < ult_id s'" if "making (pc_of s' u) = Some (g, m)" for u g m
      using that makersD(1-3) [OF parts(2), of u g m] unfolding mk s'(3,4) by auto
    show "u = v" if "making (pc_of s' u) = Some (g, m) \<and> making (pc_of s' v) = Some (h, m)" for u v g h m
      using that makersD(4) [OF parts(2), of v h m u g] unfolding mk by auto
    show "known s' g \<or> (\<exists>h. making (pc_of s' u) = Some (h, g))" if "g \<in> holds (pc_of s' u)" for u g
      using that makers_held [OF parts(2), of g u] unfolding mk by (auto simp: s'(2,4) split: if_splits)
    show "g < ult_id s'" if "known s' g" for g using that parts(2) unfolding s' makers_def by (auto split: if_splits)
  qed
  moreover have "contexts s'" by (rule contexts_new [OF parts(3) s'(2) _ s'(3,5)]) (simp add: p)
  moreover have "homes s'" using homes p by (auto simp: homes_def s'(2,6))
  ultimately show ?thesis by (simp add: ult_inv_def)
qed

lemma ult_step_inv:
  assumes "ult_inv s" "ult_step t a s = Moved s'"
  shows "ult_inv s'"
proof (cases a)
  case (Compute r)
  then have "s' = s\<lparr>regs := (regs s)(t := r)\<rparr>" using assms(2) by (auto split: pc.splits)
  then show ?thesis using assms(1) by (simp add: ult_inv_def homes_def owned_def makers_def contexts_def)
next
  case Convert
  then show ?thesis using assms ult_convert_inv [OF assms(1)] by (auto split: pc.splits)
next
  case (Switch u)
  then show ?thesis using assms user_switch_inv [OF assms(1)] by (auto split: pc.splits)
next
  case (Creat r)
  then show ?thesis using assms user_creat_inv [OF assms(1)] by (auto split: pc.splits)
next
  case Go
  then show ?thesis using assms advance_inv by simp
qed

lemma ult_reach_inv: "ult_reach r s \<Longrightarrow> ult_inv s"
proof (induction rule: ult_reach.induct)
  case start
  then show ?case by (simp add: ult_init_def ult_inv_def homes_def owned_def makers_def contexts_def)
next
  case (move s t a s')
  then show ?case using ult_step_inv by blast
qed

section \<open>Properties\<close>



text \<open>A run of the library: which thread does what.\<close>

fun ult_run :: "(nat \<times> 'r action) list \<Rightarrow> 'r ult_state \<Rightarrow> 'r ult_outcome" where
  "ult_run [] s = Moved s"
| "ult_run ((t, a) # xs) s = (case ult_step t a s of Moved s' \<Rightarrow> ult_run xs s' | Blocked \<Rightarrow> Blocked | Crash \<Rightarrow> Crash)"

lemma ult_run_reach: "ult_reach r s \<Longrightarrow> ult_run xs s = Moved s' \<Longrightarrow> ult_reach r s'"
proof (induction xs arbitrary: s)
  case (Cons x xs)
  obtain t a where x: "x = (t, a)" by (meson surj_pair)
  then obtain s1 where s1: "ult_step t a s = Moved s1" "ult_run xs s1 = Moved s'"
    using Cons.prems(2) by (auto split: ult_outcome.splits)
  show ?case by (rule Cons.IH [OF ult_reach.move [OF Cons.prems(1) s1(1)] s1(2)])
qed simp

text \<open>The fiber on whose stack a thread executes: it changes with a jump.\<close>

fun stack_of :: "pc \<Rightarrow> nat option" where
  "stack_of No_fiber = None"
| "stack_of (User f) = Some f"
| "stack_of (Locked f to) = Some f"
| "stack_of (Current f to) = Some f"
| "stack_of (Saving f to) = Some f"
| "stack_of (Saved f to) = Some f"
| "stack_of (Jump f to) = Some f"
| "stack_of (Create f n) = Some f"
| "stack_of (Create_locked f n) = Some f"
| "stack_of (Create_saving f n) = Some f"
| "stack_of (Create_saved f n) = Some f"
| "stack_of (Create_jump f n) = Some f"
| "stack_of (Boot f n) = Some n"
| "stack_of (Boot_locked f n) = Some n"
| "stack_of (Boot_saving f n) = Some n"
| "stack_of (Boot_saved f n) = Some n"
| "stack_of (Boot_jump f n) = Some n"

definition demo_run :: "(nat \<times> nat action) list" where
  "demo_run = [(0, Convert), (1, Convert), (0, Creat 7)] @ replicate 10 (0, Go) @
     [(0, Switch (Some 2))] @ replicate 4 (0, Go) @ [(1, Switch (Some 0))] @ replicate 5 (1, Go)"

lemma demo_run_result:
  "\<exists>s. ult_run demo_run (ult_init (\<lambda>t. t)) = Moved s \<and> pc_of s 0 = Jump 0 2 \<and> pc_of s 1 = User 0 \<and>
     context_of s 2 = Some 7 \<and> regs s 1 = 0"
  by (simp add: demo_run_def ult_init_def step_defs numeral_eq_Suc)



text \<open>
  The flag of a fiber is cleared before its thread has left the stack of the fiber. In a
  run of two threads, one is still between clearing the flag of fiber 0 and its jump, and
  executes on the stack of fiber 0, while the other has already entered fiber 0.
\<close>

lemma ult_stack_shared:
  "\<exists>s. ult_reach (\<lambda>t. t) s \<and> stack_of (pc_of s 0) = Some 0 \<and> pc_of s 1 = User (0::nat) \<and> stack_of (pc_of s 1) = Some 0"
proof -
  obtain s where s: "ult_run demo_run (ult_init (\<lambda>t. t)) = Moved s" "pc_of s 0 = Jump 0 2" "pc_of s 1 = User 0"
    using demo_run_result by blast
  have "ult_reach (\<lambda>t. t) s" by (rule ult_run_reach [OF ult_reach.start s(1)])
  then show ?thesis using s by auto
qed

end
