(* ===== verification/Jmp.thy ===== *)
theory Jmp
  imports Usermem
begin

text \<open>
  The context switch of the testbed in user space, \<open>libfibers/testbed/src/jmp.S\<close> and \<open>jmp.h\<close>: the
  instructions of \<open>_set_jmp\<close> and \<open>_long_jmp\<close> on a machine with the 16 general registers, the
  status flags, the floating point state and byte-addressed memory. An access to memory
  that is not mapped, and an \<open>fxsave\<close> or \<open>fxrstor\<close> at an address that is not a multiple of
  16, is a fault. The floating point state is the image of 512 bytes that \<open>fxsave\<close> stores.
\<close>

unbundle bit_operations_syntax

section \<open>The machine\<close>

datatype reg = RAX | RDX | RCX | RBX | RSP | RBP | RSI | RDI | R8 | R9 | R10 | R11 | R12 | R13 | R14 | R15

record status =
  CF :: bool
  PF :: bool
  AF :: bool
  ZF :: bool
  SF :: bool
  OF :: bool

text \<open>\<open>undef_af\<close> is what a logical instruction leaves in the flag \<open>AF\<close>, which it does not define.\<close>

record machine =
  gpr :: "reg \<Rightarrow> 64 word"
  status :: status
  undef_af :: bool
  fx :: "byte list"
  memory :: umem
  rip :: addr

definition set_reg :: "reg \<Rightarrow> 64 word \<Rightarrow> machine \<Rightarrow> machine" where
  "set_reg r v s = s\<lparr>gpr := (gpr s)(r := v)\<rparr>"

definition read_quad :: "umem \<Rightarrow> addr \<Rightarrow> 64 word option" where
  "read_quad m a = map_option le_word (load_bytes m a 8)"

definition write_bytes :: "addr \<Rightarrow> byte list \<Rightarrow> machine \<Rightarrow> machine option" where
  "write_bytes a bs s =
     (if mapped (memory s) a (length bs) then Some (s\<lparr>memory := fst (store_bytes (memory s) a bs)\<rparr>) else None)"

definition write_quad :: "addr \<Rightarrow> 64 word \<Rightarrow> machine \<Rightarrow> machine option" where
  "write_quad a w s = write_bytes a (le_bytes 8 w) s"

subsection \<open>Flags\<close>

definition parity :: "byte \<Rightarrow> bool" where
  "parity b \<longleftrightarrow> even (length (filter (bit b) [0..<8]))"

definition add_flags :: "'a::len word \<Rightarrow> 'a word \<Rightarrow> status" where
  "add_flags x y =
     \<lparr>CF = unat x + unat y \<ge> 2 ^ LENGTH('a), PF = parity (ucast (x + y)),
      AF = unat x mod 16 + unat y mod 16 \<ge> 16, ZF = x + y = 0, SF = bit (x + y) (LENGTH('a) - 1),
      OF = sint x + sint y \<noteq> sint (x + y)\<rparr>"

definition xor_flags :: "bool \<Rightarrow> 64 word \<Rightarrow> status" where
  "xor_flags undef w = \<lparr>CF = False, PF = parity (ucast w), AF = undef, ZF = w = 0, SF = bit w 63, OF = False\<rparr>"

text \<open>The byte that \<open>lahf\<close> puts into \<open>ah\<close> and \<open>sahf\<close> takes from there; bit 1 is set, bits 3 and 5 are not.\<close>

definition flag_bit :: "bool \<Rightarrow> nat \<Rightarrow> byte" where
  "flag_bit b n = (if b then push_bit n 1 else 0)"

definition flags_byte :: "status \<Rightarrow> byte" where
  "flags_byte f = flag_bit (SF f) 7 OR flag_bit (ZF f) 6 OR flag_bit (AF f) 4 OR flag_bit (PF f) 2 OR 2 OR flag_bit (CF f) 0"

definition flags_of_byte :: "byte \<Rightarrow> bool \<Rightarrow> status" where
  "flags_of_byte b ov = \<lparr>CF = bit b 0, PF = bit b 2, AF = bit b 4, ZF = bit b 6, SF = bit b 7, OF = ov\<rparr>"

text \<open>The two low bytes of a register.\<close>

definition low_byte :: "64 word \<Rightarrow> byte" where
  "low_byte w = ucast w"

definition high_byte :: "64 word \<Rightarrow> byte" where
  "high_byte w = ucast (drop_bit 8 w)"

definition set_low_byte :: "byte \<Rightarrow> 64 word \<Rightarrow> 64 word" where
  "set_low_byte b w = (w AND NOT (mask 8)) OR ucast b"

definition set_high_byte :: "byte \<Rightarrow> 64 word \<Rightarrow> 64 word" where
  "set_high_byte b w = (w AND NOT (push_bit 8 (mask 8))) OR push_bit 8 (ucast b)"

section \<open>Instructions\<close>

text \<open>The instructions in the order of their operands in the source: \<open>Store r d b\<close> is \<open>movq %r, d(%b)\<close>.\<close>

datatype instr =
    Push reg | Pop reg | Move reg reg | Load "64 word" reg reg | Store reg "64 word" reg
  | Add_imm "64 word" reg | Add_mem "64 word" "64 word" reg | Xor reg reg
  | Lahf | Seto_al | Addb_al byte | Sahf | Fxsave "64 word" reg | Fxrstor "64 word" reg | Ret

fun execute :: "instr \<Rightarrow> machine \<Rightarrow> machine option" where
  "execute (Push r) s =
     (let sp = gpr s RSP - 8 in map_option (set_reg RSP sp) (write_quad sp (gpr s r) s))"
| "execute (Pop r) s =
     map_option (\<lambda>v. set_reg r v (set_reg RSP (gpr s RSP + 8) s)) (read_quad (memory s) (gpr s RSP))"
| "execute (Move r r') s = Some (set_reg r' (gpr s r) s)"
| "execute (Load d b r) s = map_option (\<lambda>v. set_reg r v s) (read_quad (memory s) (gpr s b + d))"
| "execute (Store r d b) s = write_quad (gpr s b + d) (gpr s r) s"
| "execute (Add_imm i r) s = Some (set_reg r (gpr s r + i) (s\<lparr>status := add_flags (gpr s r) i\<rparr>))"
| "execute (Add_mem i d b) s =
     (case read_quad (memory s) (gpr s b + d) of
        None \<Rightarrow> None
      | Some v \<Rightarrow> write_quad (gpr s b + d) (v + i) (s\<lparr>status := add_flags v i\<rparr>))"
| "execute (Xor r r') s =
     (let v = gpr s r XOR gpr s r' in Some (set_reg r' v (s\<lparr>status := xor_flags (undef_af s) v\<rparr>)))"
| "execute Lahf s = Some (set_reg RAX (set_high_byte (flags_byte (status s)) (gpr s RAX)) s)"
| "execute Seto_al s = Some (set_reg RAX (set_low_byte (if OF (status s) then 1 else 0) (gpr s RAX)) s)"
| "execute (Addb_al i) s =
     (let b = low_byte (gpr s RAX) in Some (set_reg RAX (set_low_byte (b + i) (gpr s RAX)) (s\<lparr>status := add_flags b i\<rparr>)))"
| "execute Sahf s = Some (s\<lparr>status := flags_of_byte (high_byte (gpr s RAX)) (OF (status s))\<rparr>)"
| "execute (Fxsave d b) s = (if unat (gpr s b + d) mod 16 = 0 then write_bytes (gpr s b + d) (fx s) s else None)"
| "execute (Fxrstor d b) s =
     (if unat (gpr s b + d) mod 16 = 0
      then map_option (\<lambda>bs. s\<lparr>fx := bs\<rparr>) (load_bytes (memory s) (gpr s b + d) 512) else None)"
| "execute Ret s =
     map_option (\<lambda>v. set_reg RSP (gpr s RSP + 8) (s\<lparr>rip := v\<rparr>)) (read_quad (memory s) (gpr s RSP))"

fun exec_all :: "instr list \<Rightarrow> machine \<Rightarrow> machine option" where
  "exec_all [] s = Some s"
| "exec_all (i # is) s = Option.bind (execute i s) (exec_all is)"

section \<open>The code\<close>

definition set_jmp_code :: "instr list" where
  "set_jmp_code =
     [Push RAX, Push R11,
      Lahf, Seto_al, Push RAX,
      Move RDI RAX, Load 16 RSP R11, Store R11 0 RAX, Store RDX 8 RAX, Store RCX 16 RAX, Store RBX 24 RAX,
      Store RSP 32 RAX, Add_mem 16 32 RAX, Store RBP 40 RAX, Store RSI 48 RAX,
      Load 32 RSP R11, Store R11 56 RAX, Store R8 64 RAX, Store R9 72 RAX, Store R10 80 RAX,
      Load 8 RSP R11, Store R11 88 RAX, Store R12 96 RAX, Store R13 104 RAX, Store R14 112 RAX, Store R15 120 RAX,
      Load 0 RSP RDX, Store RDX 136 RAX,
      Load 24 RSP R11, Store R11 128 RAX,
      Fxsave 144 RAX,
      Add_imm 24 RSP, Xor RAX RAX, Ret]"

definition long_jmp_code :: "instr list" where
  "long_jmp_code =
     [Move RDI RAX,
      Load 128 RAX R10, Load 32 RAX R11, Store R10 8 R11,
      Store RSI 0 R11,
      Load 8 RAX RDX, Load 16 RAX RCX, Load 24 RAX RBX, Load 32 RAX RSP, Load 40 RAX RBP, Load 48 RAX RSI,
      Load 64 RAX R8, Load 72 RAX R9, Load 80 RAX R10, Load 88 RAX R11, Load 96 RAX R12, Load 104 RAX R13, Load 112 RAX R14,
      Load 136 RAX RAX, Addb_al 127, Sahf,
      Move RDI RAX, Load 56 RAX RDI, Load 120 RAX R15,
      Fxrstor 144 RAX,
      Load 32 RAX RSP, Pop RAX, Ret]"

text \<open>
  The macro \<open>set_jmp\<close> pushes \<open>rdi\<close>, calls \<open>_set_jmp\<close> with the context as the first argument and
  drops the pushed word; \<open>ret\<close> is the address of the instruction after the call. The value of
  the macro is the low half of the result. \<open>long_jmp\<close> is a call that does not return.
\<close>

definition call :: "instr list \<Rightarrow> addr \<Rightarrow> machine \<Rightarrow> machine option" where
  "call code ret s =
     Option.bind (write_quad (gpr s RSP - 8) ret s) (\<lambda>s. exec_all code (set_reg RSP (gpr s RSP - 8) s))"

definition call_set_jmp :: "addr \<Rightarrow> addr \<Rightarrow> machine \<Rightarrow> machine option" where
  "call_set_jmp env ret s = Option.bind (execute (Push RDI) s) (\<lambda>s. call set_jmp_code ret (set_reg RDI env s))"

definition after_set_jmp :: "machine \<Rightarrow> 32 word \<times> machine" where
  "after_set_jmp s = (ucast (gpr s RAX), set_reg RSP (gpr s RSP + 8) s)"

definition call_long_jmp :: "addr \<Rightarrow> 64 word \<Rightarrow> addr \<Rightarrow> machine \<Rightarrow> machine option" where
  "call_long_jmp env val ret s = call long_jmp_code ret (set_reg RSI val (set_reg RDI env s))"

section \<open>The structure\<close>

text \<open>The fields of \<open>exec_context_t\<close> with their sizes and alignments, and their offsets by the rules of C.\<close>

definition exec_context_t :: "(string \<times> nat \<times> nat) list" where
  "exec_context_t =
     map (\<lambda>n. (n, 8, 8))
       [''rax'', ''rdx'', ''rcx'', ''rbx'', ''rsp'', ''rbp'', ''rsi'', ''rdi'', ''r8'', ''r9'', ''r10'', ''r11'',
        ''r12'', ''r13'', ''r14'', ''r15'', ''rip'', ''flags''] @ [(''others'', 512, 16)]"

fun layout :: "nat \<Rightarrow> (string \<times> nat \<times> nat) list \<Rightarrow> (string \<times> nat) list" where
  "layout off [] = []"
| "layout off ((n, sz, al) # fs) =
     (let start = (off + (al - 1)) div al * al in (n, start) # layout (start + sz) fs)"

section \<open>Memory\<close>

definition quad_ok :: "umem \<Rightarrow> addr \<Rightarrow> bool" where
  "quad_ok m a \<longleftrightarrow> unat a + 8 < 2 ^ 64 \<and> mapped m a 8"

definition put_quad :: "umem \<Rightarrow> addr \<Rightarrow> 64 word \<Rightarrow> umem" where
  "put_quad m a w = fst (store_bytes m a (le_bytes 8 w))"

lemma write_quad_ok: "quad_ok (memory s) a \<Longrightarrow> write_quad a w s = Some (s\<lparr>memory := put_quad (memory s) a w\<rparr>)"
  by (simp add: write_quad_def write_bytes_def quad_ok_def put_quad_def)

lemma quad_ok_put [simp]: "quad_ok (put_quad m b w) a = quad_ok m a"
  by (auto simp: quad_ok_def put_quad_def mapped_iff store_bytes_mapped_any)

lemma quad_ok_store [simp]: "quad_ok (fst (store_bytes m b bs)) a = quad_ok m a"
  by (auto simp: quad_ok_def mapped_iff store_bytes_mapped_any)

lemma read_put_same: "quad_ok m a \<Longrightarrow> read_quad (put_quad m a w) a = Some w"
  using load_store_same [of m a "le_bytes 8 w"] by (simp add: quad_ok_def read_quad_def put_quad_def le_word_bytes)

lemma read_put_apart:
  assumes "unat a + 8 < 2 ^ 64" "unat b + 8 < 2 ^ 64" "disjoint_ranges a 8 b 8"
  shows "read_quad (put_quad m b w) a = read_quad m a"
proof -
  have "load_bytes (put_quad m b w) a 8 = load_bytes m a 8"
    using assms by (intro load_bytes_cong) (auto simp: put_quad_def disjoint_ranges_def in_range_def intro!: store_bytes_outside)
  then show ?thesis by (simp add: read_quad_def)
qed

lemma read_store_apart:
  assumes "unat a + 8 < 2 ^ 64" "unat b + length bs < 2 ^ 64" "disjoint_ranges a 8 b (length bs)"
  shows "read_quad (fst (store_bytes m b bs)) a = read_quad m a"
proof -
  have "load_bytes (fst (store_bytes m b bs)) a 8 = load_bytes m a 8"
    using assms by (intro load_bytes_cong) (auto simp: disjoint_ranges_def in_range_def intro!: store_bytes_outside)
  then show ?thesis by (simp add: read_quad_def)
qed

lemma load_put_apart:
  assumes "unat a + n < 2 ^ 64" "unat b + 8 < 2 ^ 64" "disjoint_ranges a n b 8"
  shows "load_bytes (put_quad m b w) a n = load_bytes m a n"
  using assms by (intro load_bytes_cong) (auto simp: put_quad_def disjoint_ranges_def in_range_def intro!: store_bytes_outside)

lemma mapped_put: "unat a + n < 2 ^ 64 \<Longrightarrow> mapped (put_quad m b w) a n = mapped m a n"
  by (simp add: put_quad_def mapped_iff store_bytes_mapped_any)

section \<open>Flags survive\<close>

lemma flags_round_trip: "flags_of_byte (flags_byte f) (OF f) = f"
  by (cases f) (auto simp: flags_of_byte_def flags_byte_def flag_bit_def bit_simps)

lemma bit_byte_high: "8 \<le> n \<Longrightarrow> \<not> bit (b :: byte) n"
  using bit_imp_le_length [of b n] by auto

lemma byte_lanes [simp]:
  "low_byte (set_low_byte b w) = b" "high_byte (set_low_byte b w) = high_byte w" "high_byte (set_high_byte b w) = b"
  by (rule bit_word_eqI; auto simp: low_byte_def high_byte_def set_low_byte_def set_high_byte_def bit_simps bit_byte_high)+

text \<open>Adding 127 to the byte that \<open>seto\<close> has stored overflows exactly when it is one.\<close>

lemma overflow_again: "OF (add_flags (if b then 1 else 0 :: byte) 127) = b"
  by (simp add: add_flags_def)

section \<open>Context and stack\<close>

definition context_mapped :: "umem \<Rightarrow> addr \<Rightarrow> bool" where
  "context_mapped m env \<longleftrightarrow> unat env mod 16 = 0 \<and> unat env + 656 < 2 ^ 64 \<and> mapped m env 656"

definition stack_mapped :: "umem \<Rightarrow> addr \<Rightarrow> bool" where
  "stack_mapped m b \<longleftrightarrow> unat b + 40 < 2 ^ 64 \<and> mapped m b 40"

lemma mapped_part:
  assumes "mapped m a n" "unat a + n < 2 ^ 64" "unat b + k \<le> unat a + n" "unat a \<le> unat b"
  shows "mapped m b k"
  using assms by (auto simp: mapped_iff in_range_def)

lemma unat_offset: "unat (a :: addr) + n < 2 ^ 64 \<Longrightarrow> k \<le> n \<Longrightarrow> unat (a + of_nat k) = unat a + k"
  by (simp add: unat_word_ariths unsigned_of_nat take_bit_nat_eq_self)

lemma part_quad:
  assumes "mapped m a n" "unat a + n < 2 ^ 64" "k + 8 \<le> n"
  shows "quad_ok m (a + of_nat k)"
proof -
  have "unat (a + of_nat k) = unat a + k" using unat_offset [OF assms(2), of k] assms(3) by simp
  then show ?thesis using mapped_part [OF assms(1,2), of "a + of_nat k" 8] assms(2,3) by (simp add: quad_ok_def)
qed

lemma context_offsets:
  assumes "context_mapped m env"
  shows "unat (env + 8) = unat env + 8" "unat (env + 16) = unat env + 16" "unat (env + 24) = unat env + 24"
    "unat (env + 32) = unat env + 32" "unat (env + 40) = unat env + 40" "unat (env + 48) = unat env + 48"
    "unat (env + 56) = unat env + 56" "unat (env + 64) = unat env + 64" "unat (env + 72) = unat env + 72"
    "unat (env + 80) = unat env + 80" "unat (env + 88) = unat env + 88" "unat (env + 96) = unat env + 96"
    "unat (env + 104) = unat env + 104" "unat (env + 112) = unat env + 112" "unat (env + 120) = unat env + 120"
    "unat (env + 128) = unat env + 128" "unat (env + 136) = unat env + 136" "unat (env + 144) = unat env + 144"
    "unat env + 656 < 2 ^ 64" "unat env mod 16 = 0"
  using assms unat_offset [of env 656, OF _ , of 8] unat_offset [of env 656, of 16] unat_offset [of env 656, of 24]
    unat_offset [of env 656, of 32] unat_offset [of env 656, of 40] unat_offset [of env 656, of 48]
    unat_offset [of env 656, of 56] unat_offset [of env 656, of 64] unat_offset [of env 656, of 72]
    unat_offset [of env 656, of 80] unat_offset [of env 656, of 88] unat_offset [of env 656, of 96]
    unat_offset [of env 656, of 104] unat_offset [of env 656, of 112] unat_offset [of env 656, of 120]
    unat_offset [of env 656, of 128] unat_offset [of env 656, of 136] unat_offset [of env 656, of 144]
  by (simp_all add: context_mapped_def)

lemma context_quads:
  assumes "context_mapped m env"
  shows "quad_ok m env" "quad_ok m (env + 8)" "quad_ok m (env + 16)" "quad_ok m (env + 24)"
    "quad_ok m (env + 32)" "quad_ok m (env + 40)" "quad_ok m (env + 48)"
    "quad_ok m (env + 56)" "quad_ok m (env + 64)" "quad_ok m (env + 72)"
    "quad_ok m (env + 80)" "quad_ok m (env + 88)" "quad_ok m (env + 96)"
    "quad_ok m (env + 104)" "quad_ok m (env + 112)" "quad_ok m (env + 120)"
    "quad_ok m (env + 128)" "quad_ok m (env + 136)"
  using assms part_quad [of m env 656 0] part_quad [of m env 656 8] part_quad [of m env 656 16] part_quad [of m env 656 24]
    part_quad [of m env 656 32] part_quad [of m env 656 40] part_quad [of m env 656 48]
    part_quad [of m env 656 56] part_quad [of m env 656 64] part_quad [of m env 656 72]
    part_quad [of m env 656 80] part_quad [of m env 656 88] part_quad [of m env 656 96]
    part_quad [of m env 656 104] part_quad [of m env 656 112] part_quad [of m env 656 120]
    part_quad [of m env 656 128] part_quad [of m env 656 136]
  by (simp_all add: context_mapped_def)

lemma stack_offsets:
  assumes "stack_mapped m b"
  shows "unat (b + 8) = unat b + 8" "unat (b + 16) = unat b + 16" "unat (b + 24) = unat b + 24"
    "unat (b + 32) = unat b + 32" "unat b + 40 < 2 ^ 64"
  using assms unat_offset [of b 40, of 8] unat_offset [of b 40, of 16] unat_offset [of b 40, of 24]
    unat_offset [of b 40, of 32]
  by (simp_all add: stack_mapped_def)

lemma stack_quads:
  assumes "stack_mapped m b"
  shows "quad_ok m b" "quad_ok m (b + 8)" "quad_ok m (b + 16)" "quad_ok m (b + 24)" "quad_ok m (b + 32)"
  using assms part_quad [of m b 40 0] part_quad [of m b 40 8] part_quad [of m b 40 16] part_quad [of m b 40 24]
    part_quad [of m b 40 32]
  by (simp_all add: stack_mapped_def)

lemma fx_part:
  assumes "context_mapped m env"
  shows "mapped m (env + 144) 512"
  using assms mapped_part [of m env 656 "env + 144" 512] context_offsets [OF assms] by (simp add: context_mapped_def)

section \<open>Saving\<close>

text \<open>The word with the flags that is pushed, and the memory after the pushes and after the saving of the registers.\<close>

definition flags_word :: "machine \<Rightarrow> 64 word" where
  "flags_word s = set_low_byte (if OF (status s) then 1 else 0) (set_high_byte (flags_byte (status s)) (gpr s RAX))"

definition push_frame :: "addr \<Rightarrow> addr \<Rightarrow> machine \<Rightarrow> umem" where
  "push_frame b ret s =
     put_quad (put_quad (put_quad (put_quad (put_quad (memory s) (b + 32) (gpr s RDI)) (b + 24) ret) (b + 16) (gpr s RAX))
       (b + 8) (gpr s R11)) b (flags_word s)"

definition saved_regs :: "addr \<Rightarrow> addr \<Rightarrow> addr \<Rightarrow> machine \<Rightarrow> umem" where
  "saved_regs env b ret s =
     fold (\<lambda>(d, v) m. put_quad m (env + d) v)
       [(0, gpr s RAX), (8, gpr s RDX), (16, gpr s RCX), (24, gpr s RBX), (32, b), (32, b + 16), (40, gpr s RBP),
        (48, gpr s RSI), (56, gpr s RDI), (64, gpr s R8), (72, gpr s R9), (80, gpr s R10), (88, gpr s R11),
        (96, gpr s R12), (104, gpr s R13), (112, gpr s R14), (120, gpr s R15), (136, flags_word s), (128, ret)]
       (push_frame b ret s)"

lemma read_put_offset:
  assumes "unat a + n < 2 ^ 64" "unat d + 8 \<le> n" "unat k + 8 \<le> n" "unat d + 8 \<le> unat k \<or> unat k + 8 \<le> unat d"
  shows "read_quad (put_quad m (a + d) w) (a + k) = read_quad m (a + k)"
proof -
  have "unat (a + d) = unat a + unat d" "unat (a + k) = unat a + unat k"
    using assms unat_offset [of a n "unat d"] unat_offset [of a n "unat k"] by simp_all
  then show ?thesis using assms by (intro read_put_apart) (auto simp: disjoint_ranges_def)
qed

lemma read_put_region:
  assumes "unat a + n < 2 ^ 64" "unat b + l < 2 ^ 64" "unat d + 8 \<le> n" "unat k + 8 \<le> l" "disjoint_ranges a n b l"
  shows "read_quad (put_quad m (a + d) w) (b + k) = read_quad m (b + k)"
    "read_quad (put_quad m (b + k) w) (a + d) = read_quad m (a + d)"
proof -
  have "unat (a + d) = unat a + unat d" "unat (b + k) = unat b + unat k"
    using assms unat_offset [of a n "unat d"] unat_offset [of b l "unat k"] by simp_all
  then show "read_quad (put_quad m (a + d) w) (b + k) = read_quad m (b + k)"
    "read_quad (put_quad m (b + k) w) (a + d) = read_quad m (a + d)"
    using assms by (auto intro!: read_put_apart simp: disjoint_ranges_def)
qed

lemma set_jmp_runs:
  assumes c: "context_mapped (memory s) env" and st: "stack_mapped (memory s) b" and sp: "gpr s RSP = b + 40"
    and dis: "disjoint_ranges env 656 b 40" and fx: "length (fx s) = 512"
  shows "call_set_jmp env ret s = Some (s\<lparr>gpr := (gpr s)(RDI := env, RAX := 0, RDX := flags_word s, R11 := ret, RSP := b + 32),
    status := xor_flags (undef_af s) 0, memory := fst (store_bytes (saved_regs env b ret s) (env + 144) (fx s)), rip := ret\<rparr>)"
proof -
  have comm: "numeral k + b = b + numeral k" "numeral k + env = env + numeral k" for k by (simp_all add: add.commute)
  have flag: "set_low_byte (if OF (status s) then 1 else 0) (set_high_byte (flags_byte (status s)) (gpr s RAX)) = flags_word s"
    by (simp add: flags_word_def)
  have E: "unat env + 656 < 2 ^ 64" and B: "unat b + 40 < 2 ^ 64" using c st by (simp_all add: context_mapped_def stack_mapped_def)
  note apart = read_put_offset [OF E] read_put_offset [OF E, of 0, simplified] read_put_offset [OF E, of _ 0, simplified]
    read_put_offset [OF B] read_put_offset [OF B, of 0, simplified] read_put_offset [OF B, of _ 0, simplified]
    read_put_region [OF E B _ _ dis] read_put_region [OF E B _ _ dis, of 0, simplified] 
    read_put_region [OF E B _ _ dis, of _ 0, simplified] read_put_region [OF E B _ _ dis, of 0 0, simplified] 
  have "unat (env + 144) mod 16 = 0" using context_offsets [OF c] by (simp add: mod_add_eq [symmetric])
  note facts = context_quads [OF c] stack_quads [OF st] fx_part [OF c] sp fx this
  have m: "mapped m (env + 144) 512 \<Longrightarrow> mapped (put_quad m a v) (env + 144) 512" for a v m
     using E context_offsets [OF c] by (simp add: mapped_put)
  have fxr: "read_quad (fst (store_bytes m (env + 144) (fx s))) (b + 24) = read_quad m (b + 24)" for m
  proof (rule read_store_apart)
    show "unat (b + 24) + 8 < 2 ^ 64" "unat (env + 144) + length (fx s) < 2 ^ 64"
      using E B fx by (simp_all add: context_offsets(18) [OF c] stack_offsets(3) [OF st])
    show "disjoint_ranges (b + 24) 8 (env + 144) (length (fx s))"
      using dis fx by (auto simp: disjoint_ranges_def context_offsets(18) [OF c] stack_offsets(3) [OF st])
  qed
  show ?thesis
    by (simp add: fxr facts call_set_jmp_def call_def set_jmp_code_def write_quad_ok set_reg_def Let_def
     read_put_same apart write_bytes_def m comm flag saved_regs_def push_frame_def
     split del: if_split) (rule machine.equality; simp add: fun_upd_twist)
qed


text \<open>What the 18 words of a saved context hold.\<close>

definition context_values :: "addr \<Rightarrow> addr \<Rightarrow> machine \<Rightarrow> (64 word \<times> 64 word) list" where
  "context_values b ret s =
     [(0, gpr s RAX), (8, gpr s RDX), (16, gpr s RCX), (24, gpr s RBX), (32, b + 16), (40, gpr s RBP),
      (48, gpr s RSI), (56, gpr s RDI), (64, gpr s R8), (72, gpr s R9), (80, gpr s R10), (88, gpr s R11),
      (96, gpr s R12), (104, gpr s R13), (112, gpr s R14), (120, gpr s R15), (128, ret), (136, flags_word s)]"

definition context_saved :: "umem \<Rightarrow> addr \<Rightarrow> (64 word \<times> 64 word) list \<Rightarrow> byte list \<Rightarrow> bool" where
  "context_saved m env vs f \<longleftrightarrow> (\<forall>(d, v) \<in> set vs. read_quad m (env + d) = Some v) \<and> load_bytes m (env + 144) 512 = Some f"

lemma member_consE: "x \<in> set (y # ys) \<Longrightarrow> (x = y \<Longrightarrow> P) \<Longrightarrow> (x \<in> set ys \<Longrightarrow> P) \<Longrightarrow> P"
  by auto

lemma mapped_saved_regs:
  assumes "unat a + n < 2 ^ 64"
  shows "mapped (saved_regs env b ret s) a n = mapped (memory s) a n"
  using assms by (simp add: saved_regs_def push_frame_def mapped_put)

lemma set_jmp_saves:
  assumes c: "context_mapped (memory s) env" and fx: "length (fx s) = 512"
  shows "context_saved (fst (store_bytes (saved_regs env b ret s) (env + 144) (fx s))) env (context_values b ret s) (fx s)"
proof -
  have E: "unat env + 656 < 2 ^ 64" using c by (simp add: context_mapped_def)
  note apart = read_put_offset [OF E] read_put_offset [OF E, of 0, simplified] read_put_offset [OF E, of _ 0, simplified]
  have o: "unat (env + 144) = unat env + 144" by (rule context_offsets(18) [OF c])
  have m: "mapped (saved_regs env b ret s) (env + 144) 512" using fx_part [OF c] E o by (simp add: mapped_saved_regs)
  have "read_quad (fst (store_bytes (saved_regs env b ret s) (env + 144) (fx s))) (env + d) = Some v"
    if dv: "(d, v) \<in> set (context_values b ret s)" for d v
  proof -
    have d: "unat d + 8 \<le> 144" using dv by (auto simp: context_values_def)
    have "unat (env + d) = unat env + unat d" using unat_offset [OF E, of "unat d"] d by simp
    then have "read_quad (fst (store_bytes (saved_regs env b ret s) (env + 144) (fx s))) (env + d) =
        read_quad (saved_regs env b ret s) (env + d)"
      using d E o fx by (intro read_store_apart) (auto simp: disjoint_ranges_def)
    also have "\<dots> = Some v" using dv unfolding context_values_def
      by (elim member_consE) (simp_all add: saved_regs_def push_frame_def apart read_put_same context_quads [OF c])
    finally show ?thesis .
  qed
  moreover have "load_bytes (fst (store_bytes (saved_regs env b ret s) (env + 144) (fx s))) (env + 144) 512 = Some (fx s)"
    using load_store_same [of "saved_regs env b ret s" "env + 144" "fx s"] m E o fx by simp
  ultimately show ?thesis unfolding context_saved_def by blast
qed


lemma context_saved_put:
  assumes "unat env + 656 < 2 ^ 64" "unat q + 8 < 2 ^ 64" "disjoint_ranges env 656 q 8" "\<forall>(d, v) \<in> set vs. unat d + 8 \<le> 144"
  shows "context_saved (put_quad m q w) env vs f = context_saved m env vs f"
proof -
  have "read_quad (put_quad m q w) (env + d) = read_quad m (env + d)" if "(d, v) \<in> set vs" for d v
  proof -
    have d: "unat d + 8 \<le> 144" using assms(4) that by auto
    then have "unat (env + d) = unat env + unat d" using unat_offset [OF assms(1), of "unat d"] by simp
    then show ?thesis using d assms by (intro read_put_apart) (auto simp: disjoint_ranges_def)
  qed
  moreover have "unat (env + 144) = unat env + 144" using unat_offset [OF assms(1), of 144] by simp
  then have "load_bytes (put_quad m q w) (env + 144) 512 = load_bytes m (env + 144) 512"
    using assms by (intro load_put_apart) (auto simp: disjoint_ranges_def)
  ultimately show ?thesis unfolding context_saved_def by (auto split: prod.splits)
qed

lemma context_offsets_small: "\<forall>(d, v) \<in> set (context_values b ret s). unat d + 8 \<le> 144"
  by (simp add: context_values_def)

lemma context_saved_reads:
  assumes "context_saved m env (context_values b ret s) f"
  shows "read_quad m env = Some (gpr s RAX)" "read_quad m (env + 8) = Some (gpr s RDX)" "read_quad m (env + 16) = Some (gpr s RCX)"
    "read_quad m (env + 24) = Some (gpr s RBX)" "read_quad m (env + 32) = Some (b + 16)" "read_quad m (env + 40) = Some (gpr s RBP)"
    "read_quad m (env + 48) = Some (gpr s RSI)" "read_quad m (env + 56) = Some (gpr s RDI)" "read_quad m (env + 64) = Some (gpr s R8)"
    "read_quad m (env + 72) = Some (gpr s R9)" "read_quad m (env + 80) = Some (gpr s R10)" "read_quad m (env + 88) = Some (gpr s R11)"
    "read_quad m (env + 96) = Some (gpr s R12)" "read_quad m (env + 104) = Some (gpr s R13)" "read_quad m (env + 112) = Some (gpr s R14)"
    "read_quad m (env + 120) = Some (gpr s R15)" "read_quad m (env + 128) = Some ret" "read_quad m (env + 136) = Some (flags_word s)"
    "load_bytes m (env + 144) 512 = Some f"
  using assms by (simp_all add: context_saved_def context_values_def)

section \<open>Restoring\<close>

lemma long_jmp_runs:
  assumes E: "unat env mod 16 = 0" "unat env + 656 < 2 ^ 64" and saved: "context_saved (memory t) env (context_values b ret s) f"
    and B: "unat b + 40 < 2 ^ 64" and dis: "disjoint_ranges env 656 b 40" and slots: "quad_ok (memory t) (b + 16)" "quad_ok (memory t) (b + 24)"
    and q: "gpr t RSP = q + 8" "quad_ok (memory t) q" "disjoint_ranges env 656 q 8"
  shows "call_long_jmp env val r t = Some (t\<lparr>gpr := (gpr s)(RAX := val, RSP := b + 32), status := status s, fx := f,
     memory := put_quad (put_quad (put_quad (memory t) q r) (b + 24) ret) (b + 16) val, rip := ret\<rparr>)"
proof -
  have comm: "numeral k + b = b + numeral k" "numeral k + env = env + numeral k" "numeral k + q = q + numeral k" for k
    by (simp_all add: add.commute)
  have o: "unat (b + 16) = unat b + 16" "unat (b + 24) = unat b + 24" "unat (env + 144) = unat env + 144"
    using unat_offset [OF B, of 16] unat_offset [OF B, of 24] unat_offset [OF E(2), of 144] by simp_all
  have d: "disjoint_ranges env 656 (b + 16) 8" "disjoint_ranges env 656 (b + 24) 8"
    using dis by (auto simp: disjoint_ranges_def o)
  let ?m1 = "put_quad (memory t) q r" 
  let ?m2 = "put_quad ?m1 (b + 24) ret"
  let ?m3 = "put_quad ?m2 (b + 16) val"
  have s1: "context_saved ?m1 env (context_values b ret s) f"
    using saved q(2) by (simp add: context_saved_put [OF E(2) _ q(3) context_offsets_small] quad_ok_def)
  have s2: "context_saved ?m2 env (context_values b ret s) f"
    using s1 B by (simp add: context_saved_put [OF E(2) _ d(2) context_offsets_small] o)
  have s3: "context_saved ?m3 env (context_values b ret s) f"
    using s2 B by (simp add: context_saved_put [OF E(2) _ d(1) context_offsets_small] o)
  have "unat (env + 144) mod 16 = 0" using E(1) o by (simp add: mod_add_eq [symmetric])
  moreover have "read_quad ?m3 (b + 24) = Some ret" using slots read_put_offset [OF B, of 16 24] by (simp add: read_put_same)
  moreover have "read_quad ?m3 (b + 16) = Some val" using slots by (simp add: read_put_same)
  moreover have "OF (add_flags (low_byte (flags_word s)) 127) = OF (status s)" "flags_of_byte (high_byte (flags_word s)) (OF (status s)) = status s"
    by (simp_all only: flags_word_def byte_lanes overflow_again flags_round_trip)
  moreover note context_saved_reads [OF s1] context_saved_reads [OF s2] context_saved_reads [OF s3] slots q(1,2)
  ultimately have "call_long_jmp env val r t = Some (t\<lparr>gpr := (gpr t)(RSI := gpr s RSI, RSP := b + 32, RAX := val,
     RDX := gpr s RDX, RCX := gpr s RCX, RBX := gpr s RBX, RBP := gpr s RBP, RDI := gpr s RDI, R8 := gpr s R8, R9 := gpr s R9, 
     R10 := gpr s R10, R11 := gpr s R11, R12 := gpr s R12, R13 := gpr s R13, R14 := gpr s R14, R15 := gpr s R15), status := status s, fx := f,
     memory := ?m3, rip := ret\<rparr>)" 
    by (simp add: call_long_jmp_def call_def long_jmp_code_def write_quad_ok set_reg_def Let_def comm split del: if_split)
      (rule machine.equality; simp add: fun_upd_twist)
  moreover have "(gpr t)(RSI := gpr s RSI, RSP := b + 32, RAX := val,
     RDX := gpr s RDX, RCX := gpr s RCX, RBX := gpr s RBX, RBP := gpr s RBP, RDI := gpr s RDI, R8 := gpr s R8, R9 := gpr s R9, 
     R10 := gpr s R10, R11 := gpr s R11, R12 := gpr s R12, R13 := gpr s R13, R14 := gpr s R14, R15 := gpr s R15) = 
     (gpr s)(RAX := val, RSP := b + 32)" (is "?l = ?r")
  proof
    show "?l x = ?r x" for x by (cases x) simp_all
  qed
  ultimately show ?thesis by simp
qed

section \<open>Properties\<close>

text \<open>The state at a call of the macro \<open>set_jmp\<close>: the context and five words below the stack pointer are memory.\<close>

definition can_save :: "machine \<Rightarrow> addr \<Rightarrow> bool" where
  "can_save s env \<longleftrightarrow> context_mapped (memory s) env \<and> stack_mapped (memory s) (gpr s RSP - 40) \<and>
     disjoint_ranges env 656 (gpr s RSP - 40) 40 \<and> length (fx s) = 512"

text \<open>
  The state at a call of \<open>long_jmp\<close> to a context saved with the stack pointer \<open>sp\<close>: the two
  words the call writes on the old stack, and the word it pushes on its own stack.
\<close>

definition can_resume :: "machine \<Rightarrow> addr \<Rightarrow> addr \<Rightarrow> bool" where
  "can_resume t env sp \<longleftrightarrow> quad_ok (memory t) (sp - 24) \<and> quad_ok (memory t) (sp - 16) \<and>
     quad_ok (memory t) (gpr t RSP - 8) \<and> disjoint_ranges env 656 (gpr t RSP - 8) 8"

definition same_context :: "addr \<Rightarrow> umem \<Rightarrow> umem \<Rightarrow> bool" where
  "same_context env m m' \<longleftrightarrow> (\<forall>x. in_range env 656 x \<longrightarrow> m x = m' x)"

lemma context_saved_cong:
  assumes "unat env + 656 < 2 ^ 64" "same_context env m m'" "\<forall>(d, v) \<in> set vs. unat d + 8 \<le> 144"
  shows "context_saved m env vs f = context_saved m' env vs f"
proof -
  have "load_bytes m (env + d) n = load_bytes m' (env + d) n" if "unat d + n \<le> 656" for d n
  proof -
    have "unat (env + d) = unat env + unat d" using unat_offset [OF assms(1), of "unat d"] that by simp
    then show ?thesis using that assms(1,2) by (intro load_bytes_cong) (auto simp: same_context_def in_range_def)
  qed
  note same = this
  have "load_bytes m (env + 144) 512 = load_bytes m' (env + 144) 512" by (rule same) simp
  moreover have "read_quad m (env + d) = read_quad m' (env + d)" if "(d, v) \<in> set vs" for d v
  proof -
    have "unat d + 8 \<le> 656" using assms(3) that by auto
    then show ?thesis by (simp add: read_quad_def same)
  qed
  ultimately show ?thesis unfolding context_saved_def by (auto split: prod.splits)
qed

lemma set_jmp_result:
  assumes "can_save s env"
  shows "\<exists>s1. call_set_jmp env ret s = Some s1 \<and> rip s1 = ret \<and> gpr s1 RSP = gpr s RSP - 8 \<and> gpr s1 RAX = 0 \<and>
    context_saved (memory s1) env (context_values (gpr s RSP - 40) ret s) (fx s)"
proof -
  have c: "context_mapped (memory s) env" "stack_mapped (memory s) (gpr s RSP - 40)" "gpr s RSP = gpr s RSP - 40 + 40"
    "disjoint_ranges env 656 (gpr s RSP - 40) 40" "length (fx s) = 512" using assms by (simp_all add: can_save_def)
  show ?thesis using set_jmp_runs [OF c] set_jmp_saves [OF c(1,5)] by simp
qed

lemma resume_result:
  assumes "can_save s env" "call_set_jmp env ret s = Some s1" "same_context env (memory t) (memory s1)" "can_resume t env (gpr s RSP)"
  shows "\<exists>t1. call_long_jmp env val r t = Some t1 \<and> rip t1 = ret \<and>
    gpr t1 = (gpr s)(RAX := val, RSP := gpr s RSP - 8) \<and> status t1 = status s \<and> fx t1 = fx s"
proof -
  have E: "unat env mod 16 = 0" "unat env + 656 < 2 ^ 64" and B: "unat (gpr s RSP - 40) + 40 < 2 ^ 64"
    and dis: "disjoint_ranges env 656 (gpr s RSP - 40) 40"
    using assms(1) by (auto simp: can_save_def context_mapped_def stack_mapped_def)
  have "context_saved (memory s1) env (context_values (gpr s RSP - 40) ret s) (fx s)"
    using set_jmp_result [OF assms(1), of ret] assms(2) by auto
  then have saved: "context_saved (memory t) env (context_values (gpr s RSP - 40) ret s) (fx s)"
    by (simp add: context_saved_cong [OF E(2) assms(3) context_offsets_small])
  have q: "gpr t RSP = gpr t RSP - 8 + 8" "quad_ok (memory t) (gpr t RSP - 8)" "disjoint_ranges env 656 (gpr t RSP - 8) 8"
    "quad_ok (memory t) (gpr s RSP - 40 + 16)" "quad_ok (memory t) (gpr s RSP - 40 + 24)"
    using assms(4) by (simp_all add: can_resume_def)
  show ?thesis using long_jmp_runs [OF E saved B dis q(4,5,1-3), of val r] by simp
qed

text \<open>
  C18: What \<open>_set_jmp\<close> saves, \<open>_long_jmp\<close> restores. A call of \<open>set_jmp\<close> returns 0; whatever runs
  afterwards, with whatever registers and on whatever stack, as long as it leaves the
  context alone, a call of \<open>long_jmp\<close> with that context continues after the call of \<open>set_jmp\<close>
  with the value it is given, the same stack pointer, and every other register, the status
  flags and the floating point state as they were before the macro.
\<close>

theorem jmp_round_trip:
  assumes "can_save s env"
  shows "\<exists>s1. call_set_jmp env ret s = Some s1 \<and> rip s1 = ret \<and> gpr s1 RSP = gpr s RSP - 8 \<and> fst (after_set_jmp s1) = 0 \<and>
    (\<forall>t val r. same_context env (memory t) (memory s1) \<and> can_resume t env (gpr s RSP) \<longrightarrow>
      (\<exists>t1. call_long_jmp env val r t = Some t1 \<and> rip t1 = ret \<and>
         gpr t1 = (gpr s)(RAX := val, RSP := gpr s RSP - 8) \<and> status t1 = status s \<and> fx t1 = fx s))"
  using set_jmp_result [OF assms, of ret] resume_result [OF assms] by (auto simp: after_set_jmp_def)

text \<open>The values of the fields by their names in C.\<close>

definition field_value :: "machine \<Rightarrow> addr \<Rightarrow> (string \<times> 64 word) list" where
  "field_value s ret =
     [(''rax'', gpr s RAX), (''rdx'', gpr s RDX), (''rcx'', gpr s RCX), (''rbx'', gpr s RBX), (''rsp'', gpr s RSP - 24),
      (''rbp'', gpr s RBP), (''rsi'', gpr s RSI), (''rdi'', gpr s RDI), (''r8'', gpr s R8), (''r9'', gpr s R9),
      (''r10'', gpr s R10), (''r11'', gpr s R11), (''r12'', gpr s R12), (''r13'', gpr s R13), (''r14'', gpr s R14),
      (''r15'', gpr s R15), (''rip'', ret), (''flags'', flags_word s)]"

lemma layout_context:
  "layout 0 exec_context_t =
     [(''rax'', 0), (''rdx'', 8), (''rcx'', 16), (''rbx'', 24), (''rsp'', 32), (''rbp'', 40), (''rsi'', 48), (''rdi'', 56),
      (''r8'', 64), (''r9'', 72), (''r10'', 80), (''r11'', 88), (''r12'', 96), (''r13'', 104), (''r14'', 112), (''r15'', 120),
      (''rip'', 128), (''flags'', 136), (''others'', 144)]"
  by (simp add: exec_context_t_def)

text \<open>
  C19: The displacements in the code are the offsets that C gives the fields of
  \<open>exec_context_t\<close>: after \<open>_set_jmp\<close> every field holds the register it is named after (the
  stack pointer with which \<open>_long_jmp\<close> pops the result, the return address, the flags), the
  floating point area starts at a multiple of 16 and the structure ends with it.
\<close>

theorem set_jmp_fills_fields:
  assumes "can_save s env"
  shows "\<exists>s1. call_set_jmp env ret s = Some s1 \<and>
    list_all (\<lambda>(n, off). case map_of (field_value s ret) n of
        Some v \<Rightarrow> read_quad (memory s1) (env + of_nat off) = Some v
      | None \<Rightarrow> n = ''others'' \<and> off mod 16 = 0 \<and> load_bytes (memory s1) (env + of_nat off) 512 = Some (fx s))
      (layout 0 exec_context_t)"
proof -
  obtain s1 where s1: "call_set_jmp env ret s = Some s1"
    "context_saved (memory s1) env (context_values (gpr s RSP - 40) ret s) (fx s)" using set_jmp_result [OF assms] by blast
  show ?thesis using s1(1) context_saved_reads [OF s1(2)]
    by (simp only: layout_context list.pred_inject prod.case) (simp add: field_value_def)
qed

text \<open>
  The macros \<open>context_switch\<close> of \<open>ult.h\<close> jump to a context with the value its field \<open>rax\<close> holds.
\<close>

definition jump_to_context :: "addr \<Rightarrow> addr \<Rightarrow> machine \<Rightarrow> machine option" where
  "jump_to_context env r t = Option.bind (read_quad (memory t) env) (\<lambda>rax. call_long_jmp env rax r t)"


section \<open>A machine with one megabyte of memory\<close>

definition demo_machine :: machine where
  "demo_machine = \<lparr>gpr = (\<lambda>r. if r = RSP then 65536 else 7), status = flags_of_byte 0 True, undef_af = False,
     fx = replicate 512 3, memory = (\<lambda>a. if a < 1048576 then Some 0 else None), rip = 0\<rparr>"

lemma demo_mapped: "unat a + n \<le> 1048576 \<Longrightarrow> mapped (memory demo_machine) a n"
  by (subst mapped_iff) (auto simp: demo_machine_def in_range_def word_less_nat_alt)

lemma demo_can_save: "can_save demo_machine 4096"
proof -
  have "mapped (memory demo_machine) 4096 656" "mapped (memory demo_machine) 65496 40" by (rule demo_mapped; simp)+
  then show ?thesis by (simp add: can_save_def context_mapped_def stack_mapped_def disjoint_ranges_def)
    (simp add: demo_machine_def)
qed

lemma quad_ok_saved_regs: "quad_ok (saved_regs env b ret s) a = quad_ok (memory s) a"
  by (simp add: saved_regs_def push_frame_def)

lemma demo_saved:
  obtains s1 where "call_set_jmp 4096 77 demo_machine = Some s1" "can_resume (s1\<lparr>gpr := (\<lambda>_. 131072)\<rparr>) 4096 65536"
proof -
  have c: "context_mapped (memory demo_machine) 4096" "stack_mapped (memory demo_machine) 65496"
    "gpr demo_machine RSP = 65496 + 40" "disjoint_ranges 4096 656 65496 40" "length (fx demo_machine) = 512"
    using demo_can_save by (simp_all add: can_save_def demo_machine_def)
  have q: "quad_ok (memory demo_machine) 65512" "quad_ok (memory demo_machine) 65520" "quad_ok (memory demo_machine) 131064"
    using demo_mapped [of 65512 8] demo_mapped [of 65520 8] demo_mapped [of 131064 8] by (simp_all add: quad_ok_def)
  show ?thesis using set_jmp_runs [OF c, of 77] q
    by (intro that [OF set_jmp_runs [OF c, of 77]])
      (simp add: can_resume_def quad_ok_saved_regs disjoint_ranges_def)
qed

theorem jmp_round_trip_witness:
  "\<exists>s1 t1. call_set_jmp 4096 77 demo_machine = Some s1 \<and>
    call_long_jmp 4096 9 5 (s1\<lparr>gpr := (\<lambda>_. 131072)\<rparr>) = Some t1 \<and> rip t1 = 77 \<and> gpr t1 RAX = 9 \<and> gpr t1 RBX = 7"
proof -
  obtain s1 where s1: "call_set_jmp 4096 77 demo_machine = Some s1" "can_resume (s1\<lparr>gpr := (\<lambda>_. 131072)\<rparr>) 4096 65536"
    by (rule demo_saved)
  have sp: "gpr demo_machine RSP = 65536" "gpr demo_machine RBX = 7" by (simp_all add: demo_machine_def)
  have same: "same_context 4096 (memory (s1\<lparr>gpr := (\<lambda>_. 131072)\<rparr>)) (memory s1)" by (simp add: same_context_def)
  have resume: "can_resume (s1\<lparr>gpr := (\<lambda>_. 131072)\<rparr>) 4096 (gpr demo_machine RSP)" using s1(2) sp(1) by simp
  obtain t1 where "call_long_jmp 4096 9 5 (s1\<lparr>gpr := (\<lambda>_. 131072)\<rparr>) = Some t1" "rip t1 = 77"
    "gpr t1 = (gpr demo_machine)(RAX := 9, RSP := gpr demo_machine RSP - 8)"
    using jmp_round_trip [OF demo_can_save, of 77] s1(1) same resume by (metis option.inject)
  then show ?thesis using s1(1) sp(2) by simp
qed

theorem set_jmp_fills_fields_witness:
  "\<exists>s1. call_set_jmp 4096 77 demo_machine = Some s1 \<and> read_quad (memory s1) (4096 + 128) = Some 77"
proof -
  obtain s1 where s1: "call_set_jmp 4096 77 demo_machine = Some s1"
    "list_all (\<lambda>(n, off). case map_of (field_value demo_machine 77) n of
        Some v \<Rightarrow> read_quad (memory s1) (4096 + of_nat off) = Some v
      | None \<Rightarrow> n = ''others'' \<and> off mod 16 = 0 \<and> load_bytes (memory s1) (4096 + of_nat off) 512 = Some (fx demo_machine))
      (layout 0 exec_context_t)" using set_jmp_fills_fields [OF demo_can_save, of 77] by blast
  then have "read_quad (memory s1) (4096 + 128) = Some 77" by (simp add: layout_context field_value_def)
  then show ?thesis using s1(1) by blast
qed


end
