(* ===== verification/Fiber_Fine.thy ===== *)
theory Fiber_Fine
  imports Fiber_Context Lock_Owner
begin

text \<open>
  The scheduling and the storage handlers of \<open>fibers/fiber.c\<close>, access by access. In \<open>Fiber\<close> a handler is
  one step; here the threads of one process interleave at every access to an object that
  they share: a lock, a field of a fiber, the counter of the group, a table. The tables are
  the maps that the lookups see (\<open>Fiber_Tables\<close>), allocations succeed, and the group exists
  until the end of the run: closing the device is not an action here.

  Two fields are not in the program: \<open>left_at\<close> remembers the registers with which a fiber was
  left, and \<open>known\<close> the ids that have been returned to the process.
\<close>

section \<open>States\<close>

text \<open>
  Where a task is: in user mode with the result of its last call, or in front of an access of a
  switch (\<open>Sw\<close>), of the rest of a switch from one fiber to another, of a creation (\<open>Cr\<close>), of
  a conversion (\<open>Cv\<close>) or of the allocation (\<open>Fa\<close>), reading (\<open>Fg\<close>), freeing (\<open>Ff\<close>) or
  writing (\<open>Fs\<close>) of a slot of the fiber that the thread runs.
\<close>

datatype kpc =
    User c_long
  | Sw_try pid_t | Sw_state pid_t | Sw_fail pid_t | Sw_old pid_t
  | Act_state pid_t pid_t | Act_count pid_t pid_t | Act_time pid_t pid_t | Act_thread pid_t pid_t
  | Save_regs pid_t pid_t | Save_fpu pid_t pid_t | Account pid_t pid_t | Clear pid_t pid_t | Unlock pid_t pid_t
  | Rest_regs pid_t | Rest_fpu pid_t
  | Cr_count addr c_ulong c_ulong addr | Cr_add pid_t addr c_ulong c_ulong addr
  | Cr_stack pid_t addr c_ulong c_ulong addr | Cr_context pid_t addr c_ulong c_ulong addr
  | Cv_thread | Cv_count | Cv_add pid_t | Cv_try pid_t | Cv_state pid_t | Cv_fail pid_t
  | Cv_act_state pid_t | Cv_act_count pid_t | Cv_act_time pid_t | Cv_act_thread pid_t
  | Fa_scan pid_t | Fa_set pid_t nat | Fg_test pid_t c_long | Fg_read pid_t c_long
  | Ff_test pid_t c_long | Ff_clear pid_t c_long | Fs_test pid_t c_long c_long | Fs_write pid_t c_long c_long

record fine =
  fibs :: "pid_t \<rightharpoonup> fiber"
  thrs :: "pid_t \<rightharpoonup> thread"
  fid_count :: c_int
  task_of :: "pid_t \<Rightarrow> task"
  kpc_of :: "pid_t \<Rightarrow> kpc"
  left_at :: "pid_t \<Rightarrow> context_t"
  known :: "pid_t \<Rightarrow> bool"

definition on_fiber :: "pid_t \<Rightarrow> (fiber \<Rightarrow> fiber) \<Rightarrow> fine \<Rightarrow> fine" where
  "on_fiber k g s = s\<lparr>fibs := (fibs s)(k := map_option g (fibs s k))\<rparr>"

definition on_thread :: "pid_t \<Rightarrow> (thread \<Rightarrow> thread) \<Rightarrow> fine \<Rightarrow> fine" where
  "on_thread p g s = s\<lparr>thrs := (thrs s)(p := map_option g (thrs s p))\<rparr>"

definition go :: "pid_t \<Rightarrow> kpc \<Rightarrow> fine \<Rightarrow> fine" where
  "go p c s = s\<lparr>kpc_of := (kpc_of s)(p := c)\<rparr>"

section \<open>Single accesses\<close>

definition set_state :: "c_int \<Rightarrow> fiber \<Rightarrow> fiber" where
  "set_state v f = f\<lparr>f_info := (f_info f)\<lparr>info_state := v\<rparr>\<rparr>"

definition count_activation :: "fiber \<Rightarrow> fiber" where
  "count_activation f =
     f\<lparr>f_info := (f_info f)\<lparr>info_successful_activations := info_successful_activations (f_info f) + 1\<rparr>\<rparr>"

definition stamp_activation :: "c_ulong \<Rightarrow> fiber \<Rightarrow> fiber" where
  "stamp_activation u f = f\<lparr>f_info := (f_info f)\<lparr>info_last_activation_time := u\<rparr>\<rparr>"

definition store_regs :: "task \<Rightarrow> fiber \<Rightarrow> fiber" where
  "store_regs tsk f = f\<lparr>f_context := (f_context f)\<lparr>ctx_regs := tsk_regs tsk\<rparr>\<rparr>"

definition store_fpu :: "task \<Rightarrow> fiber \<Rightarrow> fiber" where
  "store_fpu tsk f = f\<lparr>f_context := (f_context f)\<lparr>ctx_fpu := tsk_fx tsk\<rparr>\<rparr>"

text \<open>The fiber that \<open>generate_fiber\<close> fills before it adds it to the table.\<close>

definition fiber_with :: "pid_t \<Rightarrow> pid_t \<Rightarrow> task \<Rightarrow> fiber" where
  "fiber_with fid p tsk =
     \<lparr>f_fid = fid, f_flock = False, f_stack_base = 0, f_stack_limit = 0, f_guaranteed_stack_bytes = 0,
      f_context = PREPARE_CONTEXT tsk, f_fls = PREPARE_FLS,
      f_info = PREPARE_INFO fid \<lparr>t_pid = p, t_current_fid = NO_FIBERS\<rparr> tsk\<rparr>"

definition locked :: "fine \<Rightarrow> pid_t \<Rightarrow> bool" where
  "locked s k = (case fibs s k of None \<Rightarrow> False | Some f \<Rightarrow> f_flock f)"

definition state_at :: "fine \<Rightarrow> pid_t \<Rightarrow> c_int" where
  "state_at s k = (case fibs s k of None \<Rightarrow> 0 | Some f \<Rightarrow> info_state (f_info f))"

definition context_at :: "fine \<Rightarrow> pid_t \<Rightarrow> context_t option" where
  "context_at s k = map_option f_context (fibs s k)"

definition current_at :: "fine \<Rightarrow> pid_t \<Rightarrow> pid_t option" where
  "current_at s p = map_option t_current_fid (thrs s p)"

definition fls_at :: "fine \<Rightarrow> pid_t \<Rightarrow> fls_t option" where
  "fls_at s k = map_option f_fls (fibs s k)"

definition slot_used :: "fine \<Rightarrow> pid_t \<Rightarrow> nat \<Rightarrow> bool" where
  "slot_used s k i = (case fls_at s k of None \<Rightarrow> False | Some x \<Rightarrow> fls_bmp x i)"

definition change_slot_bit :: "nat \<Rightarrow> fiber \<Rightarrow> fiber" where
  "change_slot_bit i f = f\<lparr>f_fls := (f_fls f)\<lparr>fls_bmp := change_bit i (fls_bmp (f_fls f))\<rparr>\<rparr>"

definition write_slot :: "nat \<Rightarrow> c_long \<Rightarrow> fiber \<Rightarrow> fiber" where
  "write_slot i v f = f\<lparr>f_fls := (f_fls f)\<lparr>fls_data := (fls_data (f_fls f))(i := v)\<rparr>\<rparr>"

section \<open>The handlers\<close>

text \<open>The next access of a task that is inside a handler.\<close>

fun kstep :: "pid_t \<Rightarrow> kpc \<Rightarrow> fine \<Rightarrow> fine" where
  "kstep p (User r) s = s"
| "kstep p (Sw_try nxt) s =
     (if locked s nxt then go p (Sw_fail nxt) s else go p (Sw_state nxt) (on_fiber nxt spin_trylock s))"
| "kstep p (Sw_state nxt) s = (if state_at s nxt \<noteq> 0 then go p (Sw_fail nxt) s else go p (Sw_old nxt) s)"
| "kstep p (Sw_fail nxt) s = go p (User (- EAGAIN)) (on_fiber nxt fail_activation s)"
| "kstep p (Sw_old nxt) s =
     (case current_at s p of
        None \<Rightarrow> s
      | Some old \<Rightarrow> (case fibs s old of None \<Rightarrow> go p (User (- ESRCH)) s | Some _ \<Rightarrow> go p (Act_state old nxt) s))"
| "kstep p (Act_state old nxt) s = go p (Act_count old nxt) (on_fiber nxt (set_state p) s)"
| "kstep p (Act_count old nxt) s = go p (Act_time old nxt) (on_fiber nxt count_activation s)"
| "kstep p (Act_time old nxt) s =
     go p (Act_thread old nxt) (on_fiber nxt (stamp_activation (tsk_utime (task_of s p))) s)"
| "kstep p (Act_thread old nxt) s = go p (Save_regs old nxt) (on_thread p (\<lambda>t. t\<lparr>t_current_fid := nxt\<rparr>) s)"
| "kstep p (Save_regs old nxt) s = go p (Save_fpu old nxt) (on_fiber old (store_regs (task_of s p)) s)"
| "kstep p (Save_fpu old nxt) s =
     go p (Account old nxt) ((on_fiber old (store_fpu (task_of s p)) s)
       \<lparr>left_at := (left_at s)(old := \<lparr>ctx_regs = tsk_regs (task_of s p), ctx_fpu = tsk_fx (task_of s p)\<rparr>)\<rparr>)"
| "kstep p (Account old nxt) s = go p (Clear old nxt) (on_fiber old (account_time (tsk_utime (task_of s p))) s)"
| "kstep p (Clear old nxt) s = go p (Unlock old nxt) (on_fiber old (set_state 0) s)"
| "kstep p (Unlock old nxt) s = go p (Rest_regs nxt) (on_fiber old spin_unlock s)"
| "kstep p (Rest_regs nxt) s =
     (case context_at s nxt of
        None \<Rightarrow> s
      | Some c \<Rightarrow> go p (Rest_fpu nxt) (s\<lparr>task_of := (task_of s)(p := (task_of s p)\<lparr>tsk_regs := ctx_regs c\<rparr>)\<rparr>))"
| "kstep p (Rest_fpu nxt) s =
     (case context_at s nxt of
        None \<Rightarrow> s
      | Some c \<Rightarrow> go p (User SUCCESS) (s\<lparr>task_of := (task_of s)(p := (task_of s p)\<lparr>tsk_fx := ctx_fpu c\<rparr>)\<rparr>))"
| "kstep p (Cr_count sb ss ep arg) s =
     go p (Cr_add (fid_count s + 1) sb ss ep arg) (s\<lparr>fid_count := fid_count s + 1\<rparr>)"
| "kstep p (Cr_add fid sb ss ep arg) s =
     (let f = fiber_with fid p (task_of s p)
      in go p (Cr_stack fid sb ss ep arg) (s\<lparr>fibs := (fibs s)(fid \<mapsto> f), left_at := (left_at s)(fid := f_context f)\<rparr>))"
| "kstep p (Cr_stack fid sb ss ep arg) s = go p (Cr_context fid sb ss ep arg) (on_fiber fid (ALLOC_STACK sb ss) s)"
| "kstep p (Cr_context fid sb ss ep arg) s =
     (let s1 = on_fiber fid (ALLOC_CONTEXT ep arg) s
      in go p (User (scast fid)) (s1\<lparr>known := (known s)(fid := True),
           left_at := (case context_at s1 fid of None \<Rightarrow> left_at s | Some c \<Rightarrow> (left_at s)(fid := c))\<rparr>))"
| "kstep p Cv_thread s =
     (case thrs s p of
        Some t \<Rightarrow> go p (User (- EEXIST)) s
      | None \<Rightarrow> go p Cv_count (s\<lparr>thrs := (thrs s)(p \<mapsto> \<lparr>t_pid = p, t_current_fid = NO_FIBERS\<rparr>)\<rparr>))"
| "kstep p Cv_count s = go p (Cv_add (fid_count s + 1)) (s\<lparr>fid_count := fid_count s + 1\<rparr>)"
| "kstep p (Cv_add fid) s =
     (let f = fiber_with fid p (task_of s p)
      in go p (Cv_try fid) (s\<lparr>fibs := (fibs s)(fid \<mapsto> f), left_at := (left_at s)(fid := f_context f)\<rparr>))"
| "kstep p (Cv_try fid) s =
     (if locked s fid then go p (Cv_fail fid) s else go p (Cv_state fid) (on_fiber fid spin_trylock s))"
| "kstep p (Cv_state fid) s = (if state_at s fid \<noteq> 0 then go p (Cv_fail fid) s else go p (Cv_act_state fid) s)"
| "kstep p (Cv_fail fid) s = go p (User (- EAGAIN)) (on_fiber fid fail_activation s)"
| "kstep p (Cv_act_state fid) s = go p (Cv_act_count fid) (on_fiber fid (set_state p) s)"
| "kstep p (Cv_act_count fid) s = go p (Cv_act_time fid) (on_fiber fid count_activation s)"
| "kstep p (Cv_act_time fid) s = go p (Cv_act_thread fid) (on_fiber fid (stamp_activation (tsk_utime (task_of s p))) s)"
| "kstep p (Cv_act_thread fid) s =
     go p (User (scast fid)) ((on_thread p (\<lambda>t. t\<lparr>t_current_fid := fid\<rparr>) s)\<lparr>known := (known s)(fid := True)\<rparr>)"
| "kstep p (Fa_scan k) s =
     (case fls_at s k of
        None \<Rightarrow> s
      | Some x \<Rightarrow>
        (let idx = find_first_zero_bit (fls_bmp x) FLS_MAX_SIZE
         in if idx < FLS_MAX_SIZE then go p (Fa_set k idx) s else go p (User (- EINVAL)) s))"
| "kstep p (Fa_set k idx) s = go p (User (of_nat idx)) (on_fiber k (change_slot_bit idx) s)"
| "kstep p (Fg_test k i) s = (if \<not> slot_used s k (unat i) then go p (User (- EACCES)) s else go p (Fg_read k i) s)"
| "kstep p (Fg_read k i) s = (case fls_at s k of None \<Rightarrow> s | Some x \<Rightarrow> go p (User (fls_data x (unat i))) s)"
| "kstep p (Ff_test k i) s = (if \<not> slot_used s k (unat i) then go p (User (- EACCES)) s else go p (Ff_clear k i) s)"
| "kstep p (Ff_clear k i) s = go p (User SUCCESS) (on_fiber k (change_slot_bit (unat i)) s)"
| "kstep p (Fs_test k i v) s = (if \<not> slot_used s k (unat i) then go p (User (- EACCES)) s else go p (Fs_write k i v) s)"
| "kstep p (Fs_write k i v) s = go p (User i) (on_fiber k (write_slot (unat i) v) s)"

text \<open>
  What a task does in user mode: compute, or call a handler. A call ends at once when a lookup or
  the check of an index fails; a storage handler looks for the fiber that the thread runs.
\<close>

datatype act = Compute task | Call call | Step

definition with_fiber :: "pid_t \<Rightarrow> (pid_t \<Rightarrow> kpc) \<Rightarrow> fine \<Rightarrow> fine" where
  "with_fiber p c s =
     (case current_at s p of
        None \<Rightarrow> go p (User (- ESRCH)) s
      | Some k \<Rightarrow> (case fibs s k of None \<Rightarrow> go p (User (- ESRCH)) s | Some _ \<Rightarrow> go p (c k) s))"

fun begin_call :: "pid_t \<Rightarrow> act \<Rightarrow> fine \<Rightarrow> fine" where
  "begin_call p (Compute tsk) s = s\<lparr>task_of := (task_of s)(p := tsk)\<rparr>"
| "begin_call p (Call (Switch nxt)) s =
     (if thrs s p = None \<or> fibs s nxt = None then go p (User (- ESRCH)) s else go p (Sw_try nxt) s)"
| "begin_call p (Call (Create sb ss ep arg)) s =
     (if thrs s p = None then go p (User (- ESRCH)) s else go p (Cr_count sb ss ep arg) s)"
| "begin_call p (Call Convert) s = go p Cv_thread s"
| "begin_call p (Call Fls_Alloc) s = with_fiber p Fa_scan s"
| "begin_call p (Call (Fls_Get i)) s =
     (if bad_index i then go p (User (- ESRCH)) s else with_fiber p (\<lambda>k. Fg_test k i) s)"
| "begin_call p (Call (Fls_Free i)) s =
     (if bad_index i then go p (User (- EINVAL)) s else with_fiber p (\<lambda>k. Ff_test k i) s)"
| "begin_call p (Call (Fls_Set i v)) s =
     (if bad_index i then go p (User (- EINVAL)) s else with_fiber p (\<lambda>k. Fs_test k i v) s)"
| "begin_call p (Call Release) s = s"
| "begin_call p Step s = s"

definition fine_step :: "pid_t \<Rightarrow> act \<Rightarrow> fine \<Rightarrow> fine" where
  "fine_step p a s = (case kpc_of s p of User r \<Rightarrow> begin_call p a s | c \<Rightarrow> kstep p c s)"

end
