(* ===== verification/Fiber_Fine_Inv.thy ===== *)
theory Fiber_Fine_Inv
  imports Fiber_Fine
begin

text \<open>
  The invariant of the interleaved handlers. It is stated for processes that switch only to
  fibers whose id a call has returned (\<open>fine_reach\<close>); \<open>Fiber_Fine_Props\<close> shows what happens
  otherwise. Its parts: which locks a task holds at each point of a handler, what its thread
  records as the current fiber, the values of the \<open>state\<close> fields, the ids that are not yet
  returned, and where a context equals the registers with which the fiber was left.
\<close>

section \<open>Runs\<close>

definition fine_init :: "(pid_t \<Rightarrow> task) \<Rightarrow> (pid_t \<Rightarrow> context_t) \<Rightarrow> fine" where
  "fine_init tsk l = \<lparr>fibs = Map.empty, thrs = Map.empty, fid_count = NO_FIBERS, task_of = tsk,
     kpc_of = (\<lambda>_. User 0), left_at = l, known = (\<lambda>_. False)\<rparr>"

fun allowed :: "act \<Rightarrow> fine \<Rightarrow> bool" where
  "allowed (Call (Switch nxt)) s = known s nxt"
| "allowed _ s = True"

inductive fine_reach :: "nat \<Rightarrow> fine \<Rightarrow> bool" where
  start: "fine_reach 0 (fine_init tsk l)"
| step: "fine_reach n s \<Longrightarrow> p \<noteq> 0 \<Longrightarrow> allowed a s \<Longrightarrow> fine_reach (Suc n) (fine_step p a s)"

section \<open>What a program point tells\<close>

text \<open>The locks a task holds when its thread records \<open>c\<close> as the current fiber.\<close>

fun held :: "pid_t option \<Rightarrow> kpc \<Rightarrow> pid_t set" where
  "held c (Sw_state nxt) = insert nxt (set_option c)"
| "held c (Sw_old nxt) = insert nxt (set_option c)"
| "held c (Act_state old nxt) = {old, nxt}"
| "held c (Act_count old nxt) = {old, nxt}"
| "held c (Act_time old nxt) = {old, nxt}"
| "held c (Act_thread old nxt) = {old, nxt}"
| "held c (Save_regs old nxt) = {old, nxt}"
| "held c (Save_fpu old nxt) = {old, nxt}"
| "held c (Account old nxt) = {old, nxt}"
| "held c (Clear old nxt) = {old, nxt}"
| "held c (Unlock old nxt) = {old, nxt}"
| "held c (Rest_regs nxt) = {nxt}"
| "held c (Rest_fpu nxt) = {nxt}"
| "held c Cv_count = {}"
| "held c (Cv_add f) = {}"
| "held c (Cv_try f) = {}"
| "held c (Cv_fail f) = {}"
| "held c (Cv_state f) = {f}"
| "held c (Cv_act_state f) = {f}"
| "held c (Cv_act_count f) = {f}"
| "held c (Cv_act_time f) = {f}"
| "held c (Cv_act_thread f) = {f}"
| "held c _ = set_option c"

text \<open>The values of the \<open>state\<close> fields of the held fibers.\<close>

fun expect :: "pid_t \<Rightarrow> pid_t option \<Rightarrow> kpc \<Rightarrow> pid_t \<rightharpoonup> c_int" where
  "expect p c (Sw_state nxt) = (\<lambda>k. if k = nxt then Some 0 else if c = Some k then Some p else None)"
| "expect p c (Sw_old nxt) = (\<lambda>k. if k = nxt then Some 0 else if c = Some k then Some p else None)"
| "expect p c (Act_state old nxt) = [old \<mapsto> p, nxt \<mapsto> 0]"
| "expect p c (Act_count old nxt) = [old \<mapsto> p, nxt \<mapsto> p]"
| "expect p c (Act_time old nxt) = [old \<mapsto> p, nxt \<mapsto> p]"
| "expect p c (Act_thread old nxt) = [old \<mapsto> p, nxt \<mapsto> p]"
| "expect p c (Save_regs old nxt) = [old \<mapsto> p, nxt \<mapsto> p]"
| "expect p c (Save_fpu old nxt) = [old \<mapsto> p, nxt \<mapsto> p]"
| "expect p c (Account old nxt) = [old \<mapsto> p, nxt \<mapsto> p]"
| "expect p c (Clear old nxt) = [old \<mapsto> p, nxt \<mapsto> p]"
| "expect p c (Unlock old nxt) = [old \<mapsto> 0, nxt \<mapsto> p]"
| "expect p c (Rest_regs nxt) = [nxt \<mapsto> p]"
| "expect p c (Rest_fpu nxt) = [nxt \<mapsto> p]"
| "expect p c Cv_count = Map.empty"
| "expect p c (Cv_add f) = Map.empty"
| "expect p c (Cv_try f) = Map.empty"
| "expect p c (Cv_fail f) = Map.empty"
| "expect p c (Cv_state f) = [f \<mapsto> 0]"
| "expect p c (Cv_act_state f) = [f \<mapsto> 0]"
| "expect p c (Cv_act_count f) = [f \<mapsto> p]"
| "expect p c (Cv_act_time f) = [f \<mapsto> p]"
| "expect p c (Cv_act_thread f) = [f \<mapsto> p]"
| "expect p c _ = (\<lambda>k. if c = Some k then Some p else None)"

text \<open>What the thread of the task records, that the two fibers of a switch differ, and that a new
  fiber is not the one its creator runs.\<close>

fun current_ok :: "pid_t option \<Rightarrow> kpc \<Rightarrow> bool" where
  "current_ok c (Sw_try nxt) \<longleftrightarrow> c \<noteq> None"
| "current_ok c (Sw_fail nxt) \<longleftrightarrow> c \<noteq> None"
| "current_ok c (Sw_state nxt) \<longleftrightarrow> c \<noteq> None \<and> c \<noteq> Some nxt"
| "current_ok c (Sw_old nxt) \<longleftrightarrow> c \<noteq> None \<and> c \<noteq> Some nxt"
| "current_ok c (Act_state old nxt) \<longleftrightarrow> c = Some old \<and> old \<noteq> nxt"
| "current_ok c (Act_count old nxt) \<longleftrightarrow> c = Some old \<and> old \<noteq> nxt"
| "current_ok c (Act_time old nxt) \<longleftrightarrow> c = Some old \<and> old \<noteq> nxt"
| "current_ok c (Act_thread old nxt) \<longleftrightarrow> c = Some old \<and> old \<noteq> nxt"
| "current_ok c (Save_regs old nxt) \<longleftrightarrow> c = Some nxt \<and> old \<noteq> nxt"
| "current_ok c (Save_fpu old nxt) \<longleftrightarrow> c = Some nxt \<and> old \<noteq> nxt"
| "current_ok c (Account old nxt) \<longleftrightarrow> c = Some nxt \<and> old \<noteq> nxt"
| "current_ok c (Clear old nxt) \<longleftrightarrow> c = Some nxt \<and> old \<noteq> nxt"
| "current_ok c (Unlock old nxt) \<longleftrightarrow> c = Some nxt \<and> old \<noteq> nxt"
| "current_ok c (Rest_regs nxt) \<longleftrightarrow> c = Some nxt"
| "current_ok c (Rest_fpu nxt) \<longleftrightarrow> c = Some nxt"
| "current_ok c (Cr_count sb ss ep arg) \<longleftrightarrow> c \<noteq> None"
| "current_ok c (Cr_add f sb ss ep arg) \<longleftrightarrow> c \<noteq> None \<and> c \<noteq> Some f"
| "current_ok c (Cr_stack f sb ss ep arg) \<longleftrightarrow> c \<noteq> None \<and> c \<noteq> Some f"
| "current_ok c (Cr_context f sb ss ep arg) \<longleftrightarrow> c \<noteq> None \<and> c \<noteq> Some f"
| "current_ok c Cv_count \<longleftrightarrow> c \<noteq> None"
| "current_ok c (Cv_add f) \<longleftrightarrow> c \<noteq> None"
| "current_ok c (Cv_try f) \<longleftrightarrow> c \<noteq> None"
| "current_ok c (Cv_state f) \<longleftrightarrow> c \<noteq> None"
| "current_ok c (Cv_fail f) \<longleftrightarrow> False"
| "current_ok c (Cv_act_state f) \<longleftrightarrow> c \<noteq> None"
| "current_ok c (Cv_act_count f) \<longleftrightarrow> c \<noteq> None"
| "current_ok c (Cv_act_time f) \<longleftrightarrow> c \<noteq> None"
| "current_ok c (Cv_act_thread f) \<longleftrightarrow> c \<noteq> None"
| "current_ok c (Fa_scan k) \<longleftrightarrow> c = Some k"
| "current_ok c (Fa_set k idx) \<longleftrightarrow> c = Some k"
| "current_ok c (Fg_test k i) \<longleftrightarrow> c = Some k"
| "current_ok c (Fg_read k i) \<longleftrightarrow> c = Some k"
| "current_ok c (Ff_test k i) \<longleftrightarrow> c = Some k"
| "current_ok c (Ff_clear k i) \<longleftrightarrow> c = Some k"
| "current_ok c (Fs_test k i v) \<longleftrightarrow> c = Some k"
| "current_ok c (Fs_write k i v) \<longleftrightarrow> c = Some k"
| "current_ok c _ \<longleftrightarrow> True"

text \<open>The id that a task has taken from the counter and not yet returned, and whether it is in the table.\<close>

fun pending :: "kpc \<Rightarrow> (pid_t \<times> bool) option" where
  "pending (Cr_add f sb ss ep arg) = Some (f, False)"
| "pending (Cr_stack f sb ss ep arg) = Some (f, True)"
| "pending (Cr_context f sb ss ep arg) = Some (f, True)"
| "pending (Cv_add f) = Some (f, False)"
| "pending (Cv_try f) = Some (f, True)"
| "pending (Cv_state f) = Some (f, True)"
| "pending (Cv_fail f) = Some (f, True)"
| "pending (Cv_act_state f) = Some (f, True)"
| "pending (Cv_act_count f) = Some (f, True)"
| "pending (Cv_act_time f) = Some (f, True)"
| "pending (Cv_act_thread f) = Some (f, True)"
| "pending _ = None"

text \<open>The fiber a call wants to enter, and the fiber of which only the registers are saved.\<close>

fun target :: "kpc \<Rightarrow> pid_t option" where
  "target (Sw_try nxt) = Some nxt"
| "target (Sw_state nxt) = Some nxt"
| "target (Sw_fail nxt) = Some nxt"
| "target (Sw_old nxt) = Some nxt"
| "target _ = None"

fun torn :: "kpc \<Rightarrow> pid_t option" where
  "torn (Save_fpu old nxt) = Some old"
| "torn _ = None"

section \<open>The invariant\<close>

definition holds_of :: "fine \<Rightarrow> pid_t \<Rightarrow> pid_t set" where
  "holds_of s p = held (current_at s p) (kpc_of s p)"

definition owners :: "fine \<Rightarrow> bool" where
  "owners s \<longleftrightarrow> exclusive (locked s) (holds_of s) \<and> (\<forall>p. current_ok (current_at s p) (kpc_of s p))"

definition states :: "fine \<Rightarrow> bool" where
  "states s \<longleftrightarrow> (\<forall>k. \<not> locked s k \<longrightarrow> state_at s k = 0) \<and>
     (\<forall>p k v. expect p (current_at s p) (kpc_of s p) k = Some v \<longrightarrow> state_at s k = v)"

definition ids :: "nat \<Rightarrow> fine \<Rightarrow> bool" where
  "ids n s \<longleftrightarrow> unat (fid_count s + 1) \<le> n \<and>
     (\<forall>k. known s k \<longrightarrow> context_at s k \<noteq> None) \<and>
     (\<forall>k. context_at s k \<noteq> None \<longrightarrow> unat k < unat (fid_count s + 1)) \<and>
     (\<forall>p k b. pending (kpc_of s p) = Some (k, b) \<longrightarrow>
        \<not> known s k \<and> unat k < unat (fid_count s + 1) \<and> (context_at s k \<noteq> None \<longleftrightarrow> b)) \<and>
     (\<forall>p q k b c. pending (kpc_of s p) = Some (k, b) \<and> pending (kpc_of s q) = Some (k, c) \<longrightarrow> p = q) \<and>
     (\<forall>p k. k \<in> holds_of s p \<longrightarrow> known s k \<or> (\<exists>b. pending (kpc_of s p) = Some (k, b))) \<and>
     (\<forall>p k. target (kpc_of s p) = Some k \<longrightarrow> known s k)"

definition contexts_left :: "fine \<Rightarrow> bool" where
  "contexts_left s \<longleftrightarrow>
     (\<forall>k c. context_at s k = Some c \<and> (\<forall>p. torn (kpc_of s p) \<noteq> Some k) \<longrightarrow> left_at s k = c) \<and>
     (\<forall>p old nxt c. kpc_of s p = Save_fpu old nxt \<and> context_at s old = Some c \<longrightarrow> ctx_regs c = tsk_regs (task_of s p)) \<and>
     (\<forall>p nxt. kpc_of s p = Rest_fpu nxt \<longrightarrow> tsk_regs (task_of s p) = ctx_regs (left_at s nxt))"

definition fine_inv :: "nat \<Rightarrow> fine \<Rightarrow> bool" where
  "fine_inv n s \<longleftrightarrow> owners s \<and> states s \<and> ids n s \<and> contexts_left s"

section \<open>The effect of an access\<close>

lemma go_views [simp]:
  "locked (go p c s) = locked s" "state_at (go p c s) = state_at s" "context_at (go p c s) = context_at s"
  "current_at (go p c s) = current_at s" "known (go p c s) = known s" "left_at (go p c s) = left_at s"
  "task_of (go p c s) = task_of s" "fid_count (go p c s) = fid_count s" "kpc_of (go p c s) = (kpc_of s)(p := c)"
  by (simp_all add: go_def locked_def state_at_def context_at_def current_at_def fun_eq_iff)

lemma on_fiber_views [simp]:
  "current_at (on_fiber k g s) = current_at s" "known (on_fiber k g s) = known s" "left_at (on_fiber k g s) = left_at s"
  "task_of (on_fiber k g s) = task_of s" "fid_count (on_fiber k g s) = fid_count s" "kpc_of (on_fiber k g s) = kpc_of s"
  by (simp_all add: on_fiber_def current_at_def fun_eq_iff)

lemma on_fiber_locked:
  "locked (on_fiber k g s) = (locked s)(k := (case fibs s k of None \<Rightarrow> False | Some f \<Rightarrow> f_flock (g f)))"
  "state_at (on_fiber k g s) = (state_at s)(k := (case fibs s k of None \<Rightarrow> 0 | Some f \<Rightarrow> info_state (f_info (g f))))"
  "context_at (on_fiber k g s) = (context_at s)(k := map_option (\<lambda>f. f_context (g f)) (fibs s k))"
  by (auto simp: on_fiber_def locked_def state_at_def context_at_def fun_eq_iff option.map_comp comp_def split: option.splits)

lemma on_fiber_same:
  "(\<And>f. f_flock (g f) = f_flock f) \<Longrightarrow> locked (on_fiber k g s) = locked s"
  "(\<And>f. info_state (f_info (g f)) = info_state (f_info f)) \<Longrightarrow> state_at (on_fiber k g s) = state_at s"
  "(\<And>f. f_context (g f) = f_context f) \<Longrightarrow> context_at (on_fiber k g s) = context_at s"
  by (auto simp: on_fiber_def locked_def state_at_def context_at_def fun_eq_iff option.map_comp comp_def split: option.splits)

lemma fails_silently [simp]:
  "locked (on_fiber k fail_activation s) = locked s" "state_at (on_fiber k fail_activation s) = state_at s"
  "context_at (on_fiber k fail_activation s) = context_at s"
  by (simp_all add: on_fiber_same fail_activation_def)

lemma statistics_silent [simp]:
  "locked (on_fiber k count_activation s) = locked s" "state_at (on_fiber k count_activation s) = state_at s"
  "context_at (on_fiber k count_activation s) = context_at s"
  "locked (on_fiber k (stamp_activation u) s) = locked s" "state_at (on_fiber k (stamp_activation u) s) = state_at s"
  "context_at (on_fiber k (stamp_activation u) s) = context_at s"
  "locked (on_fiber k (account_time u) s) = locked s" "state_at (on_fiber k (account_time u) s) = state_at s"
  "context_at (on_fiber k (account_time u) s) = context_at s"
  "locked (on_fiber k (ALLOC_STACK sb ss) s) = locked s" "state_at (on_fiber k (ALLOC_STACK sb ss) s) = state_at s"
  "context_at (on_fiber k (ALLOC_STACK sb ss) s) = context_at s"
  "locked (on_fiber k (change_slot_bit i) s) = locked s" "state_at (on_fiber k (change_slot_bit i) s) = state_at s"
  "context_at (on_fiber k (change_slot_bit i) s) = context_at s"
  "locked (on_fiber k (write_slot i v) s) = locked s" "state_at (on_fiber k (write_slot i v) s) = state_at s"
  "context_at (on_fiber k (write_slot i v) s) = context_at s"
  by (simp_all add: on_fiber_same count_activation_def stamp_activation_def account_time_def ALLOC_STACK_def
      change_slot_bit_def write_slot_def)

lemma lock_views [simp]:
  "state_at (on_fiber k spin_trylock s) = state_at s" "context_at (on_fiber k spin_trylock s) = context_at s"
  "state_at (on_fiber k spin_unlock s) = state_at s" "context_at (on_fiber k spin_unlock s) = context_at s"
  by (simp_all add: on_fiber_same spin_trylock_def spin_unlock_def)

lemma unlock_locked [simp]: "locked (on_fiber k spin_unlock s) = (locked s)(k := False)"
  by (simp add: on_fiber_locked spin_unlock_def split: option.split)

lemma trylock_locked [simp]:
  "context_at s k \<noteq> None \<Longrightarrow> locked (on_fiber k spin_trylock s) = (locked s)(k := True)"
  by (auto simp: on_fiber_locked spin_trylock_def context_at_def)

lemma state_views [simp]:
  "locked (on_fiber k (set_state v) s) = locked s" "context_at (on_fiber k (set_state v) s) = context_at s"
  by (simp_all add: on_fiber_same set_state_def)

lemma set_state_at [simp]:
  "context_at s k \<noteq> None \<Longrightarrow> state_at (on_fiber k (set_state v) s) = (state_at s)(k := v)"
  by (auto simp: on_fiber_locked set_state_def context_at_def)

lemma context_views [simp]:
  "locked (on_fiber k (store_regs t) s) = locked s" "state_at (on_fiber k (store_regs t) s) = state_at s"
  "locked (on_fiber k (store_fpu t) s) = locked s" "state_at (on_fiber k (store_fpu t) s) = state_at s"
  "locked (on_fiber k (ALLOC_CONTEXT ep arg) s) = locked s" "state_at (on_fiber k (ALLOC_CONTEXT ep arg) s) = state_at s"
  by (simp_all add: on_fiber_same store_regs_def store_fpu_def ALLOC_CONTEXT_def Let_def)

lemma store_context_at [simp]:
  "context_at (on_fiber k (store_regs t) s) =
     (context_at s)(k := map_option (\<lambda>c. c\<lparr>ctx_regs := tsk_regs t\<rparr>) (context_at s k))"
  "context_at (on_fiber k (store_fpu t) s) =
     (context_at s)(k := map_option (\<lambda>c. c\<lparr>ctx_fpu := tsk_fx t\<rparr>) (context_at s k))"
  by (simp_all add: on_fiber_locked store_regs_def store_fpu_def context_at_def option.map_comp comp_def)

lemma context_alloc:
  "context_at (on_fiber k (ALLOC_CONTEXT ep arg) s) j = None \<longleftrightarrow> context_at s j = None"
  "j \<noteq> k \<Longrightarrow> context_at (on_fiber k (ALLOC_CONTEXT ep arg) s) j = context_at s j"
  by (auto simp: on_fiber_locked context_at_def)

lemma current_views [simp]:
  "current_at (on_thread p (\<lambda>t. t\<lparr>t_current_fid := k\<rparr>) s) = (current_at s)(p := map_option (\<lambda>_. k) (current_at s p))"
  "locked (on_thread p g s) = locked s" "state_at (on_thread p g s) = state_at s" "context_at (on_thread p g s) = context_at s"
  "known (on_thread p g s) = known s" "left_at (on_thread p g s) = left_at s" "task_of (on_thread p g s) = task_of s"
  "fid_count (on_thread p g s) = fid_count s" "kpc_of (on_thread p g s) = kpc_of s"
  by (auto simp: on_thread_def current_at_def locked_def state_at_def context_at_def fun_eq_iff option.map_comp comp_def)

lemma added_views [simp]:
  "f_flock (fiber_with k p t) = False" "info_state (f_info (fiber_with k p t)) = 0"
  by (simp_all add: fiber_with_def PREPARE_INFO_def)

text \<open>Stores to the fields of the record that are not a fiber.\<close>

lemma field_views [simp]:
  "locked (s\<lparr>left_at := l\<rparr>) = locked s" "state_at (s\<lparr>left_at := l\<rparr>) = state_at s" "context_at (s\<lparr>left_at := l\<rparr>) = context_at s"
  "current_at (s\<lparr>left_at := l\<rparr>) = current_at s"
  "locked (s\<lparr>task_of := t\<rparr>) = locked s" "state_at (s\<lparr>task_of := t\<rparr>) = state_at s" "context_at (s\<lparr>task_of := t\<rparr>) = context_at s"
  "current_at (s\<lparr>task_of := t\<rparr>) = current_at s"
  "locked (s\<lparr>fid_count := n\<rparr>) = locked s" "state_at (s\<lparr>fid_count := n\<rparr>) = state_at s" "context_at (s\<lparr>fid_count := n\<rparr>) = context_at s"
  "current_at (s\<lparr>fid_count := n\<rparr>) = current_at s"
  "locked (s\<lparr>known := b\<rparr>) = locked s" "state_at (s\<lparr>known := b\<rparr>) = state_at s" "context_at (s\<lparr>known := b\<rparr>) = context_at s"
  "current_at (s\<lparr>known := b\<rparr>) = current_at s"
  "locked (s\<lparr>thrs := m\<rparr>) = locked s" "state_at (s\<lparr>thrs := m\<rparr>) = state_at s" "context_at (s\<lparr>thrs := m\<rparr>) = context_at s"
  "current_at (s\<lparr>thrs := (thrs s)(p \<mapsto> th)\<rparr>) = (current_at s)(p \<mapsto> t_current_fid th)"
  "current_at (s\<lparr>fibs := h\<rparr>) = current_at s"
  "locked (s\<lparr>fibs := (fibs s)(k \<mapsto> f)\<rparr>) = (locked s)(k := f_flock f)"
  "state_at (s\<lparr>fibs := (fibs s)(k \<mapsto> f)\<rparr>) = (state_at s)(k := info_state (f_info f))"
  "context_at (s\<lparr>fibs := (fibs s)(k \<mapsto> f)\<rparr>) = (context_at s)(k \<mapsto> f_context f)"
  by (auto simp: locked_def state_at_def context_at_def current_at_def fun_eq_iff)

lemma fls_context: "fls_at s k = None \<longleftrightarrow> context_at s k = None"
  by (simp add: fls_at_def context_at_def)

lemma fibs_context: "fibs s k = None \<longleftrightarrow> context_at s k = None"
  by (simp add: context_at_def)

lemma thrs_current: "thrs s p = None \<longleftrightarrow> current_at s p = None"
  by (simp add: current_at_def)

section \<open>Every access keeps the owners\<close>

lemma expect_held: "expect p c pc k = Some v \<Longrightarrow> k \<in> held c pc"
  by (cases pc) (auto split: if_splits)

lemma torn_held: "torn pc = Some k \<Longrightarrow> k \<in> held c pc"
  by (cases pc) auto

lemma owners_change:
  assumes own: "owners s" and pc: "kpc_of s' = (kpc_of s)(p := c)" and cur: "\<And>q. q \<noteq> p \<Longrightarrow> current_at s' q = current_at s q"
    and free: "\<And>k. k \<in> held (current_at s' p) c \<Longrightarrow> k \<notin> holds_of s p \<Longrightarrow> \<not> locked s k"
    and lock: "\<And>k. locked s' k \<longleftrightarrow> k \<in> held (current_at s' p) c \<or> k \<notin> holds_of s p \<and> locked s k"
    and ok: "current_ok (current_at s' p) c"
  shows "owners s'"
proof -
  have "exclusive (locked s') (holds_of s')"
  proof (rule exclusive_change)
    show "exclusive (locked s) (holds_of s)" using own by (simp add: owners_def)
    show "holds_of s' = (holds_of s)(p := held (current_at s' p) c)" using pc cur by (auto simp: holds_of_def fun_eq_iff)
  qed (use free lock in blast)+
  then show ?thesis using own pc cur ok by (auto simp: owners_def)
qed

lemma locked_present: "locked s k \<Longrightarrow> context_at s k \<noteq> None"
  by (auto simp: locked_def context_at_def split: option.splits)

lemma fine_invD:
  assumes "fine_inv n s"
  shows "owners s" "states s" "ids n s" "contexts_left s" "exclusive (locked s) (holds_of s)"
    "current_ok (current_at s p) (kpc_of s p)"
  using assms by (simp_all add: fine_inv_def owners_def)

lemma held_locked:
  assumes "fine_inv n s" "k \<in> held (current_at s p) (kpc_of s p)"
  shows "locked s k"
proof -
  have "k \<in> holds_of s p" using assms(2) by (simp only: holds_of_def)
  then show ?thesis by (rule exclusive_held [OF fine_invD(5) [OF assms(1)]])
qed

lemma held_present:
  assumes "fine_inv n s" "k \<in> held (current_at s p) (kpc_of s p)"
  shows "context_at s k \<noteq> None"
  by (rule locked_present [OF held_locked [OF assms]])

lemma idsD:
  assumes "ids n s"
  shows "unat (fid_count s + 1) \<le> n" "\<And>k. known s k \<Longrightarrow> context_at s k \<noteq> None"
    "\<And>k. context_at s k \<noteq> None \<Longrightarrow> unat k < unat (fid_count s + 1)"
    "\<And>p k b. pending (kpc_of s p) = Some (k, b) \<Longrightarrow> \<not> known s k"
    "\<And>p k b. pending (kpc_of s p) = Some (k, b) \<Longrightarrow> unat k < unat (fid_count s + 1)"
    "\<And>p k b. pending (kpc_of s p) = Some (k, b) \<Longrightarrow> context_at s k \<noteq> None \<longleftrightarrow> b"
    "\<And>p q k b c. pending (kpc_of s p) = Some (k, b) \<Longrightarrow> pending (kpc_of s q) = Some (k, c) \<Longrightarrow> p = q"
    "\<And>p k. k \<in> holds_of s p \<Longrightarrow> known s k \<or> (\<exists>b. pending (kpc_of s p) = Some (k, b))"
    "\<And>p k. target (kpc_of s p) = Some k \<Longrightarrow> known s k"
  using assms unfolding ids_def by blast+

lemma target_present: "fine_inv n s \<Longrightarrow> target (kpc_of s p) = Some k \<Longrightarrow> context_at s k \<noteq> None"
  by (rule idsD(2) [OF fine_invD(3) idsD(9) [OF fine_invD(3)]])

lemma pending_free:
  assumes "fine_inv n s" "pending (kpc_of s p) = Some (k, b)" "k \<notin> holds_of s p"
  shows "\<not> locked s k"
proof
  note ids = fine_invD(3) [OF assms(1)]
  assume "locked s k"
  with fine_invD(5) [OF assms(1)] obtain q where q: "k \<in> holds_of s q" by (metis exclusive_owner)
  have "\<not> known s k" by (rule idsD(4) [OF ids assms(2)])
  then obtain c where "pending (kpc_of s q) = Some (k, c)" using idsD(8) [OF ids q] by blast
  then have "q = p" using idsD(7) [OF ids _ assms(2)] by blast
  then show False using q assms(3) by simp
qed

lemma expected:
  assumes "fine_inv n s" "expect p (current_at s p) (kpc_of s p) k = Some v"
  shows "state_at s k = v"
  using fine_invD(2) [OF assms(1)] assms(2) unfolding states_def by blast

lemma owners_keep:
  assumes "owners s" "kpc_of s' = (kpc_of s)(p := c)" "\<And>q. q \<noteq> p \<Longrightarrow> current_at s' q = current_at s q"
    and "locked s' = locked s" "held (current_at s' p) c = held (current_at s p) (kpc_of s p)" "current_ok (current_at s' p) c"
  shows "owners s'"
proof -
  have "holds_of s' = holds_of s" using assms(2,3,5) by (auto simp: holds_of_def fun_eq_iff)
  then show ?thesis using assms by (auto simp: owners_def)
qed

lemma owners_take:
  assumes inv: "fine_inv n s" and s': "kpc_of s' = (kpc_of s)(p := c)" "current_at s' = current_at s"
    and k: "\<not> locked s k" "locked s' = (locked s)(k := True)"
    and held: "held (current_at s p) c = insert k (held (current_at s p) (kpc_of s p))" and ok: "current_ok (current_at s p) c"
  shows "owners s'"
proof (rule owners_change [OF fine_invD(1) [OF inv] s'(1)])
  show "\<not> locked s j" if "j \<in> held (current_at s' p) c" "j \<notin> holds_of s p" for j
    using that k(1) held by (auto simp: s'(2) holds_of_def)
  show "locked s' j \<longleftrightarrow> j \<in> held (current_at s' p) c \<or> j \<notin> holds_of s p \<and> locked s j" for j
    using k(2) held held_locked [OF inv, of j p] by (auto simp: s'(2) holds_of_def)
qed (use s'(2) ok in simp_all)

lemma kstep_owners:
  assumes inv: "fine_inv n s"
  shows "owners (kstep p (kpc_of s p) s)"
proof -
  note own = fine_invD(1) [OF inv] and ids = fine_invD(3) [OF inv]
  have ok: "current_ok (current_at s p) (kpc_of s p)" using fine_invD(6) [OF inv] .
  have held: "k \<in> held (current_at s p) (kpc_of s p) \<Longrightarrow> locked s k" for k by (rule held_locked [OF inv])
  show ?thesis
  proof (cases "kpc_of s p")
    case (Sw_try nxt)
    show ?thesis
    proof (cases "locked s nxt")
      case True
      then show ?thesis using Sw_try ok by (intro owners_keep [OF own, where p = p]) auto
    next
      case False
      then have "current_at s p \<noteq> Some nxt" using held [of nxt] Sw_try by auto
      then show ?thesis using Sw_try False ok target_present [OF inv, of p nxt]
        by (intro owners_take [OF inv, where p = p and c = "Sw_state nxt" and k = nxt]) auto
    qed
  next
    case (Sw_state nxt)
    then have "state_at s nxt = 0" by (intro expected [OF inv, of p]) simp
    then show ?thesis using Sw_state ok by (intro owners_keep [OF own, where p = p]) auto
  next
    case (Sw_old nxt)
    then obtain old where old: "current_at s p = Some old" using ok by auto
    then have "fibs s old \<noteq> None" using held_present [OF inv, of old p] Sw_old by (auto simp: fibs_context)
    then show ?thesis using Sw_old ok old by (intro owners_keep [OF own, where p = p]) auto
  next
    case (Unlock old nxt)
    then show ?thesis using ok held
      by (intro owners_change [OF own, where p = p and c = "Rest_regs nxt"]) (auto simp: holds_of_def)
  next
    case (Rest_regs nxt)
    then show ?thesis using ok held_present [OF inv, of nxt p] by (auto intro!: owners_keep [OF own, where p = p])
  next
    case (Rest_fpu nxt)
    then show ?thesis using ok held_present [OF inv, of nxt p] by (auto intro!: owners_keep [OF own, where p = p])
  next
    case (Cr_count sb ss ep arg)
    then have "current_at s p \<noteq> Some (fid_count s + 1)"
      using idsD(3) [OF ids held_present [OF inv, of "fid_count s + 1" p]] by auto
    then show ?thesis using Cr_count ok by (intro owners_keep [OF own, where p = p]) auto
  next
    case (Cr_add fid sb ss ep arg)
    then have "context_at s fid = None" using idsD(6) [OF ids, of p fid False] by simp
    then have "\<not> locked s fid" using locked_present by blast
    then show ?thesis using Cr_add ok by (intro owners_keep [OF own, where p = p]) (auto simp: Let_def fun_upd_idem)
  next
    case (Cv_add fid)
    then have "context_at s fid = None" using idsD(6) [OF ids, of p fid False] by simp
    then have "\<not> locked s fid" using locked_present by blast
    then show ?thesis using Cv_add ok by (intro owners_keep [OF own, where p = p]) (auto simp: Let_def fun_upd_idem)
  next
    case Cv_thread
    then show ?thesis using ok by (auto intro!: owners_keep [OF own, where p = p] simp: current_at_def split: option.split)
  next
    case (Cv_try fid)
    then have free: "\<not> locked s fid" using pending_free [OF inv, of p fid True] by (simp add: holds_of_def)
    have "context_at s fid \<noteq> None" using Cv_try idsD(6) [OF ids, of p fid True] by simp
    then show ?thesis using Cv_try ok free
      by (intro owners_take [OF inv, where p = p and c = "Cv_state fid" and k = fid]) auto
  next
    case (Cv_state fid)
    then have "state_at s fid = 0" by (intro expected [OF inv, of p]) simp
    then show ?thesis using Cv_state ok by (intro owners_keep [OF own, where p = p]) auto
  next
    case (Cv_act_thread fid)
    then show ?thesis using ok held by (intro owners_change [OF own, where p = p and c = "User (scast fid)"]) (auto simp: holds_of_def)
  qed (use ok own in \<open>auto intro!: owners_keep [OF own, where p = p] simp: Let_def split: option.split\<close>)
qed

section \<open>Every access keeps the states\<close>

lemma states_change:
  assumes inv: "fine_inv n s" and own: "owners s'" and pc: "kpc_of s' = (kpc_of s)(p := c)"
    and cur: "\<And>q. q \<noteq> p \<Longrightarrow> current_at s' q = current_at s q"
    and other: "\<And>k. k \<notin> held (current_at s' p) c \<Longrightarrow> state_at s' k = state_at s k"
    and freed: "\<And>k. k \<in> held (current_at s p) (kpc_of s p) \<Longrightarrow> k \<notin> held (current_at s' p) c \<Longrightarrow> state_at s k = 0"
    and new: "\<And>k v. expect p (current_at s' p) c k = Some v \<Longrightarrow> state_at s' k = v"
  shows "states s'"
  unfolding states_def
proof (intro conjI allI impI)
  have ex: "exclusive (locked s') (holds_of s')" using own by (simp add: owners_def)
  have hp: "holds_of s' p = held (current_at s' p) c" by (simp add: holds_of_def pc)
  have hq: "holds_of s' q = holds_of s q" if "q \<noteq> p" for q using that by (simp add: holds_of_def pc cur)
  show "state_at s' k = 0" if free: "\<not> locked s' k" for k
  proof -
    have np: "k \<notin> held (current_at s' p) c" using exclusive_held [OF ex, of k p] free hp by blast
    have "state_at s k = 0"
    proof (cases "k \<in> held (current_at s p) (kpc_of s p)")
      case True
      then show ?thesis using freed np by blast
    next
      case False
      have "\<not> locked s k"
      proof
        assume "locked s k"
        with fine_invD(5) [OF inv] obtain q where q: "k \<in> holds_of s q" by (metis exclusive_owner)
        then have "q \<noteq> p" using False by (auto simp: holds_of_def)
        then show False using q hq exclusive_held [OF ex, of k q] free by blast
      qed
      then show ?thesis using fine_invD(2) [OF inv] by (simp add: states_def)
    qed
    then show ?thesis using other [OF np] by simp
  qed
  show "state_at s' k = v" if e: "expect q (current_at s' q) (kpc_of s' q) k = Some v" for q k v
  proof (cases "q = p")
    case True
    then show ?thesis using new e pc by simp
  next
    case False
    then have "expect q (current_at s q) (kpc_of s q) k = Some v" using e pc cur by simp
    then have 1: "state_at s k = v" by (rule expected [OF inv])
    have "k \<in> holds_of s' q" using expect_held [OF e] by (simp add: holds_of_def)
    then have "k \<notin> held (current_at s' p) c" using exclusive_unique [OF ex, of k q p] False hp by blast
    then show ?thesis using other 1 by simp
  qed
qed

lemma kstep_states:
  assumes inv: "fine_inv n s"
  shows "states (kstep p (kpc_of s p) s)"
proof -
  note own = kstep_owners [OF inv, of p] and ids = fine_invD(3) [OF inv]
  have ok: "current_ok (current_at s p) (kpc_of s p)" using fine_invD(6) [OF inv] .
  have ex: "expect p (current_at s p) (kpc_of s p) k = Some v \<Longrightarrow> state_at s k = v" for k v by (rule expected [OF inv])
  have free: "\<not> locked s k \<Longrightarrow> state_at s k = 0" for k using fine_invD(2) [OF inv] by (simp add: states_def)
  have present: "k \<in> held (current_at s p) (kpc_of s p) \<Longrightarrow> context_at s k \<noteq> None" for k by (rule held_present [OF inv])
  note change = states_change [OF inv own, where p = p]
  show ?thesis
  proof (cases "kpc_of s p")
    case (Sw_try nxt)
    show ?thesis
    proof (cases "locked s nxt")
      case True
      then show ?thesis using Sw_try ex by (intro change) auto
    next
      case False
      then show ?thesis using Sw_try ex free [OF False] by (intro change [where c = "Sw_state nxt"]) (auto split: if_splits)
    qed
  next
    case (Sw_state nxt)
    then have "state_at s nxt = 0" by (intro ex) simp
    then show ?thesis using Sw_state ex by (intro change [where c = "Sw_old nxt"]) auto
  next
    case (Sw_old nxt)
    then obtain old where old: "current_at s p = Some old" using ok by auto
    then have "fibs s old \<noteq> None" using present [of old] Sw_old by (auto simp: fibs_context)
    then show ?thesis using Sw_old ex old ok by (intro change [where c = "Act_state old nxt"]) (auto split: if_splits)
  next
    case (Rest_regs nxt)
    then show ?thesis using ex present [of nxt] by (intro change [where c = "Rest_fpu nxt"]) auto
  next
    case (Rest_fpu nxt)
    then show ?thesis using ex present [of nxt] ok by (intro change [where c = "User 0"]) (auto split: if_splits)
  next
    case (Cr_add fid sb ss ep arg)
    then have "context_at s fid = None" using idsD(6) [OF ids, of p fid False] by simp
    then have z: "state_at s fid = 0" using locked_present free by blast
    then show ?thesis using Cr_add ex by (intro change [where c = "Cr_stack fid sb ss ep arg"]) (auto simp: Let_def)
  next
    case (Cv_add fid)
    then have "context_at s fid = None" using idsD(6) [OF ids, of p fid False] by simp
    then have z: "state_at s fid = 0" using locked_present free by blast
    then show ?thesis using Cv_add ex by (intro change [where c = "Cv_try fid"]) (auto simp: Let_def)
  next
    case Cv_thread
    show ?thesis
    proof (cases "thrs s p")
      case None
      then show ?thesis using Cv_thread ex by (intro change [where c = Cv_count]) (auto simp: current_at_def)
    next
      case (Some t)
      then show ?thesis using Cv_thread ex by (intro change [where c = "User (- EEXIST)"]) auto
    qed
  next
    case (Cv_try fid)
    then have f: "\<not> locked s fid" using pending_free [OF inv, of p fid True] by (simp add: holds_of_def)
    then show ?thesis using Cv_try free by (intro change [where c = "Cv_state fid"]) (auto split: if_splits)
  next
    case (Cv_state fid)
    then have "state_at s fid = 0" by (intro ex) simp
    then show ?thesis using Cv_state by (intro change [where c = "Cv_act_state fid"]) (auto split: if_splits)
  next
    case (Fa_scan k)
    then obtain x where x: "fls_at s k = Some x" using present [of k] ok by (auto simp: fls_context [symmetric])
    show ?thesis
    proof (cases "find_first_zero_bit (fls_bmp x) FLS_MAX_SIZE < FLS_MAX_SIZE")
      case True
      then show ?thesis using Fa_scan ex
        by (intro change [where c = "Fa_set k (find_first_zero_bit (fls_bmp x) FLS_MAX_SIZE)"]) (auto simp: x Let_def split: if_splits)
    next
      case False
      then show ?thesis using Fa_scan ex by (intro change [where c = "User (- EINVAL)"]) (auto simp: x Let_def split: if_splits)
    qed
  next
    case (Fg_read k i)
    then obtain x where "fls_at s k = Some x" using present [of k] ok by (auto simp: fls_context [symmetric])
    then show ?thesis using Fg_read ex by (intro change [where c = "User (fls_data x (unat i))"]) (auto split: if_splits)
  qed (use own ok ex present fine_invD(2) [OF inv] in
      \<open>auto intro!: states_change [OF inv, where p = p] simp: Let_def split: if_splits\<close>)
qed

section \<open>Every access keeps the ids\<close>

lemma ids_change:
  assumes ids: "ids n s" and pc: "kpc_of s' = (kpc_of s)(p := c)" and cur: "\<And>q. q \<noteq> p \<Longrightarrow> current_at s' q = current_at s q"
    and count: "unat (fid_count s + 1) \<le> unat (fid_count s' + 1)" "unat (fid_count s' + 1) \<le> m"
    and known: "\<And>k. known s k \<Longrightarrow> known s' k" "\<And>k. known s' k \<Longrightarrow> context_at s' k \<noteq> None"
    and present: "\<And>k. context_at s' k \<noteq> None \<Longrightarrow> unat k < unat (fid_count s' + 1)"
    and mine: "\<And>k b. pending c = Some (k, b) \<Longrightarrow> \<not> known s' k \<and> unat k < unat (fid_count s' + 1) \<and> (context_at s' k \<noteq> None \<longleftrightarrow> b)"
    and others: "\<And>q k b. q \<noteq> p \<Longrightarrow> pending (kpc_of s q) = Some (k, b) \<Longrightarrow>
      \<not> known s' k \<and> (context_at s' k \<noteq> None \<longleftrightarrow> b) \<and> (\<forall>d. pending c \<noteq> Some (k, d))"
    and held: "\<And>k. k \<in> held (current_at s' p) c \<Longrightarrow> known s' k \<or> (\<exists>b. pending c = Some (k, b))"
    and target: "\<And>k. target c = Some k \<Longrightarrow> known s' k"
  shows "ids m s'"
  unfolding ids_def
proof (intro conjI allI impI)
  show "unat (fid_count s' + 1) \<le> m" by (rule count(2))
  show "context_at s' k \<noteq> None" if "known s' k" for k using known(2) that .
  show "unat k < unat (fid_count s' + 1)" if "context_at s' k \<noteq> None" for k using present that .
  show "\<not> known s' k" "unat k < unat (fid_count s' + 1)" "context_at s' k \<noteq> None \<longleftrightarrow> b"
    if "pending (kpc_of s' q) = Some (k, b)" for q k b
    using that mine [of k b] others [of q k b] idsD(5) [OF ids, of q k b] count(1)
    by (cases "q = p"; simp add: pc)+
  show "q = r" if "pending (kpc_of s' q) = Some (k, b) \<and> pending (kpc_of s' r) = Some (k, d)" for q r k b d
    using that others [of q k b] others [of r k d] idsD(7) [OF ids, of q k b r d]
    by (cases "q = p"; cases "r = p") (auto simp: pc)
  show "known s' k \<or> (\<exists>b. pending (kpc_of s' q) = Some (k, b))" if "k \<in> holds_of s' q" for q k
    using that held [of k] idsD(8) [OF ids, of k q] known(1) by (cases "q = p") (auto simp: holds_of_def pc cur)
  show "known s' k" if "target (kpc_of s' q) = Some k" for q k
    using that target [of k] idsD(9) [OF ids, of q k] known(1) by (cases "q = p") (auto simp: pc)
qed

lemma ids_keep:
  assumes ids: "ids n s" and pc: "kpc_of s' = (kpc_of s)(p := c)" and cur: "\<And>q. q \<noteq> p \<Longrightarrow> current_at s' q = current_at s q"
    and same: "fid_count s' = fid_count s" "known s' = known s" "\<And>k. context_at s' k = None \<longleftrightarrow> context_at s k = None"
    and c: "pending c = pending (kpc_of s p)" and held: "\<And>k. k \<in> held (current_at s' p) c \<Longrightarrow>
      k \<in> held (current_at s p) (kpc_of s p) \<or> target (kpc_of s p) = Some k \<or> (\<exists>b. pending c = Some (k, b))"
    and target: "\<And>k. target c = Some k \<Longrightarrow> known s k"
  shows "ids (Suc n) s'"
proof (rule ids_change [OF ids pc cur])
  show "unat (fid_count s' + 1) \<le> Suc n" using idsD(1) [OF ids] same(1) by simp
  show "known s' k \<or> (\<exists>b. pending c = Some (k, b))" if "k \<in> held (current_at s' p) c" for k
    using held [OF that] idsD(8) [OF ids, of k p] idsD(9) [OF ids, of p k] same(2) c by (auto simp: holds_of_def)
  show "\<not> known s' k \<and> (context_at s' k \<noteq> None \<longleftrightarrow> b) \<and> (\<forall>d. pending c \<noteq> Some (k, d))"
    if "q \<noteq> p" "pending (kpc_of s q) = Some (k, b)" for q k b
    using that idsD(4,6) [OF ids that(2)] idsD(7) [OF ids that(2), of p] c same by auto
  show "\<not> known s' k \<and> unat k < unat (fid_count s' + 1) \<and> (context_at s' k \<noteq> None \<longleftrightarrow> b)" if "pending c = Some (k, b)" for k b
    using idsD(4,5,6) [OF ids, of p k b] that c same by simp
qed (use same target idsD(2,3) [OF ids] in auto)

lemma next_id:
  assumes "ids n s" "n < 2 ^ 32 - 1"
  shows "unat (fid_count s + 1 + 1) = Suc (unat (fid_count s + 1))"
proof -
  define x where "x = fid_count s + 1"
  have "unat x < 2 ^ 32 - 1" using idsD(1) [OF assms(1)] assms(2) by (simp add: x_def)
  moreover have "unat (x + 1) = (unat x + 1) mod 2 ^ 32" by (simp add: unat_word_ariths)
  ultimately have "unat (x + 1) = Suc (unat x)" by simp
  then show ?thesis by (simp only: x_def)
qed

lemma ids_count:
  assumes inv: "fine_inv n s" and n: "n < 2 ^ 32 - 1" and pc: "kpc_of s' = (kpc_of s)(p := c)" "current_at s' = current_at s"
    and s': "fid_count s' = fid_count s + 1" "known s' = known s" "context_at s' = context_at s"
    and c: "pending c = Some (fid_count s + 1, False)" "held (current_at s p) c \<subseteq> held (current_at s p) (kpc_of s p)"
      "pending (kpc_of s p) = None" "target c = None"
  shows "ids (Suc n) s'"
proof -
  note ids = fine_invD(3) [OF inv]
  have nx: "unat (fid_count s' + 1) = Suc (unat (fid_count s + 1))" using next_id [OF ids n] s'(1) by simp
  have fresh: "context_at s (fid_count s + 1) = None" using idsD(3) [OF ids, of "fid_count s + 1"] by (metis less_irrefl)
  show ?thesis
  proof (rule ids_change [OF ids pc(1)])
    show "unat (fid_count s' + 1) \<le> Suc n" using nx idsD(1) [OF ids] by simp
    show "\<not> known s' k \<and> (context_at s' k \<noteq> None \<longleftrightarrow> b) \<and> (\<forall>d. pending c \<noteq> Some (k, d))"
      if "q \<noteq> p" "pending (kpc_of s q) = Some (k, b)" for q k b
      using idsD(4,5,6) [OF ids that(2)] s' c(1) by auto
    show "known s' k \<or> (\<exists>b. pending c = Some (k, b))" if "k \<in> held (current_at s' p) c" for k
      using that c(2,3) idsD(8) [OF ids, of k p] by (auto simp: holds_of_def pc(2) s')
    show "\<not> known s' k \<and> unat k < unat (fid_count s' + 1) \<and> (context_at s' k \<noteq> None \<longleftrightarrow> b)" if "pending c = Some (k, b)" for k b
      using that c(1) nx fresh idsD(2) [OF ids, of k] s' by auto
    show "unat k < unat (fid_count s' + 1)" if "context_at s' k \<noteq> None" for k
      using idsD(3) [OF ids, of k] that s'(3) nx by simp
  qed (use idsD(2) [OF ids] pc(2) nx s' c(4) in auto)
qed

lemma ids_add:
  assumes inv: "fine_inv n s" and pc: "kpc_of s' = (kpc_of s)(p := c)" "current_at s' = current_at s"
    and s': "fid_count s' = fid_count s" "known s' = known s" "context_at s' = (context_at s)(k \<mapsto> x)"
    and c: "pending (kpc_of s p) = Some (k, False)" "pending c = Some (k, True)" "target c = None"
      "held (current_at s p) c \<subseteq> held (current_at s p) (kpc_of s p)"
  shows "ids (Suc n) s'"
proof -
  note ids = fine_invD(3) [OF inv]
  note k = idsD(4,5,6) [OF ids c(1)]
  show ?thesis
  proof (rule ids_change [OF ids pc(1)])
    show "\<not> known s' j \<and> (context_at s' j \<noteq> None \<longleftrightarrow> b) \<and> (\<forall>d. pending c \<noteq> Some (j, d))"
      if "q \<noteq> p" "pending (kpc_of s q) = Some (j, b)" for q j b
    proof -
      have "j \<noteq> k" using idsD(7) [OF ids that(2), of p] c(1) that(1) by blast
      then show ?thesis using idsD(4,6) [OF ids that(2)] s' c(2) by auto
    qed
    show "known s' j \<or> (\<exists>b. pending c = Some (j, b))" if "j \<in> held (current_at s' p) c" for j
      using that c(1,2,4) idsD(8) [OF ids, of j p] by (auto simp: holds_of_def pc(2) s')
    show "unat (fid_count s' + 1) \<le> Suc n" using idsD(1) [OF ids] s'(1) by simp
    show "unat j < unat (fid_count s' + 1)" if "context_at s' j \<noteq> None" for j
      using that k(2) idsD(3) [OF ids, of j] s' by (cases "j = k") auto
  qed (use idsD(2) [OF ids] pc(2) k s' c in auto)
qed

lemma ids_return:
  assumes inv: "fine_inv n s" and pc: "kpc_of s' = (kpc_of s)(p := c)" "\<And>q. q \<noteq> p \<Longrightarrow> current_at s' q = current_at s q"
    and s': "fid_count s' = fid_count s" "known s' = (known s)(k := True)" "\<And>j. context_at s' j = None \<longleftrightarrow> context_at s j = None"
    and c: "pending (kpc_of s p) = Some (k, True)" "pending c = None" "target c = None"
      "\<And>j. j \<in> held (current_at s' p) c \<Longrightarrow> j = k \<or> j \<in> held (current_at s p) (kpc_of s p)"
  shows "ids (Suc n) s'"
proof -
  note ids = fine_invD(3) [OF inv]
  note k = idsD(4,5,6) [OF ids c(1)]
  show ?thesis
  proof (rule ids_change [OF ids pc])
    show "\<not> known s' j \<and> (context_at s' j \<noteq> None \<longleftrightarrow> b) \<and> (\<forall>d. pending c \<noteq> Some (j, d))"
      if "q \<noteq> p" "pending (kpc_of s q) = Some (j, b)" for q j b
    proof -
      have "j \<noteq> k" using idsD(7) [OF ids that(2), of p] c(1) that(1) by blast
      then show ?thesis using idsD(4,6) [OF ids that(2)] s' c(2) by auto
    qed
    show "known s' j \<or> (\<exists>b. pending c = Some (j, b))" if "j \<in> held (current_at s' p) c" for j
      using c(4) [OF that] idsD(8) [OF ids, of j p] c(1) s'(2) by (auto simp: holds_of_def)
    show "unat (fid_count s' + 1) \<le> Suc n" using idsD(1) [OF ids] s'(1) by simp
  qed (use idsD(2,3) [OF ids] k s' c in \<open>auto split: if_splits\<close>)
qed

lemma kstep_ids:
  assumes inv: "fine_inv n s" and n: "n < 2 ^ 32 - 1"
  shows "ids (Suc n) (kstep p (kpc_of s p) s)"
proof -
  note ids = fine_invD(3) [OF inv]
  have ok: "current_ok (current_at s p) (kpc_of s p)" using fine_invD(6) [OF inv] .
  have mono: "ids (Suc n) s" using ids by (auto simp: ids_def)
  have t: "target (kpc_of s p) = Some k \<Longrightarrow> known s k" for k by (rule idsD(9) [OF ids])
  show ?thesis
  proof (cases "kpc_of s p")
    case (Cr_count sb ss ep arg)
    then show ?thesis by (intro ids_count [OF inv n, where p = p and c = "Cr_add (fid_count s + 1) sb ss ep arg"]) simp_all
  next
    case Cv_count
    then show ?thesis by (intro ids_count [OF inv n, where p = p and c = "Cv_add (fid_count s + 1)"]) simp_all
  next
    case (Cr_add k sb ss ep arg)
    then show ?thesis by (intro ids_add [OF inv, where p = p and c = "Cr_stack k sb ss ep arg" and k = k]) (simp_all add: Let_def)
  next
    case (Cv_add k)
    then show ?thesis by (intro ids_add [OF inv, where p = p and c = "Cv_try k" and k = k]) (simp_all add: Let_def)
  next
    case (Cr_context k sb ss ep arg)
    then show ?thesis by (intro ids_return [OF inv, where p = p and c = "User (scast k)" and k = k]) (simp_all add: Let_def context_alloc)
  next
    case (Cv_act_thread k)
    then show ?thesis using ok by (intro ids_return [OF inv, where p = p and c = "User (scast k)" and k = k]) (auto simp: Let_def)
  next
    case (Rest_regs nxt)
    then show ?thesis using held_present [OF inv, of nxt p] by (auto intro!: ids_keep [OF ids, where p = p])
  next
    case (Rest_fpu nxt)
    then show ?thesis using held_present [OF inv, of nxt p] ok by (auto intro!: ids_keep [OF ids, where p = p])
  next
    case Cv_thread
    then show ?thesis by (auto intro!: ids_keep [OF ids, where p = p] simp: current_at_def split: option.split)
  qed (use mono ok t in \<open>auto intro!: ids_keep [OF ids, where p = p] simp: Let_def split: option.split if_splits\<close>)
qed

section \<open>Every access keeps the contexts\<close>

lemma contexts_change:
  assumes inv: "fine_inv n s" and pc: "kpc_of s' = (kpc_of s)(p := c)" and task: "\<And>q. q \<noteq> p \<Longrightarrow> task_of s' q = task_of s q"
    and mine: "\<And>q k. q \<noteq> p \<Longrightarrow> k \<in> X \<Longrightarrow> k \<notin> holds_of s q"
    and same: "\<And>k. k \<notin> X \<Longrightarrow> context_at s' k = context_at s k \<and> left_at s' k = left_at s k"
    and new: "\<And>k x. k \<in> X \<Longrightarrow> context_at s' k = Some x \<Longrightarrow> torn c \<noteq> Some k \<Longrightarrow> left_at s' k = x"
    and old: "\<And>k. torn (kpc_of s p) = Some k \<Longrightarrow> k \<in> X"
    and half: "\<And>k j x. c = Save_fpu k j \<Longrightarrow> context_at s' k = Some x \<Longrightarrow> ctx_regs x = tsk_regs (task_of s' p)"
    and rest: "\<And>k. c = Rest_fpu k \<Longrightarrow> tsk_regs (task_of s' p) = ctx_regs (left_at s' k)"
  shows "contexts_left s'"
  unfolding contexts_left_def
proof (intro conjI allI impI)
  have inv': "contexts_left s" by (rule fine_invD(4) [OF inv])
  show "left_at s' k = x" if a: "context_at s' k = Some x \<and> (\<forall>q. torn (kpc_of s' q) \<noteq> Some k)" for k x
  proof (cases "k \<in> X")
    case True
    have "torn c \<noteq> Some k" using a pc by (metis fun_upd_same)
    then show ?thesis using new [OF True] a by blast
  next
    case False
    have "torn (kpc_of s q) \<noteq> Some k" for q
      using a old [of k] False by (cases "q = p") (auto simp: pc split: if_splits)
    then show ?thesis using inv' same [OF False] a unfolding contexts_left_def by auto
  qed
  show "ctx_regs x = tsk_regs (task_of s' q)" if a: "kpc_of s' q = Save_fpu k j \<and> context_at s' k = Some x" for q k j x
  proof (cases "q = p")
    case False
    then have q: "kpc_of s q = Save_fpu k j" using a pc by simp
    then have "k \<notin> X" using mine [OF False, of k] by (auto simp: holds_of_def)
    then have "context_at s k = Some x" using same [of k] a by simp
    then show ?thesis using inv' q task [OF False] unfolding contexts_left_def by auto
  qed (use a pc half in simp)
  show "tsk_regs (task_of s' q) = ctx_regs (left_at s' k)" if a: "kpc_of s' q = Rest_fpu k" for q k
  proof (cases "q = p")
    case False
    then have q: "kpc_of s q = Rest_fpu k" using a pc by simp
    then have "k \<notin> X" using mine [OF False, of k] by (auto simp: holds_of_def)
    then have "left_at s' k = left_at s k" using same [of k] by simp
    then show ?thesis using inv' q task [OF False] unfolding contexts_left_def by auto
  qed (use a pc rest in simp)
qed

lemma not_held_by_other:
  assumes "fine_inv n s" "k \<in> held (current_at s p) (kpc_of s p)" "q \<noteq> p"
  shows "k \<notin> holds_of s q"
proof
  assume "k \<in> holds_of s q"
  moreover have "k \<in> holds_of s p" using assms(2) by (simp only: holds_of_def)
  ultimately show False using exclusive_unique [OF fine_invD(5) [OF assms(1)]] assms(3) by blast
qed

lemma pending_not_held_by_other:
  assumes "fine_inv n s" "pending (kpc_of s p) = Some (k, b)" "q \<noteq> p"
  shows "k \<notin> holds_of s q"
proof
  note ids = fine_invD(3) [OF assms(1)]
  assume "k \<in> holds_of s q"
  then obtain c where "pending (kpc_of s q) = Some (k, c)"
    using idsD(8) [OF ids, of k q] idsD(4) [OF ids assms(2)] by blast
  then show False using idsD(7) [OF ids assms(2)] assms(3) by blast
qed

lemma left_context:
  assumes "fine_inv n s" "context_at s k = Some c" "k \<in> held (current_at s p) (kpc_of s p)" "torn (kpc_of s p) \<noteq> Some k"
  shows "left_at s k = c"
proof -
  have "torn (kpc_of s q) \<noteq> Some k" for q
  proof (cases "q = p")
    case False
    then show ?thesis using not_held_by_other [OF assms(1,3) False] torn_held [of "kpc_of s q" k "current_at s q"]
      by (auto simp: holds_of_def)
  qed (use assms(4) in simp)
  then show ?thesis using fine_invD(4) [OF assms(1)] assms(2) unfolding contexts_left_def by blast
qed

lemma kstep_contexts:
  assumes inv: "fine_inv n s"
  shows "contexts_left (kstep p (kpc_of s p) s)"
proof -
  note left = fine_invD(4) [OF inv] and other = not_held_by_other [OF inv, of _ p]
  show ?thesis
  proof (cases "kpc_of s p")
    case (Save_regs k j)
    then show ?thesis using other [of k]
      by (intro contexts_change [OF inv, where p = p and c = "Save_fpu k j" and X = "{k}"]) auto
  next
    case (Save_fpu k j)
    have "ctx_regs x = tsk_regs (task_of s p)" if "context_at s k = Some x" for x
      using left Save_fpu that unfolding contexts_left_def by blast
    then show ?thesis using other [of k] Save_fpu
      by (intro contexts_change [OF inv, where p = p and c = "Account k j" and X = "{k}"]) auto
  next
    case (Rest_regs k)
    then obtain x where x: "context_at s k = Some x" using held_present [OF inv, of k p] by auto
    then have "left_at s k = x" using left_context [OF inv x, of p] Rest_regs by simp
    then show ?thesis using Rest_regs x
      by (intro contexts_change [OF inv, where p = p and c = "Rest_fpu k" and X = "{}"]) auto
  next
    case (Rest_fpu k)
    then obtain x where x: "context_at s k = Some x" using held_present [OF inv, of k p] by auto
    then show ?thesis using Rest_fpu
      by (intro contexts_change [OF inv, where p = p and c = "User 0" and X = "{}"]) auto
  next
    case (Cr_add k sb ss ep arg)
    then show ?thesis using pending_not_held_by_other [OF inv, of p k False]
      by (intro contexts_change [OF inv, where p = p and c = "Cr_stack k sb ss ep arg" and X = "{k}"]) (auto simp: Let_def)
  next
    case (Cv_add k)
    then show ?thesis using pending_not_held_by_other [OF inv, of p k False]
      by (intro contexts_change [OF inv, where p = p and c = "Cv_try k" and X = "{k}"]) (auto simp: Let_def)
  next
    case (Cr_context k sb ss ep arg)
    then show ?thesis using pending_not_held_by_other [OF inv, of p k True]
      by (intro contexts_change [OF inv, where p = p and c = "User (scast k)" and X = "{k}"])
        (auto simp: Let_def context_alloc split: option.splits)
  qed (use left in \<open>auto intro!: contexts_change [OF inv, where p = p and X = "{}"] simp: Let_def split: option.split\<close>)
qed

section \<open>Every run keeps the invariant\<close>

lemma kstep_inv: "fine_inv n s \<Longrightarrow> n < 2 ^ 32 - 1 \<Longrightarrow> fine_inv (Suc n) (kstep p (kpc_of s p) s)"
  by (simp add: fine_inv_def [of "Suc n"] kstep_owners kstep_states kstep_ids kstep_contexts)

text \<open>A call only moves the program point; nothing is locked and no id is taken yet.\<close>

lemma enter_inv:
  assumes inv: "fine_inv n s" and user: "kpc_of s p = User r"
    and c: "held (current_at s p) c = set_option (current_at s p)" "current_ok (current_at s p) c" "pending c = None" "torn c = None"
      "\<And>k. expect p (current_at s p) c k = expect p (current_at s p) (User r) k" "\<And>k. target c = Some k \<Longrightarrow> known s k" "\<And>k. c \<noteq> Rest_fpu k"
  shows "fine_inv (Suc n) (go p c s)"
proof -
  have own: "owners (go p c s)" by (rule owners_keep [OF fine_invD(1) [OF inv], where p = p and c = c]) (use user c in simp_all)
  moreover have "states (go p c s)"
  proof (rule states_change [OF inv own, where p = p and c = c])
    show "state_at (go p c s) k = v" if "expect p (current_at (go p c s) p) c k = Some v" for k v
    proof -
      have "expect p (current_at s p) (kpc_of s p) k = Some v" using that c(5) [of k] user by simp
      then show ?thesis using expected [OF inv] by simp
    qed
  qed (use user c(1) in simp_all)
  moreover have "ids (Suc n) (go p c s)"
    by (rule ids_keep [OF fine_invD(3) [OF inv], where p = p and c = c]) (use user c in auto)
  moreover have "contexts_left (go p c s)"
    by (rule contexts_change [OF inv, where p = p and c = c and X = "{}"]) (use user c in auto)
  ultimately show ?thesis by (simp add: fine_inv_def)
qed

lemma begin_call_inv:
  assumes inv: "fine_inv n s" and user: "kpc_of s p = User r" and a: "allowed a s"
  shows "fine_inv (Suc n) (begin_call p a s)"
proof -
  have same: "fine_inv (Suc n) s" using inv by (auto simp: fine_inv_def ids_def)
  show ?thesis
  proof (cases a)
    case (Compute tsk)
    then have "holds_of (begin_call p a s) = holds_of s" by (simp add: holds_of_def fun_eq_iff)
    then have "owners (begin_call p a s)" using fine_invD(1) [OF inv] Compute by (simp add: owners_def)
    moreover have "states (begin_call p a s)" using fine_invD(2) [OF inv] Compute by (simp add: states_def)
    moreover have "ids (Suc n) (begin_call p a s)" using fine_invD(3) [OF inv] Compute by (auto simp: ids_def holds_of_def)
    moreover have "contexts_left (begin_call p a s)"
      by (rule contexts_change [OF inv, where p = p and c = "User r" and X = "{}"]) (use user Compute in auto)
    ultimately show ?thesis by (simp add: fine_inv_def)
  next
    case Step
    then show ?thesis by (simp add: same)
  next
    case (Call c)
    show ?thesis
    proof (cases c)
      case Release
      then show ?thesis by (simp add: Call same)
    qed (use a in \<open>auto intro!: enter_inv [OF inv user] simp: Call thrs_current with_fiber_def split: option.split\<close>)
  qed
qed

lemma fine_step_kernel: "(\<And>r. kpc_of s p \<noteq> User r) \<Longrightarrow> fine_step p a s = kstep p (kpc_of s p) s"
  by (simp add: fine_step_def split: kpc.split)

lemma fine_step_inv:
  assumes "fine_inv n s" "n < 2 ^ 32 - 1" "allowed a s"
  shows "fine_inv (Suc n) (fine_step p a s)"
proof (cases "\<exists>r. kpc_of s p = User r")
  case True
  then obtain r where r: "kpc_of s p = User r" by blast
  then show ?thesis using begin_call_inv [OF assms(1) r assms(3)] by (simp add: fine_step_def)
next
  case False
  then show ?thesis using kstep_inv [OF assms(1,2)] fine_step_kernel by metis
qed

lemma fine_init_inv: "fine_inv 0 (fine_init tsk l)"
proof -
  have "current_at (fine_init tsk l) p = None" "context_at (fine_init tsk l) k = None" "locked (fine_init tsk l) k = False"
    "state_at (fine_init tsk l) k = 0" for p k
    by (simp_all add: fine_init_def current_at_def context_at_def locked_def state_at_def)
  moreover have "kpc_of (fine_init tsk l) p = User 0" "fid_count (fine_init tsk l) = NO_FIBERS" "known (fine_init tsk l) k = False" for p k
    by (simp_all add: fine_init_def)
  ultimately show ?thesis
    by (simp add: fine_inv_def owners_def states_def ids_def contexts_left_def holds_of_def exclusive_def)
qed

lemma fine_reach_inv: "fine_reach n s \<Longrightarrow> n < 2 ^ 32 \<Longrightarrow> fine_inv n s"
proof (induction rule: fine_reach.induct)
  case (step n s p a)
  then have "fine_inv n s" "n < 2 ^ 32 - 1" by simp_all
  then show ?case using step.hyps(3) by (rule fine_step_inv)
qed (rule fine_init_inv)

end
