(* ===== verification/Fiber_Fine_Seq.thy ===== *)
theory Fiber_Fine_Seq
  imports Fiber_Fine
begin

text \<open>
  The handlers of \<open>Fiber\<close>, which are one step each, against the handlers of \<open>Fiber_Fine\<close>, which
  are a sequence of accesses: when no other task runs between the accesses, both do the same.
\<close>

section \<open>Uninterrupted calls\<close>

text \<open>
  \<open>finish n p s\<close> lets task \<open>p\<close> make up to \<open>n\<close> accesses, until it is back in user mode. The longest
  path through a handler, a switch, has fourteen.
\<close>

fun finish :: "nat \<Rightarrow> pid_t \<Rightarrow> fine \<Rightarrow> fine" where
  "finish 0 p s = s"
| "finish (Suc n) p s = finish n p (fine_step p Step s)"

definition uninterrupted :: "pid_t \<Rightarrow> act \<Rightarrow> fine \<Rightarrow> fine" where
  "uninterrupted p a s = finish 14 p (fine_step p a s)"

text \<open>The tables and the counter of the group \<open>g\<close> are those of \<open>s\<close>.\<close>

definition same_group :: "kenv \<Rightarrow> kstate \<Rightarrow> pid_t \<Rightarrow> fine \<Rightarrow> bool" where
  "same_group e ks g s \<longleftrightarrow>
     (\<exists>tg. get_group e g ks = Some tg \<and> fid_count s = tg_fid_count tg \<and>
       (\<forall>k. fibs s k = get_fiber e k tg) \<and> (\<forall>q. thrs s q = get_thread e q tg))"

lemma finish_user: "kpc_of s p = User r \<Longrightarrow> finish n p s = s"
  by (induction n) (simp_all add: fine_step_def)

lemma finish_access:
  "kpc_of s p = c \<Longrightarrow> (\<And>r. c \<noteq> User r) \<Longrightarrow> finish (Suc n) p s = finish n p (kstep p c s)"
  by (simp add: fine_step_def split: kpc.split)

lemma finish_step: "finish (Suc n) p (go p c s) = finish n p (if \<exists>r. c = User r then go p c s else kstep p c (go p c s))"
  by (cases "\<exists>r. c = User r") (auto simp: fine_step_def go_def split: kpc.split)

lemma same_group_store:
  assumes "get_group e g ks = Some tg" "tg_tgid tg' = g" "groups ks' = groups ks" "fid_count s = tg_fid_count tg'"
    "\<And>k. fibs s k = get_fiber e k tg'" "\<And>q. thrs s q = get_thread e q tg'"
  shows "same_group e (set_group e tg' ks') g s"
  using assms get_group_cong [OF assms(3), of e g] by (simp add: same_group_def get_group_set)

section \<open>The three handlers\<close>

lemmas access_defs = go_def on_fiber_def on_thread_def locked_def state_at_def context_at_def current_at_def

lemma enter_accesses:
  "stamp_activation (tsk_utime tsk) (count_activation (set_state p (spin_trylock f))) = enter_fiber tsk p f"
  by (simp add: stamp_activation_def count_activation_def set_state_def object_defs)

lemma leave_accesses:
  "spin_unlock (set_state 0 (account_time (tsk_utime tsk) (store_fpu tsk (store_regs tsk f)))) = leave_fiber tsk f"
  by (simp add: store_fpu_def store_regs_def set_state_def object_defs)

lemma enter_context [simp]: "f_context (enter_fiber tsk p f) = f_context f"
  by (simp add: object_defs)

lemma fiber_with_new: "t_pid t = p \<Longrightarrow> fiber_with (tg_fid_count tg + 1) p tsk = new_fiber tg t tsk"
  by (simp add: fiber_with_def new_fiber_def PREPARE_INFO_def Let_def)

text \<open>A task in user mode whose group and tables agree with the state of the module.\<close>

definition in_user :: "kenv \<Rightarrow> kstate \<Rightarrow> task \<Rightarrow> fine \<Rightarrow> bool" where
  "in_user e ks tsk s \<longleftrightarrow> same_group e ks (tsk_tgid tsk) s \<and> task_of s (tsk_pid tsk) = tsk \<and>
     (\<exists>r. kpc_of s (tsk_pid tsk) = User r)"

definition returned :: "kenv \<Rightarrow> task \<Rightarrow> kstate \<Rightarrow> task \<Rightarrow> c_long \<Rightarrow> fine \<Rightarrow> fine \<Rightarrow> bool" where
  "returned e tsk ks' tsk' r s s' \<longleftrightarrow> same_group e ks' (tsk_tgid tsk) s' \<and>
     task_of s' = (task_of s)(tsk_pid tsk := tsk') \<and> kpc_of s' = (kpc_of s)(tsk_pid tsk := User r)"

lemma in_userD:
  assumes "in_user e ks tsk s"
  obtains tg r where "get_group e (tsk_tgid tsk) ks = Some tg" "tg_tgid tg = tsk_tgid tsk" "fid_count s = tg_fid_count tg"
    "\<And>k. fibs s k = get_fiber e k tg" "\<And>q. thrs s q = get_thread e q tg" "task_of s (tsk_pid tsk) = tsk"
    "kpc_of s (tsk_pid tsk) = User r"
  using assms group_key unfolding in_user_def same_group_def by metis

lemma switch_uninterrupted:
  assumes u: "in_user e ks tsk s" and inv: "kstate_inv e ks" and sw: "do_switch_to_fiber e ks tsk nxt = Done ks' tsk' r"
  shows "returned e tsk ks' tsk' (scast r) s (uninterrupted (tsk_pid tsk) (Call (Switch nxt)) s)" (is "returned e tsk ks' tsk' _ s ?s'")
proof -
  define p where "p = tsk_pid tsk"
  obtain tg r0 where g: "get_group e (tsk_tgid tsk) ks = Some tg" "tg_tgid tg = tsk_tgid tsk" and count: "fid_count s = tg_fid_count tg"
    and fibs: "\<And>k. fibs s k = get_fiber e k tg" and thrs: "\<And>q. thrs s q = get_thread e q tg"
    and tsk: "task_of s p = tsk" and user: "kpc_of s p = User r0"
    using in_userD [OF u] unfolding p_def by metis
  have store: "returned e tsk (set_group e tg' ks) tsk1 r1 s s1"
    if "tg_tgid tg' = tg_tgid tg" "tg_fid_count tg' = tg_fid_count tg" "\<And>k. fibs s1 k = get_fiber e k tg'"
      "\<And>q. thrs s1 q = get_thread e q tg'" "fid_count s1 = fid_count s" "task_of s1 = (task_of s)(p := tsk1)"
      "kpc_of s1 = (kpc_of s)(p := User r1)" for tg' tsk1 r1 s1
    using that g count by (auto simp: returned_def p_def intro!: same_group_store)
  have run: "?s' = finish 14 p (begin_call p (Call (Switch nxt)) s)"
    using user by (simp add: uninterrupted_def fine_step_def p_def)
  note exec = run user fine_step_def numeral_eq_Suc access_defs
  consider (absent) "thrs s p = None \<or> fibs s nxt = None"
    | (busy) t f where "thrs s p = Some t" "fibs s nxt = Some f" "f_flock f \<or> info_state (f_info f) \<noteq> 0"
    | (free) t f where "thrs s p = Some t" "fibs s nxt = Some f" "\<not> f_flock f" "info_state (f_info f) = 0"
    by (cases "thrs s p"; cases "fibs s nxt") auto
  then show ?thesis
  proof cases
    case absent
    then have "ks' = ks \<and> tsk' = tsk \<and> r = - ESRCH"
      using sw g(1) fibs thrs by (auto simp: do_switch_eq p_def split: option.splits)
    then show ?thesis using absent u tsk user
      by (auto simp: exec finish_user returned_def in_user_def same_group_def p_def)
  next
    case (busy t f)
    let ?tg = "mod_fiber e nxt fail_activation (mod_fiber e nxt spin_trylock tg)"
    have s': "ks' = set_group e ?tg ks \<and> tsk' = tsk \<and> r = - EAGAIN"
      using sw g(1) busy fibs thrs by (auto simp: do_switch_eq p_def)
    have held: "spin_trylock f = f" if "f_flock f" using that by (simp add: spin_trylock_def)
    have "info_state (f_info (spin_trylock f)) = info_state (f_info f)" by (simp add: spin_trylock_def)
    then have fin: "?s' = go p (User (- EAGAIN)) (s\<lparr>fibs := (fibs s)(nxt \<mapsto> fail_activation (spin_trylock f))\<rparr>)"
      using busy held by (cases "f_flock f") (simp_all add: exec)
    show ?thesis unfolding s' [THEN conjunct1] using s' busy(2) fibs tsk
      by (intro store) (auto simp: fin go_def table_simps thrs)
  next
    case (free t f)
    have t: "get_thread e (tsk_pid tsk) tg = Some t" and f: "get_fiber e nxt tg = Some f" using free fibs thrs by (auto simp: p_def)
    obtain old_f where old_f: "get_fiber e (t_current_fid t) tg = Some old_f" "info_state (f_info old_f) \<noteq> 0"
      using current_fiber_exists [OF kstate_invD [OF inv g(1)] t] by auto
    then have ne: "t_current_fid t \<noteq> nxt" using free(4) f by auto
    have key: "t_pid t = p" using thr.lookup_key [OF t] by (simp add: p_def)
    let ?tg = "switch_group e tsk p (t_current_fid t) nxt tg"
    have s': "ks' = set_group e ?tg ks \<and> tsk' = tsk\<lparr>tsk_regs := ctx_regs (f_context f), tsk_fx := ctx_fpu (f_context f)\<rparr> \<and> r = SUCCESS"
      using sw g(1) t f free(3,4) old_f(1) key by (auto simp: do_switch_eq Let_def switch_group_fiber [OF ne])
    have fin: "?s' = go p (User SUCCESS) (s\<lparr>
        fibs := (fibs s)(nxt \<mapsto> enter_fiber tsk p f, t_current_fid t \<mapsto> leave_fiber tsk old_f),
        thrs := (thrs s)(p \<mapsto> t\<lparr>t_current_fid := nxt\<rparr>), task_of := (task_of s)(p := tsk'),
        left_at := (left_at s)(t_current_fid t := \<lparr>ctx_regs = tsk_regs tsk, ctx_fpu = tsk_fx tsk\<rparr>)\<rparr>)"
      using free old_f(1) ne tsk s' fibs by (simp add: exec enter_accesses leave_accesses)
    show ?thesis unfolding s' [THEN conjunct1] using s' f old_f(1) fibs tsk t ne
      by (intro store) (auto simp: fin go_def switch_group_fiber switch_group_thread thrs p_def)
  qed
qed

lemma create_uninterrupted:
  assumes u: "in_user e ks tsk s" and ok: "\<And>n. kmalloc_ok e n" and cr: "do_create_fiber e ks tsk sb ss ep arg = Done ks' tsk' r"
  shows "returned e tsk ks' tsk' (scast r) s (uninterrupted (tsk_pid tsk) (Call (Create sb ss ep arg)) s)" (is "returned e tsk ks' tsk' _ s ?s'")
proof -
  define p where "p = tsk_pid tsk"
  obtain tg r0 where g: "get_group e (tsk_tgid tsk) ks = Some tg" "tg_tgid tg = tsk_tgid tsk" and count: "fid_count s = tg_fid_count tg"
    and fibs: "\<And>k. fibs s k = get_fiber e k tg" and thrs: "\<And>q. thrs s q = get_thread e q tg"
    and tsk: "task_of s p = tsk" and user: "kpc_of s p = User r0"
    using in_userD [OF u] unfolding p_def by metis
  have run: "?s' = finish 14 p (begin_call p (Call (Create sb ss ep arg)) s)"
    using user by (simp add: uninterrupted_def fine_step_def p_def)
  note exec = run user fine_step_def numeral_eq_Suc access_defs
  show ?thesis
  proof (cases "thrs s p")
    case None
    then have "ks' = ks \<and> tsk' = tsk \<and> r = - ESRCH"
      using cr g(1) thrs by (auto simp: do_create_eq p_def)
    then show ?thesis using None u tsk
      by (auto simp: exec returned_def in_user_def same_group_def p_def)
  next
    case (Some t)
    let ?f = "ALLOC_CONTEXT ep arg (ALLOC_STACK sb ss (new_fiber tg t tsk))" and ?k = "tg_fid_count tg + 1"
    have t: "get_thread e (tsk_pid tsk) tg = Some t" using Some thrs by (auto simp: p_def)
    have key: "t_pid t = p" using thr.lookup_key [OF t] by (simp add: p_def)
    obtain ks1 where k: "kmalloc e ks = (True, ks1)" using ok by (simp add: kmalloc_def Let_def)
    have s': "ks' = set_group e (create_group e tsk t sb ss ep arg tg) ks1 \<and> tsk' = tsk \<and> r = ?k"
      using cr g(1) t k by (auto simp: do_create_eq)
    have fin: "kpc_of ?s' = (kpc_of s)(p := User (scast ?k))" "task_of ?s' = task_of s" "fid_count ?s' = ?k"
      "fibs ?s' = (fibs s)(?k \<mapsto> ?f)" "thrs ?s' = thrs s"
      using Some tsk count by (simp_all add: exec Let_def fiber_with_new [OF key])
    show ?thesis unfolding s' [THEN conjunct1] returned_def
    proof (intro conjI)
      show "same_group e (set_group e (create_group e tsk t sb ss ep arg tg) ks1) (tsk_tgid tsk) ?s'"
        by (rule same_group_store [OF g(1)])
          (use g(2) kmalloc_groups [OF k] in \<open>auto simp: fin create_group_def Let_def table_simps fibs thrs\<close>)
    qed (use s' tsk fin in \<open>auto simp: p_def\<close>)
  qed
qed

lemma convert_uninterrupted:
  assumes u: "in_user e ks tsk s" and ok: "\<And>n. kmalloc_ok e n" and cv: "do_convert_thread_to_fiber e ks tsk = Done ks' tsk' r"
  shows "returned e tsk ks' tsk' (scast r) s (uninterrupted (tsk_pid tsk) (Call Convert) s)" (is "returned e tsk ks' tsk' _ s ?s'")
proof -
  define p where "p = tsk_pid tsk"
  obtain tg r0 where g: "get_group e (tsk_tgid tsk) ks = Some tg" "tg_tgid tg = tsk_tgid tsk" and count: "fid_count s = tg_fid_count tg"
    and fibs: "\<And>k. fibs s k = get_fiber e k tg" and thrs: "\<And>q. thrs s q = get_thread e q tg"
    and tsk: "task_of s p = tsk" and user: "kpc_of s p = User r0"
    using in_userD [OF u] unfolding p_def by metis
  have run: "?s' = finish 14 p (begin_call p (Call Convert) s)"
    using user by (simp add: uninterrupted_def fine_step_def p_def)
  note exec = run user fine_step_def numeral_eq_Suc access_defs
  have fg: "find_or_generate e ks (tsk_tgid tsk) = (Inr tg, ks)" using g(1) by (simp add: find_or_generate_def)
  show ?thesis
  proof (cases "thrs s p")
    case (Some t)
    then have "ks' = ks \<and> tsk' = tsk \<and> r = - EEXIST" using cv fg thrs by (auto simp: do_convert_eq p_def)
    then show ?thesis using Some u tsk by (auto simp: exec returned_def in_user_def same_group_def p_def)
  next
    case None
    let ?t = "\<lparr>t_pid = tsk_pid tsk, t_current_fid = NO_FIBERS\<rparr>" and ?k = "tg_fid_count tg + 1"
    let ?f = "new_fiber tg ?t tsk"
    have t: "get_thread e (tsk_pid tsk) tg = None" using None thrs by (auto simp: p_def)
    obtain ks1 ks2 where k: "kmalloc e ks = (True, ks1)" "kmalloc e ks1 = (True, ks2)" using ok by (simp add: kmalloc_def Let_def)
    have s': "ks' = set_group e (convert_group e tsk tg) ks2 \<and> tsk' = tsk \<and> r = ?k"
      using cv fg t k by (auto simp: do_convert_eq)
    have new: "fiber_with ?k p tsk = ?f" by (rule fiber_with_new) (simp add: p_def)
    have unlocked: "info_state (f_info (spin_trylock ?f)) = 0" by (simp add: spin_trylock_def)
    have fin: "kpc_of ?s' = (kpc_of s)(p := User (scast ?k))" "task_of ?s' = task_of s" "fid_count ?s' = ?k"
      "fibs ?s' = (fibs s)(?k \<mapsto> enter_fiber tsk p ?f)" "thrs ?s' = (thrs s)(p \<mapsto> \<lparr>t_pid = p, t_current_fid = ?k\<rparr>)"
      using None tsk count unlocked by (simp_all add: exec Let_def new enter_accesses)
    show ?thesis unfolding s' [THEN conjunct1] returned_def
    proof (intro conjI)
      show "same_group e (set_group e (convert_group e tsk tg) ks2) (tsk_tgid tsk) ?s'"
        by (rule same_group_store [OF g(1)])
          (use g(2) kmalloc_groups [OF k(1)] kmalloc_groups [OF k(2)] in
            \<open>auto simp: fin convert_group_def Let_def table_simps fibs thrs p_def enter_fiber_def\<close>)
    qed (use s' tsk fin in \<open>auto simp: p_def\<close>)
  qed
qed

section \<open>The storage handlers\<close>

lemma in_user_same:
  "in_user e ks tsk s \<Longrightarrow> s' = go (tsk_pid tsk) (User r) s \<Longrightarrow> returned e tsk ks tsk r s s'"
  by (auto simp: in_user_def returned_def same_group_def go_def)

text \<open>What a storage call does to the storage of the current fiber, and its result.\<close>

fun storage_op :: "call \<Rightarrow> fls_t \<Rightarrow> fls_t \<times> c_long" where
  "storage_op Fls_Alloc x = fls_alloc_slot x"
| "storage_op (Fls_Get i) x = (x, fls_get_slot x (unat i))"
| "storage_op (Fls_Free i) x = fls_free_slot x (unat i)"
| "storage_op (Fls_Set i v) x = fls_set_slot x (unat i) v"
| "storage_op c x = (x, 0)"

fun storage_call :: "call \<Rightarrow> bool" where
  "storage_call Fls_Alloc = True"
| "storage_call (Fls_Get i) = True"
| "storage_call (Fls_Free i) = True"
| "storage_call (Fls_Set i v) = True"
| "storage_call c = False"

text \<open>The error of a call whose index is checked and found bad.\<close>

fun index_error :: "call \<Rightarrow> c_long option" where
  "index_error (Fls_Get i) = (if bad_index i then Some (- ESRCH) else None)"
| "index_error (Fls_Free i) = (if bad_index i then Some (- EINVAL) else None)"
| "index_error (Fls_Set i v) = (if bad_index i then Some (- EINVAL) else None)"
| "index_error c = None"

lemma uninterrupted_two:
  "uninterrupted p a s = finish 12 p (fine_step p Step (fine_step p Step (fine_step p a s)))"
  by (simp add: uninterrupted_def numeral_eq_Suc)

lemma finish_go [simp]: "finish n p (go p (User r) s) = go p (User r) s"
  by (rule finish_user) (simp add: go_def)

lemma fine_step_go [simp]:
  "fine_step p Step (go p (User r) s) = go p (User r) s"
  "(\<And>r. c \<noteq> User r) \<Longrightarrow> fine_step p Step (go p c s) = kstep p c (go p c s)"
  by (simp_all add: fine_step_def go_def split: kpc.split)

lemma go_storage [simp]:
  "fls_at (go p c s) = fls_at s" "slot_used (go p c s) = slot_used s" "on_fiber k g (go p c s) = go p c (on_fiber k g s)"
  "go p c (go p d s) = go p c s"
  by (simp_all add: fls_at_def slot_used_def fun_eq_iff on_fiber_def go_def)

lemma storage_run:
  assumes "storage_call c" "index_error c = None" "kpc_of s p = User r0" "thrs s p = Some t" "fibs s (t_current_fid t) = Some f"
    and "storage_op c (f_fls f) = (x, r)"
  shows "uninterrupted p (Call c) s = go p (User r) (on_fiber (t_current_fid t) (\<lambda>f. f\<lparr>f_fls := x\<rparr>) s)"
proof -
  have cur: "current_at s p = Some (t_current_fid t)" "fls_at s (t_current_fid t) = Some (f_fls f)"
    using assms(4,5) by (simp_all add: current_at_def fls_at_def)
  have change: "on_fiber (t_current_fid t) g s = on_fiber (t_current_fid t) (\<lambda>f. f\<lparr>f_fls := y\<rparr>) s" if "g f = f\<lparr>f_fls := y\<rparr>" for g y
    using assms(5) that by (simp add: on_fiber_def)
  have same: "on_fiber (t_current_fid t) (\<lambda>f'. f'\<lparr>f_fls := f_fls f\<rparr>) s = s"
    using assms(5) by (simp add: on_fiber_def fun_upd_idem)
  have start: "fine_step p (Call d) s = begin_call p (Call d) s" for d using assms(3) by (simp add: fine_step_def)
  note exec = uninterrupted_two start with_fiber_def cur same slot_used_def
  show ?thesis
  proof (cases c)
    case Fls_Alloc
    then show ?thesis using assms(5,6)
      by (auto simp: exec fls_alloc_slot_def change_slot_bit_def Let_def intro!: change arg_cong [where f = "go p _"] split: if_splits)
  next
    case (Fls_Get i)
    then show ?thesis using assms by (auto simp: exec fls_get_slot_def)
  next
    case (Fls_Free i)
    then show ?thesis using assms
      by (auto simp: exec fls_free_slot_def change_slot_bit_def intro!: change arg_cong [where f = "go p _"] split: if_splits)
  next
    case (Fls_Set i v)
    then show ?thesis using assms
      by (auto simp: exec fls_set_slot_def write_slot_def intro!: change arg_cong [where f = "go p _"] split: if_splits)
  qed (use assms in simp_all)
qed

lemma storage_uninterrupted:
  assumes u: "in_user e ks tsk s" and c: "storage_call c" and sys: "syscall e ks tsk c = Done ks' tsk' r"
  shows "returned e tsk ks' tsk' r s (uninterrupted (tsk_pid tsk) (Call c) s)"
proof -
  define p where "p = tsk_pid tsk"
  obtain tg r0 where g: "get_group e (tsk_tgid tsk) ks = Some tg" "tg_tgid tg = tsk_tgid tsk" and count: "fid_count s = tg_fid_count tg"
    and fibs: "\<And>k. fibs s k = get_fiber e k tg" and thrs: "\<And>q. thrs s q = get_thread e q tg"
    and tsk: "task_of s p = tsk" and user: "kpc_of s p = User r0"
    using in_userD [OF u] unfolding p_def by metis
  have start: "fine_step p (Call d) s = begin_call p (Call d) s" for d using user by (simp add: fine_step_def)
  show ?thesis
  proof (cases "index_error c")
    case (Some r')
    then have "uninterrupted p (Call c) s = go p (User r') s" "ks' = ks \<and> tsk' = tsk \<and> r = r'"
      using c sys by (cases c; auto simp: uninterrupted_two start do_fls_get_value_def do_fls_free_def do_fls_set_value_def split: if_splits)+
    then show ?thesis using in_user_same [OF u] by (auto simp: p_def)
  next
    case None
    show ?thesis
    proof (cases "find_current e ks tsk")
      case no: None
      then have "current_at s p = None \<or> (\<exists>k. current_at s p = Some k \<and> fibs s k = None)"
        using g(1) fibs thrs by (auto simp: find_current_def current_at_def p_def split: option.splits)
      then have "uninterrupted p (Call c) s = go p (User (- ESRCH)) s"
        using c None by (cases c) (auto simp: uninterrupted_two start with_fiber_def split: if_splits)
      moreover have "ks' = ks \<and> tsk' = tsk \<and> r = - ESRCH"
        using c None no sys by (cases c) (auto simp: do_fls_alloc_def do_fls_get_value_def do_fls_free_def do_fls_set_value_def split: if_splits)
      ultimately show ?thesis using in_user_same [OF u] by (auto simp: p_def)
    next
      case (Some y)
      then obtain t f where cur: "find_current e ks tsk = Some (tg, t, f)" "thrs s p = Some t" "fibs s (t_current_fid t) = Some f"
        using g(1) fibs thrs by (auto simp: find_current_def p_def split: option.splits)
      obtain x r' where x: "storage_op c (f_fls f) = (x, r')" by (meson surj_pair)
      note run = storage_run [OF c None user cur(2,3) x]
      have at: "get_fiber e j (mod_fiber e (t_current_fid t) (\<lambda>f. f\<lparr>f_fls := x\<rparr>) tg) =
          fibs (on_fiber (t_current_fid t) (\<lambda>f. f\<lparr>f_fls := x\<rparr>) s) j" for j
        using fibs by (simp add: on_fiber_def table_simps)
      have "same_group e (put_fls e ks tg t x) (tsk_tgid tsk) (go p (User r') (on_fiber (t_current_fid t) (\<lambda>f. f\<lparr>f_fls := x\<rparr>) s))"
        unfolding put_fls_def using g count thrs at
        by (intro same_group_store [OF g(1)]) (simp_all add: go_def on_fiber_def table_simps)
      moreover have "same_group e ks (tsk_tgid tsk) (go p (User r') (on_fiber (t_current_fid t) (\<lambda>f. f\<lparr>f_fls := x\<rparr>) s))" if "x = f_fls f"
        using that g count fibs thrs cur(3) by (auto simp: same_group_def go_def on_fiber_def fun_upd_idem)
      moreover have "r = r' \<and> tsk' = tsk \<and> (ks' = put_fls e ks tg t x \<or> x = f_fls f \<and> ks' = ks)"
        using c None cur(1) sys x
        by (cases c) (auto simp: do_fls_alloc_def do_fls_get_value_def do_fls_free_def do_fls_set_value_def split: if_splits)
      ultimately show ?thesis using run tsk by (auto simp: returned_def p_def go_def on_fiber_def)
    qed
  qed
qed

section \<open>The equivalence\<close>


definition demo_fine :: fine where
  "demo_fine = \<lparr>fibs = (\<lambda>k. get_fiber demo_env k demo_group), thrs = (\<lambda>q. get_thread demo_env q demo_group),
     fid_count = tg_fid_count demo_group, task_of = (\<lambda>p. demo_task p 40), kpc_of = (\<lambda>_. User 0),
     left_at = (\<lambda>_. PREPARE_CONTEXT (demo_task 100 40)), known = (\<lambda>_. True)\<rparr>"


end
