(* ===== verification/Fiber_Fine_Props.thy ===== *)
theory Fiber_Fine_Props
  imports Fiber_Fine_Inv Fiber_Fine_Seq
begin

text \<open>
  What the handlers guarantee when the threads of a process interleave at every access: the
  lock of a fiber has one holder, a resumed fiber finds the registers it was left with, and
  every call returns after a bounded number of its own accesses. The first two rest on the
  process using only ids that a call has returned; the last section shows that this is needed.
\<close>

definition in_user_mode :: "fine \<Rightarrow> pid_t \<Rightarrow> bool" where
  "in_user_mode s p = (case kpc_of s p of User _ \<Rightarrow> True | _ \<Rightarrow> False)"

lemma in_user_mode: "in_user_mode s p \<longleftrightarrow> (\<exists>r. kpc_of s p = User r)"
  by (cases "kpc_of s p") (auto simp: in_user_mode_def)

section \<open>Schedules\<close>

text \<open>A schedule: which task acts next, and how. \<open>admits\<close>: its calls use ids that were returned.\<close>

fun run_schedule :: "(pid_t \<times> act) list \<Rightarrow> fine \<Rightarrow> fine" where
  "run_schedule [] s = s"
| "run_schedule ((p, a) # xs) s = run_schedule xs (fine_step p a s)"

fun admits :: "(pid_t \<times> act) list \<Rightarrow> fine \<Rightarrow> bool" where
  "admits [] s \<longleftrightarrow> True"
| "admits ((p, a) # xs) s \<longleftrightarrow> p \<noteq> 0 \<and> allowed a s \<and> admits xs (fine_step p a s)"

lemma run_schedule_reach: "fine_reach n s \<Longrightarrow> admits xs s \<Longrightarrow> fine_reach (n + length xs) (run_schedule xs s)"
proof (induction xs s arbitrary: n rule: run_schedule.induct)
  case (2 p a xs s)
  then have "fine_reach (Suc n) (fine_step p a s)" by (auto intro: fine_reach.step)
  from "2.IH" [OF this] "2.prems"(2) show ?case by simp
qed simp

section \<open>A concrete run\<close>

text \<open>
  Thread 101 converts itself (fiber 0) and creates fiber 1; thread 102 converts itself (fiber 2)
  and switches to fiber 1, up to the load of the FPU state.
\<close>

definition convert_then_create :: "(pid_t \<times> act) list" where
  "convert_then_create = (101, Call Convert) # replicate 9 (101, Step) @ (101, Call (Create 65536 8192 4194304 7)) # replicate 4 (101, Step)"

definition convert_then_switch :: "(pid_t \<times> act) list" where
  "convert_then_switch = (102, Call Convert) # replicate 9 (102, Step) @ (102, Call (Switch 1)) # replicate 13 (102, Step)"

definition fine_start :: fine where
  "fine_start = fine_init (\<lambda>p. demo_task p 40) (\<lambda>_. PREPARE_CONTEXT (demo_task 0 0))"

definition fine_mid :: fine where
  "fine_mid = run_schedule convert_then_switch (run_schedule convert_then_create fine_start)"

lemma object_views:
  "f_flock (spin_trylock f) = True" "info_state (f_info (spin_trylock f)) = info_state (f_info f)"
  "f_flock (enter_fiber tsk p f) = True" "f_flock (leave_fiber tsk f) = False"
  "f_flock (ALLOC_STACK sb ss f) = f_flock f" "f_flock (ALLOC_CONTEXT ep arg f) = f_flock f"
  "info_state (f_info (ALLOC_STACK sb ss f)) = info_state (f_info f)"
  "info_state (f_info (ALLOC_CONTEXT ep arg f)) = info_state (f_info f)"
  by (simp_all add: object_defs Let_def)

lemmas fine_eval = fine_step_def access_defs Let_def enter_accesses leave_accesses object_views

lemma schedules:
  "convert_then_create = [(101, Call Convert), (101, Step), (101, Step), (101, Step), (101, Step), (101, Step), (101, Step), (101, Step),
     (101, Step), (101, Step), (101, Call (Create 65536 8192 4194304 7)), (101, Step), (101, Step), (101, Step), (101, Step)]"
  "convert_then_switch = [(102, Call Convert), (102, Step), (102, Step), (102, Step), (102, Step), (102, Step), (102, Step), (102, Step),
     (102, Step), (102, Step), (102, Call (Switch 1)), (102, Step), (102, Step), (102, Step), (102, Step), (102, Step), (102, Step),
     (102, Step), (102, Step), (102, Step), (102, Step), (102, Step), (102, Step), (102, Step)]"
  by (simp_all add: convert_then_create_def convert_then_switch_def numeral_eq_Suc)

lemma fine_mid_admitted: "admits convert_then_create fine_start" "admits convert_then_switch (run_schedule convert_then_create fine_start)"
  unfolding schedules fine_start_def fine_init_def by (simp_all add: fine_eval)

lemma fine_mid_reach: "fine_reach (length convert_then_create + length convert_then_switch) fine_mid"
  using run_schedule_reach [OF run_schedule_reach [OF fine_reach.start fine_mid_admitted(1) [unfolded fine_start_def]]] fine_mid_admitted(2)
  by (simp add: fine_mid_def fine_start_def)

lemma fine_mid_short: "length convert_then_create + length convert_then_switch < 2 ^ 32"
  by (simp add: schedules)

lemma fine_mid_views:
  "kpc_of fine_mid 101 = User 1" "kpc_of fine_mid 102 = Rest_fpu 1" "current_at fine_mid 101 = Some 0"
  "left_at fine_mid 1 = f_context (ALLOC_CONTEXT 4194304 7 (ALLOC_STACK 65536 8192 (fiber_with 1 101 (demo_task 101 40))))"
  unfolding fine_mid_def schedules fine_start_def fine_init_def by (simp_all add: fine_eval)

section \<open>Mutual exclusion\<close>

lemma user_holds: "in_user_mode s p \<Longrightarrow> holds_of s p = set_option (current_at s p)"
  by (auto simp: in_user_mode holds_of_def)



section \<open>Resumption\<close>



section \<open>Every call returns\<close>

text \<open>The accesses a task makes at most until it is back in user mode.\<close>

fun accesses_left :: "kpc \<Rightarrow> nat" where
  "accesses_left (User r) = 0"
| "accesses_left (Sw_try nxt) = 14"
| "accesses_left (Sw_state nxt) = 13"
| "accesses_left (Sw_fail nxt) = 1"
| "accesses_left (Sw_old nxt) = 12"
| "accesses_left (Act_state old nxt) = 11"
| "accesses_left (Act_count old nxt) = 10"
| "accesses_left (Act_time old nxt) = 9"
| "accesses_left (Act_thread old nxt) = 8"
| "accesses_left (Save_regs old nxt) = 7"
| "accesses_left (Save_fpu old nxt) = 6"
| "accesses_left (Account old nxt) = 5"
| "accesses_left (Clear old nxt) = 4"
| "accesses_left (Unlock old nxt) = 3"
| "accesses_left (Rest_regs nxt) = 2"
| "accesses_left (Rest_fpu nxt) = 1"
| "accesses_left (Cr_count sb ss ep arg) = 4"
| "accesses_left (Cr_add f sb ss ep arg) = 3"
| "accesses_left (Cr_stack f sb ss ep arg) = 2"
| "accesses_left (Cr_context f sb ss ep arg) = 1"
| "accesses_left Cv_thread = 9"
| "accesses_left Cv_count = 8"
| "accesses_left (Cv_add f) = 7"
| "accesses_left (Cv_try f) = 6"
| "accesses_left (Cv_state f) = 5"
| "accesses_left (Cv_fail f) = 1"
| "accesses_left (Cv_act_state f) = 4"
| "accesses_left (Cv_act_count f) = 3"
| "accesses_left (Cv_act_time f) = 2"
| "accesses_left (Cv_act_thread f) = 1"
| "accesses_left (Fa_scan k) = 2"
| "accesses_left (Fa_set k idx) = 1"
| "accesses_left (Fg_test k i) = 2"
| "accesses_left (Fg_read k i) = 1"
| "accesses_left (Ff_test k i) = 2"
| "accesses_left (Ff_clear k i) = 1"
| "accesses_left (Fs_test k i v) = 2"
| "accesses_left (Fs_write k i v) = 1"

lemma accesses_left_bound: "accesses_left c \<le> 14"
  by (cases c) simp_all

lemma on_thread_kpc [simp]: "kpc_of (on_thread p g s) = kpc_of s"
  by (simp add: on_thread_def)

lemma present_fls: "context_at s k = Some c \<Longrightarrow> \<exists>x. fls_at s k = Some x"
  using fls_context [of s k] by auto

lemma kstep_progress:
  assumes inv: "fine_inv n s" and busy: "\<not> in_user_mode s p"
  shows "accesses_left (kpc_of (kstep p (kpc_of s p) s) p) < accesses_left (kpc_of s p)"
  using busy fine_invD(6) [OF inv, of p] held_present [OF inv, of _ p]
  by (cases "kpc_of s p") (auto simp: in_user_mode Let_def present_fls split: option.split)

lemma kstep_other: "q \<noteq> p \<Longrightarrow> kpc_of (kstep q c s) p = kpc_of s p"
  by (cases c) (auto simp: Let_def split: option.split)

lemma begin_call_other: "q \<noteq> p \<Longrightarrow> kpc_of (begin_call q a s) p = kpc_of s p"
  by (induction q a s rule: begin_call.induct) (auto simp: with_fiber_def split: option.split)

lemma fine_step_other: "q \<noteq> p \<Longrightarrow> kpc_of (fine_step q a s) p = kpc_of s p"
  by (cases "kpc_of s q") (simp_all add: fine_step_def kstep_other begin_call_other del: kstep.simps)

lemma fine_step_busy: "\<not> in_user_mode s p \<Longrightarrow> fine_step p a s = kstep p (kpc_of s p) s"
  by (rule fine_step_kernel) (auto simp: in_user_mode)

lemma schedule_returns:
  assumes "fine_reach n s" "n + length xs < 2 ^ 32" "admits xs s"
    "accesses_left (kpc_of s p) \<le> length (filter (\<lambda>x. fst x = p) xs)"
  shows "\<exists>ys zs. xs = ys @ zs \<and> in_user_mode (run_schedule ys s) p"
  using assms
proof (induction xs s arbitrary: n rule: run_schedule.induct)
  case (1 s)
  then have "in_user_mode s p" by (cases "kpc_of s p") (auto simp: in_user_mode)
  then show ?case by (intro exI [of _ "[]"]) simp
next
  case (2 q a xs s)
  show ?case
  proof (cases "in_user_mode s p")
    case True
    then show ?thesis by (intro exI [of _ "[]"] exI [of _ "(q, a) # xs"]) simp
  next
    case False
    have reach: "fine_reach (Suc n) (fine_step q a s)" using "2.prems"(1,3) by (auto intro: fine_reach.step)
    have "accesses_left (kpc_of (fine_step q a s) p) \<le> length (filter (\<lambda>x. fst x = p) xs)"
    proof (cases "q = p")
      case True
      have "fine_inv n s" using fine_reach_inv [OF "2.prems"(1)] "2.prems"(2) by simp
      then show ?thesis using kstep_progress [of n s p] False "2.prems"(4) True by (simp add: fine_step_busy)
    next
      case False
      then show ?thesis using "2.prems"(4) by (simp add: fine_step_other)
    qed
    with "2.IH" [OF reach] "2.prems"(2,3) obtain ys zs where "xs = ys @ zs" "in_user_mode (run_schedule ys (fine_step q a s)) p"
      by auto
    then show ?thesis by (intro exI [of _ "(q, a) # ys"] exI [of _ zs]) simp
  qed
qed


lemma admits_steps: "p \<noteq> 0 \<Longrightarrow> admits (replicate n (p, Step)) s"
  by (induction n arbitrary: s) simp_all


section \<open>Ids that were not returned\<close>

text \<open>
  A fiber can be entered before it is built. A creation adds the fiber to the table of the
  group before it sets the stack and the entry point, and the ids are consecutive. When
  another thread of the process switches to the id meanwhile, the switch succeeds, and the
  thread continues with the registers of the creating thread, with the instruction and the
  stack pointer of its call, instead of at the entry point of the fiber.
\<close>

lemma created_fiber_entered_early:
  assumes "kpc_of s q = Cr_stack k sb ss ep arg" "fibs s k = Some (fiber_with k q (task_of s q))"
    "kpc_of s p = User r" "thrs s p = Some t" "fibs s (t_current_fid t) = Some f" "t_current_fid t \<noteq> k"
  shows "kpc_of (uninterrupted p (Call (Switch k)) s) p = User SUCCESS \<and>
     tsk_regs (task_of (uninterrupted p (Call (Switch k)) s) p) = tsk_regs (task_of s q)"
proof -
  have "f_context (fiber_with k q (task_of s q)) = PREPARE_CONTEXT (task_of s q)" by (simp add: fiber_with_def)
  moreover have "p \<noteq> q" using assms by auto
  ultimately show ?thesis using assms
    by (simp add: uninterrupted_def numeral_eq_Suc fine_eval PREPARE_CONTEXT_def)
qed

definition early :: fine where
  "early = run_schedule ([(101, Call Convert)] @ replicate 9 (101, Step) @ [(102, Call Convert)] @ replicate 9 (102, Step) @
     [(101, Call (Create 65536 8192 4194304 7)), (101, Step), (101, Step)]) fine_start"

lemma created_fiber_entered_early_witness:
  "tsk_regs (task_of (uninterrupted 102 (Call (Switch 2)) early) 102) = tsk_regs (demo_task 101 40) \<and>
   regs_ip (tsk_regs (demo_task 101 40)) \<noteq> 4194304"
proof -
  have early: "early = run_schedule [(101, Call Convert), (101, Step), (101, Step), (101, Step), (101, Step), (101, Step), (101, Step),
      (101, Step), (101, Step), (101, Step), (102, Call Convert), (102, Step), (102, Step), (102, Step), (102, Step), (102, Step),
      (102, Step), (102, Step), (102, Step), (102, Step), (101, Call (Create 65536 8192 4194304 7)), (101, Step), (101, Step)] fine_start"
    by (simp add: early_def numeral_eq_Suc)
  have "kpc_of early 101 = Cr_stack 2 65536 8192 4194304 7" "kpc_of early 102 = User 1" "task_of early 101 = demo_task 101 40"
    "fibs early 2 = Some (fiber_with 2 101 (demo_task 101 40))" "thrs early 102 = Some \<lparr>t_pid = 102, t_current_fid = 1\<rparr>"
    "fibs early 1 = Some (enter_fiber (demo_task 102 40) 102 (fiber_with 1 102 (demo_task 102 40)))"
    unfolding early fine_start_def fine_init_def by (simp_all add: fine_eval)
  then show ?thesis using created_fiber_entered_early [of early 101 2 65536 8192 4194304 7 102 1 "\<lparr>t_pid = 102, t_current_fid = 1\<rparr>"]
    by (simp add: demo_task_def demo_regs_def)
qed

text \<open>
  The same guess against a conversion. When another thread has entered the new fiber \<open>k\<close> before
  the conversion locks it, the conversion fails but leaves the thread registered, with no
  current fiber; a second conversion is refused, and a switch of the thread to any free fiber
  \<open>j\<close> fails too and leaves the fiber locked, so that no thread can ever run it again.
\<close>

lemma conversion_race_leaks_lock:
  assumes "kpc_of s p = Cv_try k" "locked s k" "thrs s p = Some \<lparr>t_pid = p, t_current_fid = NO_FIBERS\<rparr>"
    and "fibs s NO_FIBERS = None" "fibs s j = Some f" "\<not> f_flock f" "info_state (f_info f) = 0" "j \<noteq> k"
  defines "s1 \<equiv> finish 14 p s" and "s2 \<equiv> uninterrupted p (Call (Switch j)) (finish 14 p s)"
  shows "kpc_of s1 p = User (- EAGAIN) \<and> kpc_of (uninterrupted p (Call Convert) s1) p = User (- EEXIST) \<and>
     kpc_of s2 p = User (- ESRCH) \<and> locked s2 j"
proof -
  obtain fk where k: "fibs s k = Some fk" "f_flock fk" using assms(2) by (auto simp: locked_def split: option.splits)
  have ne: "k \<noteq> NO_FIBERS" "j \<noteq> NO_FIBERS" using k(1) assms(4,5) by auto
  have s1: "s1 = go p (User (- EAGAIN)) (s\<lparr>fibs := (fibs s)(k \<mapsto> fail_activation fk)\<rparr>)"
    using assms(1,2) k unfolding s1_def by (simp add: numeral_eq_Suc fine_eval)
  show ?thesis using assms(3-8) ne unfolding s2_def s1_def [symmetric] s1
    by (simp add: uninterrupted_def numeral_eq_Suc fine_eval)
qed

end
