(* ===== verification/Fiber_Private.thy ===== *)
theory Fiber_Private
  imports Fiber_Fine_Props
begin

text \<open>
  What a task in the middle of a handler of \<open>Fiber_Fine\<close> can rely on: the context, the storage and the
  stack of a fiber that it runs or builds are changed by nobody else (\<open>body_kept\<close>), so what it has
  read or written before still holds at its next access (\<open>locals\<close>).
\<close>

section \<open>The part of a fiber that its owner alone uses\<close>

definition body_at :: "fine \<Rightarrow> pid_t \<Rightarrow> (context_t \<times> fls_t \<times> c_ulong) option" where
  "body_at s k = map_option (\<lambda>f. (f_context f, f_fls f, f_stack_limit f)) (fibs s k)"

text \<open>The fiber whose context, storage or stack the next access changes.\<close>

fun touched :: "kpc \<Rightarrow> pid_t option" where
  "touched (Save_regs old nxt) = Some old"
| "touched (Save_fpu old nxt) = Some old"
| "touched (Cr_add k sb ss ep arg) = Some k"
| "touched (Cr_stack k sb ss ep arg) = Some k"
| "touched (Cr_context k sb ss ep arg) = Some k"
| "touched (Cv_add k) = Some k"
| "touched (Fa_set k idx) = Some k"
| "touched (Ff_clear k i) = Some k"
| "touched (Fs_write k i v) = Some k"
| "touched _ = None"

lemma touched_owned: "touched pc = Some k \<Longrightarrow> current_ok c pc \<Longrightarrow> k \<in> held c pc \<or> (\<exists>b. pending pc = Some (k, b))"
  by (cases pc) auto

lemma on_fiber_body: "(\<And>f. f_context (g f) = f_context f \<and> f_fls (g f) = f_fls f \<and> f_stack_limit (g f) = f_stack_limit f) \<Longrightarrow>
    body_at (on_fiber k g s) = body_at s"
  by (auto simp: body_at_def on_fiber_def fun_eq_iff option.map_comp comp_def)

lemma body_views [simp]:
  "body_at (go p c s) = body_at s" "body_at (on_thread p g s) = body_at s" "body_at (s\<lparr>left_at := l\<rparr>) = body_at s"
  "body_at (s\<lparr>task_of := t\<rparr>) = body_at s" "body_at (s\<lparr>fid_count := n\<rparr>) = body_at s" "body_at (s\<lparr>known := b\<rparr>) = body_at s"
  "body_at (s\<lparr>thrs := m\<rparr>) = body_at s"
  "body_at (on_fiber k spin_trylock s) = body_at s" "body_at (on_fiber k spin_unlock s) = body_at s"
  "body_at (on_fiber k fail_activation s) = body_at s" "body_at (on_fiber k (set_state v) s) = body_at s"
  "body_at (on_fiber k count_activation s) = body_at s" "body_at (on_fiber k (stamp_activation u) s) = body_at s"
  "body_at (on_fiber k (account_time u) s) = body_at s"
  by (simp_all add: on_fiber_body spin_trylock_def spin_unlock_def fail_activation_def set_state_def count_activation_def
      stamp_activation_def account_time_def, simp_all add: body_at_def go_def on_thread_def fun_eq_iff)

lemma body_other_fiber [simp]:
  "j \<noteq> k \<Longrightarrow> body_at (on_fiber k g s) j = body_at s j" "j \<noteq> k \<Longrightarrow> body_at (s\<lparr>fibs := (fibs s)(k \<mapsto> f)\<rparr>) j = body_at s j"
  by (simp_all add: body_at_def on_fiber_def)

lemma body_added [simp]: "body_at (s\<lparr>fibs := (fibs s)(k \<mapsto> f)\<rparr>) k = Some (f_context f, f_fls f, f_stack_limit f)"
  by (simp add: body_at_def)

lemma body_changed [simp]: "body_at (on_fiber k g s) k = map_option (\<lambda>f. (f_context (g f), f_fls (g f), f_stack_limit (g f))) (fibs s k)"
  by (simp add: body_at_def on_fiber_def option.map_comp comp_def)

lemma kstep_body: "touched pc \<noteq> Some k \<Longrightarrow> body_at (kstep p pc s) k = body_at s k"
  by (cases pc) (auto simp: Let_def split: option.split)

lemma body_kept:
  assumes inv: "fine_inv n s" and q: "q \<noteq> p"
    and k: "k \<in> held (current_at s p) (kpc_of s p) \<or> pending (kpc_of s p) = Some (k, b)"
  shows "body_at (kstep q (kpc_of s q) s) k = body_at s k"
proof (rule kstep_body, rule notI)
  assume "touched (kpc_of s q) = Some k"
  then consider "k \<in> held (current_at s q) (kpc_of s q)" | c where "pending (kpc_of s q) = Some (k, c)"
    using touched_owned fine_invD(6) [OF inv] by blast
  then show False
  proof cases
    case 1
    then show False
      using k q not_held_by_other [OF inv _ q] pending_not_held_by_other [OF inv _ q] by (auto simp: holds_of_def)
  next
    case 2
    then show False using k q pending_not_held_by_other [OF inv 2, of p] idsD(7) [OF fine_invD(3) [OF inv] 2, of p]
      by (auto simp: holds_of_def)
  qed
qed

section \<open>What a task knows in the middle of a handler\<close>

fun local_ok :: "task \<Rightarrow> (pid_t \<Rightarrow> (context_t \<times> fls_t \<times> c_ulong) option) \<Rightarrow> kpc \<Rightarrow> bool" where
  "local_ok tsk body (Account old nxt) \<longleftrightarrow> (\<exists>x l. body old = Some (PREPARE_CONTEXT tsk, x, l))"
| "local_ok tsk body (Clear old nxt) \<longleftrightarrow> (\<exists>x l. body old = Some (PREPARE_CONTEXT tsk, x, l))"
| "local_ok tsk body (Unlock old nxt) \<longleftrightarrow> (\<exists>x l. body old = Some (PREPARE_CONTEXT tsk, x, l))"
| "local_ok tsk body (Cr_stack k sb ss ep arg) \<longleftrightarrow> (\<exists>l. body k = Some (PREPARE_CONTEXT tsk, PREPARE_FLS, l))"
| "local_ok tsk body (Cr_context k sb ss ep arg) \<longleftrightarrow> body k = Some (PREPARE_CONTEXT tsk, PREPARE_FLS, sb + ss)"
| "local_ok tsk body (Cv_try k) \<longleftrightarrow> (\<exists>c l. body k = Some (c, PREPARE_FLS, l))"
| "local_ok tsk body (Cv_state k) \<longleftrightarrow> (\<exists>c l. body k = Some (c, PREPARE_FLS, l))"
| "local_ok tsk body (Cv_act_state k) \<longleftrightarrow> (\<exists>c l. body k = Some (c, PREPARE_FLS, l))"
| "local_ok tsk body (Cv_act_count k) \<longleftrightarrow> (\<exists>c l. body k = Some (c, PREPARE_FLS, l))"
| "local_ok tsk body (Cv_act_time k) \<longleftrightarrow> (\<exists>c l. body k = Some (c, PREPARE_FLS, l))"
| "local_ok tsk body (Cv_act_thread k) \<longleftrightarrow> (\<exists>c l. body k = Some (c, PREPARE_FLS, l))"
| "local_ok tsk body (Fa_set k idx) \<longleftrightarrow>
     (\<exists>c x l. body k = Some (c, x, l) \<and> idx = find_first_zero_bit (fls_bmp x) FLS_MAX_SIZE \<and> idx < FLS_MAX_SIZE)"
| "local_ok tsk body (Fg_test k i) \<longleftrightarrow> \<not> bad_index i"
| "local_ok tsk body (Ff_test k i) \<longleftrightarrow> \<not> bad_index i"
| "local_ok tsk body (Fs_test k i v) \<longleftrightarrow> \<not> bad_index i"
| "local_ok tsk body (Fg_read k i) \<longleftrightarrow> \<not> bad_index i \<and> (\<exists>c x l. body k = Some (c, x, l) \<and> fls_bmp x (unat i))"
| "local_ok tsk body (Ff_clear k i) \<longleftrightarrow> \<not> bad_index i \<and> (\<exists>c x l. body k = Some (c, x, l) \<and> fls_bmp x (unat i))"
| "local_ok tsk body (Fs_write k i v) \<longleftrightarrow> \<not> bad_index i \<and> (\<exists>c x l. body k = Some (c, x, l) \<and> fls_bmp x (unat i))"
| "local_ok tsk body _ \<longleftrightarrow> True"

definition locals :: "fine \<Rightarrow> bool" where
  "locals s \<longleftrightarrow> (\<forall>p. local_ok (task_of s p) (body_at s) (kpc_of s p))"

lemma local_ok_cong:
  assumes "local_ok tsk body pc" "current_ok c pc"
    and "\<And>k. k \<in> held c pc \<Longrightarrow> body' k = body k" "\<And>k b. pending pc = Some (k, b) \<Longrightarrow> body' k = body k"
  shows "local_ok tsk body' pc"
  using assms by (cases pc) auto

lemma slot_used_body: "slot_used s k i \<Longrightarrow> \<exists>c x. (\<exists>l. body_at s k = Some (c, x, l)) \<and> fls_bmp x i"
  by (auto simp: slot_used_def fls_at_def body_at_def split: option.splits)

lemma fls_body: "fls_at s k = Some x \<Longrightarrow> \<exists>c l. body_at s k = Some (c, x, l)"
  by (auto simp: fls_at_def body_at_def)

lemma local_own:
  assumes inv: "fine_inv n s" and l: "local_ok (task_of s p) (body_at s) (kpc_of s p)"
  shows "local_ok (task_of (kstep p (kpc_of s p) s) p) (body_at (kstep p (kpc_of s p) s)) (kpc_of (kstep p (kpc_of s p) s) p)"
proof (cases "kpc_of s p")
  case (Save_fpu old nxt)
  then obtain f where f: "fibs s old = Some f" using held_present [OF inv, of old p] by (auto simp: context_at_def)
  then have "context_at s old = Some (f_context f)" by (simp add: context_at_def)
  then have "ctx_regs (f_context f) = tsk_regs (task_of s p)"
    using fine_invD(4) [OF inv] Save_fpu unfolding contexts_left_def by blast
  then have "f_context (store_fpu (task_of s p) f) = PREPARE_CONTEXT (task_of s p)"
    by (simp add: store_fpu_def PREPARE_CONTEXT_def)
  then show ?thesis using Save_fpu f by simp
next
  case (Cr_stack k sb ss ep arg)
  then obtain f where "fibs s k = Some f" "f_context f = PREPARE_CONTEXT (task_of s p)" "f_fls f = PREPARE_FLS"
    using l by (auto simp: body_at_def)
  then show ?thesis using Cr_stack by (simp add: ALLOC_STACK_def)
next
  case (Fa_scan k)
  then show ?thesis using fls_body [of s k] by (auto simp: Let_def split: option.split)
qed (use l in \<open>auto simp: Let_def fiber_with_def slot_used_body split: option.split\<close>)

lemma kstep_task: "q \<noteq> p \<Longrightarrow> task_of (kstep q c s) p = task_of s p"
  by (cases c) (auto simp: Let_def split: option.split)

lemma kstep_locals:
  assumes inv: "fine_inv n s" and l: "locals s"
  shows "locals (kstep q (kpc_of s q) s)"
  unfolding locals_def
proof
  fix p
  have lp: "local_ok (task_of s p) (body_at s) (kpc_of s p)" using l by (simp add: locals_def)
  show "local_ok (task_of (kstep q (kpc_of s q) s) p) (body_at (kstep q (kpc_of s q) s)) (kpc_of (kstep q (kpc_of s q) s) p)"
  proof (cases "q = p")
    case True
    then show ?thesis using local_own [OF inv lp] by simp
  next
    case False
    show ?thesis unfolding kstep_other [OF False] kstep_task [OF False]
      by (rule local_ok_cong [OF lp fine_invD(6) [OF inv]]) (use body_kept [OF inv False] in blast)+
  qed
qed

lemma begin_call_views [simp]:
  "body_at (begin_call p a s) = body_at s" "context_at (begin_call p a s) = context_at s" "current_at (begin_call p a s) = current_at s"
  "known (begin_call p a s) = known s" "fls_at (begin_call p a s) = fls_at s"
  by (induction p a s rule: begin_call.induct)
    (auto simp: with_fiber_def body_at_def context_at_def current_at_def fls_at_def go_def fun_eq_iff split: option.split)

lemma begin_call_locals:
  assumes "locals s" "kpc_of s p = User r"
  shows "locals (begin_call p a s)"
  unfolding locals_def
proof
  fix q
  show "local_ok (task_of (begin_call p a s) q) (body_at (begin_call p a s)) (kpc_of (begin_call p a s) q)"
  proof (cases "q = p")
    case False
    then have "task_of (begin_call p a s) q = task_of s q"
      by (induction p a s rule: begin_call.induct) (auto simp: with_fiber_def split: option.split)
    then show ?thesis using assms(1) False begin_call_other [of p q a s] by (simp add: locals_def)
  next
    case True
    show ?thesis unfolding True using assms(2)
      by (induction p a s rule: begin_call.induct) (auto simp: with_fiber_def split: option.split)
  qed
qed

lemma fine_step_locals: "fine_inv n s \<Longrightarrow> locals s \<Longrightarrow> locals (fine_step p a s)"
  using begin_call_locals [of s p _ a] kstep_locals [of n s p] by (cases "kpc_of s p") (simp_all add: fine_step_def del: kstep.simps)

lemma fine_reach_locals: "fine_reach n s \<Longrightarrow> n < 2 ^ 32 \<Longrightarrow> locals s"
proof (induction rule: fine_reach.induct)
  case (start tsk l)
  show ?case by (simp add: locals_def fine_init_def)
next
  case (step n s p a)
  then show ?case using fine_step_locals fine_reach_inv [OF step.hyps(1)] by simp
qed

end
