(* ===== verification/Fiber_Atomic.thy ===== *)
theory Fiber_Atomic
  imports Fiber_Fine_Seq
begin

text \<open>
  What the fibers of a process promise to threads that use them at the same time, as an atomic
  object: every call takes effect in one step, at some moment between its start and its
  return. There are no locks, no counters and no half-saved contexts here. A fiber is either run
  by a thread or idle with a context; a switch exchanges the two.
\<close>

section \<open>States\<close>

text \<open>A thread is outside of a call, inside of one, or the call is over and has yet to return.\<close>

datatype phase = Out c_long | In call | Over c_long

record atomic =
  runs :: "pid_t \<Rightarrow> pid_t option"
  idle :: "pid_t \<rightharpoonup> context_t"
  store :: "pid_t \<rightharpoonup> fls_t"
  cpu :: "pid_t \<Rightarrow> context_t"
  phase :: "pid_t \<Rightarrow> phase"

definition atomic_start :: "(pid_t \<Rightarrow> context_t) \<Rightarrow> atomic" where
  "atomic_start c = \<lparr>runs = Map.empty, idle = Map.empty, store = Map.empty, cpu = c, phase = (\<lambda>_. Out 0)\<rparr>"

definition enter_phase :: "pid_t \<Rightarrow> phase \<Rightarrow> atomic \<Rightarrow> atomic" where
  "enter_phase p f A = A\<lparr>phase := (phase A)(p := f)\<rparr>"

text \<open>The context of a new fiber: that of its creator, at the entry point with the argument, on the new stack.\<close>

definition start_context :: "addr \<Rightarrow> c_ulong \<Rightarrow> c_ulong \<Rightarrow> addr \<Rightarrow> context_t \<Rightarrow> context_t" where
  "start_context sb ss ep arg c =
     c\<lparr>ctx_regs := (ctx_regs c)\<lparr>regs_ip := ep, regs_di := arg, regs_sp := sb + ss - 8, regs_bp := sb + ss - 8\<rparr>\<rparr>"

section \<open>Steps\<close>

text \<open>
  A switch may fail for two reasons only: the target is not idle, or another thread is just
  switching to it. A creation and a conversion give an id that no fiber has.
\<close>

inductive atomic_step :: "pid_t \<Rightarrow> atomic \<Rightarrow> atomic \<Rightarrow> bool" where
  compute: "phase A p = Out r \<Longrightarrow> atomic_step p A (A\<lparr>cpu := (cpu A)(p := c)\<rparr>)"
| call: "phase A p = Out r \<Longrightarrow> atomic_step p A (enter_phase p (In c) A)"
| return: "phase A p = Over r \<Longrightarrow> atomic_step p A (enter_phase p (Out r) A)"
| switched: "phase A p = In (Switch nxt) \<Longrightarrow> runs A p = Some old \<Longrightarrow> idle A nxt = Some c \<Longrightarrow>
    atomic_step p A (enter_phase p (Over SUCCESS) (A\<lparr>runs := (runs A)(p \<mapsto> nxt),
      idle := ((idle A)(old \<mapsto> cpu A p))(nxt := None), cpu := (cpu A)(p := c)\<rparr>))"
| busy: "phase A p = In (Switch nxt) \<Longrightarrow> idle A nxt = None \<or> (\<exists>q. q \<noteq> p \<and> phase A q = In (Switch nxt)) \<Longrightarrow>
    atomic_step p A (enter_phase p (Over (- EAGAIN)) A)"
| created: "phase A p = In (Create sb ss ep arg) \<Longrightarrow> runs A p = Some old \<Longrightarrow> store A k = None \<Longrightarrow>
    atomic_step p A (enter_phase p (Over (scast k)) (A\<lparr>idle := (idle A)(k \<mapsto> start_context sb ss ep arg (cpu A p)),
      store := (store A)(k \<mapsto> PREPARE_FLS)\<rparr>))"
| converted: "phase A p = In Convert \<Longrightarrow> runs A p = None \<Longrightarrow> store A k = None \<Longrightarrow>
    atomic_step p A (enter_phase p (Over (scast k)) (A\<lparr>runs := (runs A)(p \<mapsto> k), store := (store A)(k \<mapsto> PREPARE_FLS)\<rparr>))"
| converted_before: "phase A p = In Convert \<Longrightarrow> runs A p = Some old \<Longrightarrow> atomic_step p A (enter_phase p (Over (- EEXIST)) A)"
| stored: "phase A p = In c \<Longrightarrow> storage_call c \<Longrightarrow> index_error c = None \<Longrightarrow> runs A p = Some k \<Longrightarrow> store A k = Some x \<Longrightarrow>
    storage_op c x = (y, r) \<Longrightarrow> atomic_step p A (enter_phase p (Over r) (A\<lparr>store := (store A)(k \<mapsto> y)\<rparr>))"
| bad_slot: "phase A p = In c \<Longrightarrow> index_error c = Some r \<Longrightarrow> atomic_step p A (enter_phase p (Over r) A)"
| no_fiber: "phase A p = In c \<Longrightarrow> c \<noteq> Convert \<Longrightarrow> index_error c = None \<Longrightarrow> runs A p = None \<Longrightarrow>
    atomic_step p A (enter_phase p (Over (- ESRCH)) A)"

inductive atomic_reach :: "atomic \<Rightarrow> bool" where
  start: "atomic_reach (atomic_start c)"
| step: "atomic_reach A \<Longrightarrow> atomic_step p A B \<Longrightarrow> atomic_reach B"

inductive_simps atomic_step_simps: "atomic_step p A B"

section \<open>What the object promises\<close>

text \<open>A fiber that a thread runs is not idle and nobody else runs it; every fiber has a storage.\<close>

definition atomic_inv :: "atomic \<Rightarrow> bool" where
  "atomic_inv A \<longleftrightarrow>
     (\<forall>p k. runs A p = Some k \<longrightarrow> idle A k = None \<and> store A k \<noteq> None) \<and>
     (\<forall>p q k. runs A p = Some k \<and> runs A q = Some k \<longrightarrow> p = q) \<and>
     (\<forall>k. idle A k \<noteq> None \<longrightarrow> store A k \<noteq> None)"

lemma atomic_step_inv: "atomic_step p A B \<Longrightarrow> atomic_inv A \<Longrightarrow> atomic_inv B"
proof (induction rule: atomic_step.induct)
  case (created A p sb ss ep arg old k)
  then show ?case by (fastforce simp: atomic_inv_def enter_phase_def)
next
  case (converted A p k)
  then show ?case by (fastforce simp: atomic_inv_def enter_phase_def)
qed (auto simp: atomic_inv_def enter_phase_def split: if_splits)

lemma atomic_reach_inv: "atomic_reach A \<Longrightarrow> atomic_inv A"
proof (induction rule: atomic_reach.induct)
  case (start c)
  show ?case by (simp add: atomic_inv_def atomic_start_def)
qed (rule atomic_step_inv)

lemma atomic_reach_steps: "(atomic_step p)\<^sup>*\<^sup>* A B \<Longrightarrow> atomic_reach A \<Longrightarrow> atomic_reach B"
  by (induction rule: rtranclp_induct) (auto intro: atomic_reach.step)

end
