(* ===== verification/Fiber_Refine.thy ===== *)
theory Fiber_Refine
  imports Fiber_Private Fiber_Atomic
begin

text \<open>
  The interleaved handlers of \<open>Fiber_Fine\<close> implement the atomic object of \<open>Fiber_Atomic\<close>. Every
  access of a handler is matched by steps of the object, most of them by none; a switch takes
  effect when it unlocks the fiber that is left, a creation and a conversion when they return.
\<close>

section \<open>The abstraction\<close>

text \<open>The fiber that a thread runs: the old one until the switch unlocks it, none during a conversion.\<close>

fun run_at :: "pid_t option \<Rightarrow> kpc \<Rightarrow> pid_t option" where
  "run_at c (Save_regs old nxt) = Some old"
| "run_at c (Save_fpu old nxt) = Some old"
| "run_at c (Account old nxt) = Some old"
| "run_at c (Clear old nxt) = Some old"
| "run_at c (Unlock old nxt) = Some old"
| "run_at c Cv_count = None"
| "run_at c (Cv_add k) = None"
| "run_at c (Cv_try k) = None"
| "run_at c (Cv_state k) = None"
| "run_at c (Cv_fail k) = None"
| "run_at c (Cv_act_state k) = None"
| "run_at c (Cv_act_count k) = None"
| "run_at c (Cv_act_time k) = None"
| "run_at c (Cv_act_thread k) = None"
| "run_at c _ = c"

fun phase_at :: "kpc \<Rightarrow> phase" where
  "phase_at (User r) = Out r"
| "phase_at (Sw_try nxt) = In (Switch nxt)"
| "phase_at (Sw_state nxt) = In (Switch nxt)"
| "phase_at (Sw_old nxt) = In (Switch nxt)"
| "phase_at (Sw_fail nxt) = Over (- EAGAIN)"
| "phase_at (Act_state old nxt) = In (Switch nxt)"
| "phase_at (Act_count old nxt) = In (Switch nxt)"
| "phase_at (Act_time old nxt) = In (Switch nxt)"
| "phase_at (Act_thread old nxt) = In (Switch nxt)"
| "phase_at (Save_regs old nxt) = In (Switch nxt)"
| "phase_at (Save_fpu old nxt) = In (Switch nxt)"
| "phase_at (Account old nxt) = In (Switch nxt)"
| "phase_at (Clear old nxt) = In (Switch nxt)"
| "phase_at (Unlock old nxt) = In (Switch nxt)"
| "phase_at (Rest_regs nxt) = Over SUCCESS"
| "phase_at (Rest_fpu nxt) = Over SUCCESS"
| "phase_at (Cr_count sb ss ep arg) = In (Create sb ss ep arg)"
| "phase_at (Cr_add k sb ss ep arg) = In (Create sb ss ep arg)"
| "phase_at (Cr_stack k sb ss ep arg) = In (Create sb ss ep arg)"
| "phase_at (Cr_context k sb ss ep arg) = In (Create sb ss ep arg)"
| "phase_at (Fa_scan k) = In Fls_Alloc"
| "phase_at (Fa_set k idx) = In Fls_Alloc"
| "phase_at (Fg_test k i) = In (Fls_Get i)"
| "phase_at (Fg_read k i) = In (Fls_Get i)"
| "phase_at (Ff_test k i) = In (Fls_Free i)"
| "phase_at (Ff_clear k i) = In (Fls_Free i)"
| "phase_at (Fs_test k i v) = In (Fls_Set i v)"
| "phase_at (Fs_write k i v) = In (Fls_Set i v)"
| "phase_at _ = In Convert"

text \<open>After the switch the registers are those of the target, although they are loaded one access later.\<close>

fun cpu_at :: "task \<Rightarrow> (pid_t \<Rightarrow> context_t option) \<Rightarrow> kpc \<Rightarrow> context_t" where
  "cpu_at tsk ctx (Rest_regs nxt) = the (ctx nxt)"
| "cpu_at tsk ctx (Rest_fpu nxt) = the (ctx nxt)"
| "cpu_at tsk ctx _ = PREPARE_CONTEXT tsk"

definition runs_of :: "fine \<Rightarrow> pid_t \<Rightarrow> pid_t option" where
  "runs_of s p = run_at (current_at s p) (kpc_of s p)"

definition idle_of :: "fine \<Rightarrow> pid_t \<Rightarrow> context_t option" where
  "idle_of s k = (if known s k \<and> (\<forall>p. runs_of s p \<noteq> Some k) then context_at s k else None)"

definition store_of :: "fine \<Rightarrow> pid_t \<Rightarrow> fls_t option" where
  "store_of s k = (if known s k then fls_at s k else None)"

definition cpu_of :: "fine \<Rightarrow> pid_t \<Rightarrow> context_t" where
  "cpu_of s p = cpu_at (task_of s p) (context_at s) (kpc_of s p)"

definition atomic_of :: "fine \<Rightarrow> atomic" where
  "atomic_of s = \<lparr>runs = runs_of s, idle = idle_of s, store = store_of s, cpu = cpu_of s,
     phase = (\<lambda>p. phase_at (kpc_of s p))\<rparr>"

lemma atomic_of_views [simp]:
  "runs (atomic_of s) = runs_of s" "idle (atomic_of s) = idle_of s" "store (atomic_of s) = store_of s"
  "cpu (atomic_of s) = cpu_of s" "phase (atomic_of s) p = phase_at (kpc_of s p)"
  by (simp_all add: atomic_of_def)

lemma enter_phase_twice [simp]: "enter_phase p f (enter_phase p g A) = enter_phase p f A"
  by (simp add: enter_phase_def)

lemma enter_phase_views [simp]: "phase (enter_phase p f A) p = f" "runs (enter_phase p f A) = runs A"
  by (simp_all add: enter_phase_def)

text \<open>The effect of a call is followed by its return.\<close>

lemma step_then_return:
  assumes "atomic_step p A (enter_phase p (Over r) B)" "C = enter_phase p (Out r) B"
  shows "(atomic_step p)\<^sup>*\<^sup>* A C"
proof -
  have "atomic_step p (enter_phase p (Over r) B) C"
    using atomic_step.return [of "enter_phase p (Over r) B" p r] assms(2) by simp
  with assms(1) show ?thesis by (rule converse_rtranclp_into_rtranclp [OF _ r_into_rtranclp])
qed

section \<open>Who runs what\<close>

lemma run_held: "run_at c pc = Some k \<Longrightarrow> current_ok c pc \<Longrightarrow> k \<in> held c pc"
  by (cases pc) auto

lemma held_run: "k \<in> held c pc \<Longrightarrow> current_ok c pc \<Longrightarrow> pending pc = None \<or> fst (the (pending pc)) \<noteq> k \<Longrightarrow>
    run_at c pc = Some k \<or> phase_at pc = In (Switch k)"
  by (cases pc) auto

lemma touched_run: "touched pc = Some k \<Longrightarrow> current_ok c pc \<Longrightarrow> run_at c pc = Some k \<or> (\<exists>b. pending pc = Some (k, b))"
  by (cases pc) auto

lemma runs_held: "fine_inv n s \<Longrightarrow> runs_of s p = Some k \<Longrightarrow> k \<in> holds_of s p"
  unfolding runs_of_def holds_of_def by (rule run_held [OF _ fine_invD(6)])

lemma one_runner:
  assumes "fine_inv n s" "runs_of s q = Some k" "k \<in> holds_of s p"
  shows "q = p"
  using exclusive_unique [OF fine_invD(5) [OF assms(1)] runs_held [OF assms(1,2)]] assms(3) by blast

lemma kstep_current: "q \<noteq> p \<Longrightarrow> current_at (kstep q c s) p = current_at s p"
  by (cases c) (auto simp: Let_def split: option.split)

lemma kstep_runs: "q \<noteq> p \<Longrightarrow> runs_of (kstep q c s) p = runs_of s p"
  by (simp add: runs_of_def kstep_current kstep_other del: kstep.simps)

section \<open>The frame of an access\<close>

text \<open>An idle fiber and the registers of another task are not changed by an access.\<close>

lemma untouched:
  assumes "fine_inv n s" "known s k" "runs_of s p \<noteq> Some k"
  shows "body_at (kstep p (kpc_of s p) s) k = body_at s k"
proof (rule kstep_body, rule notI)
  assume "touched (kpc_of s p) = Some k"
  then show False using touched_run [OF _ fine_invD(6) [OF assms(1)]] assms(2,3) idsD(4) [OF fine_invD(3) [OF assms(1)]]
    unfolding runs_of_def by blast
qed

lemma body_context: "body_at s' k = body_at s k \<Longrightarrow> context_at s' k = context_at s k"
  by (cases "fibs s k"; cases "fibs s' k") (auto simp: body_at_def context_at_def)

lemma body_fls: "body_at s' k = body_at s k \<Longrightarrow> fls_at s' k = fls_at s k"
  by (cases "fibs s k"; cases "fibs s' k") (auto simp: body_at_def fls_at_def)

lemma kstep_cpu:
  assumes "fine_inv n s" "q \<noteq> p"
  shows "cpu_of (kstep q (kpc_of s q) s) p = cpu_of s p"
proof -
  have "k \<in> held (current_at s p) (kpc_of s p) \<Longrightarrow> context_at (kstep q (kpc_of s q) s) k = context_at s k" for k
    using body_context [OF body_kept [OF assms]] by blast
  then show ?thesis unfolding cpu_of_def kstep_other [OF assms(2)] kstep_task [OF assms(2)] by (cases "kpc_of s p") simp_all
qed

lemma kstep_idle:
  assumes inv: "fine_inv n s" and s': "s' = kstep p (kpc_of s p) s" "known s' = known s" "runs_of s' p = runs_of s p"
  shows "idle_of s' = idle_of s"
proof
  fix k
  have "runs_of s' q = runs_of s q" for q using s'(1,3) kstep_runs [of p q] by (cases "q = p") auto
  then show "idle_of s' k = idle_of s k"
    using body_context [OF untouched [OF inv, of k p]] s'(1,2) by (auto simp: idle_of_def)
qed

lemma kstep_atomic:
  assumes inv: "fine_inv n s" and s': "s' = kstep p (kpc_of s p) s" "known s' = known s"
    and run: "runs_of s' p = runs_of s p" and cpu: "cpu_of s' p = cpu_of s p" and f: "phase_at (kpc_of s' p) = f"
  shows "atomic_of s' = enter_phase p f ((atomic_of s)\<lparr>store := store_of s'\<rparr>)"
proof -
  have "runs_of s' = runs_of s" using run s'(1) kstep_runs [of p] by (metis ext)
  moreover have "cpu_of s' = cpu_of s" using cpu s'(1) kstep_cpu [OF inv, of p] by (metis ext)
  moreover have "(\<lambda>q. phase_at (kpc_of s' q)) = (\<lambda>q. phase_at (kpc_of s q))(p := f)"
    using f s'(1) kstep_other [of p] by auto
  ultimately show ?thesis using kstep_idle [OF inv s' run] by (simp add: atomic_of_def enter_phase_def)
qed

fun writes_slot :: "kpc \<Rightarrow> bool" where
  "writes_slot (Fa_set k idx) = True"
| "writes_slot (Ff_clear k i) = True"
| "writes_slot (Fs_write k i v) = True"
| "writes_slot _ = False"

lemma fls_views [simp]:
  "fls_at (go p c s) = fls_at s" "fls_at (on_thread p h s) = fls_at s" "fls_at (s\<lparr>left_at := l\<rparr>) = fls_at s"
  "fls_at (s\<lparr>task_of := t\<rparr>) = fls_at s" "fls_at (s\<lparr>fid_count := n\<rparr>) = fls_at s" "fls_at (s\<lparr>known := b\<rparr>) = fls_at s"
  "fls_at (s\<lparr>thrs := m\<rparr>) = fls_at s" "fls_at (s\<lparr>fibs := (fibs s)(k \<mapsto> f)\<rparr>) = (fls_at s)(k \<mapsto> f_fls f)"
  "fls_at (on_fiber k g s) = (fls_at s)(k := map_option (\<lambda>f. f_fls (g f)) (fibs s k))"
  by (auto simp: fls_at_def go_def on_thread_def on_fiber_def fun_eq_iff option.map_comp comp_def)

lemma fls_silent:
  "f_fls (spin_trylock f) = f_fls f" "f_fls (spin_unlock f) = f_fls f" "f_fls (fail_activation f) = f_fls f"
  "f_fls (set_state v f) = f_fls f" "f_fls (count_activation f) = f_fls f" "f_fls (stamp_activation u f) = f_fls f"
  "f_fls (account_time u f) = f_fls f" "f_fls (store_regs tsk f) = f_fls f" "f_fls (store_fpu tsk f) = f_fls f"
  "f_fls (ALLOC_STACK sb ss f) = f_fls f" "f_fls (ALLOC_CONTEXT ep arg f) = f_fls f"
  by (simp_all add: spin_trylock_def spin_unlock_def fail_activation_def set_state_def count_activation_def stamp_activation_def
      account_time_def store_regs_def store_fpu_def ALLOC_STACK_def ALLOC_CONTEXT_def Let_def)

lemma kstep_fls:
  assumes "\<not> writes_slot pc" "\<And>b. pending pc \<noteq> Some (k, b)"
  shows "fls_at (kstep p pc s) k = fls_at s k"
  using assms by (cases pc) (auto simp: fls_silent Let_def fls_at_def [symmetric] split: option.split)

lemma kstep_store:
  assumes "fine_inv n s" "s' = kstep p (kpc_of s p) s" "known s' = known s" "\<not> writes_slot (kpc_of s p)"
  shows "store_of s' = store_of s"
proof
  fix k
  have "known s k \<Longrightarrow> pending (kpc_of s p) \<noteq> Some (k, b)" for b using idsD(4) [OF fine_invD(3) [OF assms(1)]] by blast
  then show "store_of s' k = store_of s k" using kstep_fls [OF assms(4), of k p s] assms(2,3) by (auto simp: store_of_def)
qed

lemma kstep_phase:
  assumes "fine_inv n s" "s' = kstep p (kpc_of s p) s" "known s' = known s" "runs_of s' p = runs_of s p" "cpu_of s' p = cpu_of s p"
    "\<not> writes_slot (kpc_of s p)"
  shows "atomic_of s' = enter_phase p (phase_at (kpc_of s' p)) (atomic_of s)"
  unfolding kstep_atomic [OF assms(1-5) refl] kstep_store [OF assms(1-3,6)] by (simp add: atomic_of_def)

lemma same_phase: "phase A p = f \<Longrightarrow> enter_phase p f A = A"
  by (auto simp: enter_phase_def)

section \<open>The simulation, access by access\<close>

lemma silent_access:
  assumes inv: "fine_inv n s" and busy: "\<not> in_user_mode s p"
    and more: "phase_at (kpc_of (kstep p (kpc_of s p) s) p) = phase_at (kpc_of s p)"
  shows "atomic_of (kstep p (kpc_of s p) s) = atomic_of s"
proof -
  let ?s' = "kstep p (kpc_of s p) s"
  have ok: "current_ok (current_at s p) (kpc_of s p)" by (rule fine_invD(6) [OF inv])
  note held = held_present [OF inv, of _ p]
  have "known ?s' = known s" "\<not> writes_slot (kpc_of s p)"
    using busy more by (cases "kpc_of s p"; auto simp: in_user_mode Let_def split: option.splits if_splits)+
  moreover have "runs_of ?s' p = runs_of s p"
    using ok more by (cases "kpc_of s p") (auto simp: runs_of_def Let_def thrs_current split: option.split)
  moreover have "cpu_of ?s' p = cpu_of s p"
    using more by (cases "kpc_of s p") (auto simp: cpu_of_def Let_def split: option.split)
  ultimately show ?thesis using kstep_phase [OF inv refl] more same_phase [of "atomic_of s" p] by simp
qed

text \<open>A switch that finds the lock taken: somebody runs the fiber, or is just switching to it.\<close>

lemma taken_fiber:
  assumes inv: "fine_inv n s" and tr: "kpc_of s p = Sw_try nxt" "locked s nxt"
  shows "idle_of s nxt = None \<or> (\<exists>q. q \<noteq> p \<and> phase_at (kpc_of s q) = In (Switch nxt))"
proof -
  note ids = fine_invD(3) [OF inv]
  obtain q where q: "nxt \<in> held (current_at s q) (kpc_of s q)"
    using exclusive_owner [OF fine_invD(5) [OF inv] tr(2)] unfolding holds_of_def by blast
  have "known s nxt" by (rule idsD(9) [OF ids, of p]) (simp add: tr(1))
  then have "pending (kpc_of s q) = None \<or> fst (the (pending (kpc_of s q))) \<noteq> nxt"
    using idsD(4) [OF ids, of q] by (cases "pending (kpc_of s q)") auto
  then consider "runs_of s q = Some nxt" | "phase_at (kpc_of s q) = In (Switch nxt)" "q \<noteq> p"
    using held_run [OF q fine_invD(6) [OF inv]] q tr(1) unfolding runs_of_def by (cases "q = p") auto
  then show ?thesis by cases (auto simp: idle_of_def)
qed

lemma storage_access:
  assumes inv: "fine_inv n s" and pc: "phase_at (kpc_of s p) = In c" "storage_call c" "index_error c = None"
    and k: "runs_of s p = Some k" "pending (kpc_of s p) = None" "fls_at s k = Some x" "storage_op c x = (y, r)"
    and s': "s' = kstep p (kpc_of s p) s" "kpc_of s' p = User r" "fls_at s' = (fls_at s)(k \<mapsto> y)"
      "known s' = known s" "task_of s' = task_of s" "current_at s' = current_at s"
    and same: "run_at (current_at s p) (kpc_of s p) = current_at s p" "cpu_of s p = PREPARE_CONTEXT (task_of s p)"
  shows "(atomic_step p)\<^sup>*\<^sup>* (atomic_of s) (atomic_of s')"
proof (rule step_then_return)
  have known: "known s k"
    using idsD(8) [OF fine_invD(3) [OF inv] runs_held [OF inv k(1)]] k(2) by simp
  show "atomic_step p (atomic_of s) (enter_phase p (Over r) ((atomic_of s)\<lparr>store := (store_of s)(k \<mapsto> y)\<rparr>))"
    using atomic_step.stored [of "atomic_of s" p c k x y r] pc k known by (simp add: store_of_def)
  have "store_of s' = (store_of s)(k \<mapsto> y)" using s'(3,4) known by (auto simp: store_of_def)
  then show "atomic_of s' = enter_phase p (Out r) ((atomic_of s)\<lparr>store := (store_of s)(k \<mapsto> y)\<rparr>)"
    using kstep_atomic [OF inv s'(1,4) _ _ refl] s' same by (simp add: runs_of_def cpu_of_def)
qed

lemma unlock_access:
  assumes inv: "fine_inv n s" and loc: "locals s" and pc: "kpc_of s p = Unlock old nxt"
  shows "atomic_step p (atomic_of s) (atomic_of (kstep p (kpc_of s p) s))"
proof -
  let ?s' = "kstep p (kpc_of s p) s"
  note ids = fine_invD(3) [OF inv]
  have held: "old \<in> holds_of s p" "nxt \<in> holds_of s p" by (simp_all add: holds_of_def pc)
  have known: "known s old" "known s nxt" using idsD(8) [OF ids held(1)] idsD(8) [OF ids held(2)] pc by auto
  have cur: "current_at s p = Some nxt" "old \<noteq> nxt" using fine_invD(6) [OF inv, of p] pc by auto
  have runs: "runs_of s p = Some old" "runs_of ?s' = (runs_of s)(p \<mapsto> nxt)"
    using pc cur kstep_runs [of p] by (auto simp: runs_of_def)
  have old: "context_at s old = Some (PREPARE_CONTEXT (task_of s p))"
    using loc pc unfolding locals_def by (force simp: body_at_def context_at_def dest: spec [of _ p])
  obtain c where c: "context_at s nxt = Some c" using idsD(2) [OF ids known(2)] by auto
  have alone: "runs_of s q \<noteq> Some nxt" "q \<noteq> p \<Longrightarrow> runs_of s q \<noteq> Some old" for q
    using one_runner [OF inv _ held(2), of q] one_runner [OF inv _ held(1), of q] runs(1) cur(2) by auto
  have "idle_of ?s' = ((idle_of s)(old \<mapsto> cpu_of s p))(nxt := None)"
  proof
    fix k
    show "idle_of ?s' k = (((idle_of s)(old \<mapsto> cpu_of s p))(nxt := None)) k"
      using pc cur(2) runs alone(2) known(1) old by (auto simp: idle_of_def cpu_of_def)
  qed
  moreover have "cpu_of ?s' = (cpu_of s)(p := c)"
    using kstep_cpu [OF inv, of p] pc c by (auto simp: cpu_of_def)
  moreover have "store_of ?s' = store_of s" by (rule kstep_store [OF inv refl]) (simp_all add: pc)
  moreover have "(\<lambda>q. phase_at (kpc_of ?s' q)) = (\<lambda>q. phase_at (kpc_of s q))(p := Over SUCCESS)" using pc by auto
  moreover have "idle_of s nxt = Some c" using known(2) alone(1) c by (simp add: idle_of_def)
  ultimately show ?thesis using atomic_step.switched [of "atomic_of s" p nxt old c] runs pc
    by (simp add: enter_phase_def atomic_of_def del: kstep.simps)
qed

lemma restore_access:
  assumes inv: "fine_inv n s" and pc: "kpc_of s p = Rest_fpu nxt"
  shows "atomic_step p (atomic_of s) (atomic_of (kstep p (kpc_of s p) s))"
proof -
  have held: "nxt \<in> held (current_at s p) (kpc_of s p)" using pc by simp
  obtain c where c: "context_at s nxt = Some c" using held_present [OF inv held] by auto
  have "left_at s nxt = c" using left_context [OF inv c held] pc by simp
  moreover have "tsk_regs (task_of s p) = ctx_regs (left_at s nxt)"
    using fine_invD(4) [OF inv] pc unfolding contexts_left_def by blast
  ultimately have "atomic_of (kstep p (kpc_of s p) s) = enter_phase p (phase_at (kpc_of (kstep p (kpc_of s p) s) p)) (atomic_of s)"
    using pc c fine_invD(6) [OF inv, of p]
    by (intro kstep_phase [OF inv refl]) (simp_all add: runs_of_def cpu_of_def PREPARE_CONTEXT_def)
  then show ?thesis using atomic_step.return [of "atomic_of s" p SUCCESS] pc c by simp
qed

text \<open>A creation and a conversion make a fiber known that nobody could use before.\<close>

lemma create_access:
  assumes inv: "fine_inv n s" and loc: "locals s" and pc: "kpc_of s p = Cr_context k sb ss ep arg"
  shows "(atomic_step p)\<^sup>*\<^sup>* (atomic_of s) (atomic_of (kstep p (kpc_of s p) s))"
proof (rule step_then_return)
  let ?s' = "kstep p (kpc_of s p) s" and ?c = "start_context sb ss ep arg (cpu_of s p)"
  let ?A = "(atomic_of s)\<lparr>idle := (idle_of s)(k \<mapsto> ?c), store := (store_of s)(k \<mapsto> PREPARE_FLS)\<rparr>"
  have pend: "pending (kpc_of s p) = Some (k, True)" by (simp add: pc)
  have new: "\<not> known s k" by (rule idsD(4) [OF fine_invD(3) [OF inv] pend])
  obtain old where old: "current_at s p = Some old" "old \<noteq> k" using fine_invD(6) [OF inv, of p] pc by auto
  obtain f where f: "fibs s k = Some f" "f_context f = PREPARE_CONTEXT (task_of s p)" "f_fls f = PREPARE_FLS" "f_stack_limit f = sb + ss"
    using loc pc unfolding locals_def by (force simp: body_at_def dest: spec [of _ p])
  have runs: "runs_of ?s' = runs_of s" using pc by (auto simp: runs_of_def Let_def)
  have norun: "runs_of s q \<noteq> Some k" for q
  proof (cases "q = p")
    case False
    then show ?thesis using runs_held [OF inv, of q k] pending_not_held_by_other [OF inv pend False] by blast
  qed (use old pc in \<open>simp add: runs_of_def\<close>)
  have body: "f_context (ALLOC_CONTEXT ep arg f) = ?c" "f_fls (ALLOC_CONTEXT ep arg f) = PREPARE_FLS"
    using f pc by (simp_all add: ALLOC_CONTEXT_def Let_def start_context_def cpu_of_def fls_silent)
  have "known ?s' = (known s)(k := True)" "context_at ?s' = (context_at s)(k \<mapsto> ?c)"
    using f(1) body pc by (simp_all add: Let_def on_fiber_locked)
  then have "idle_of ?s' = (idle_of s)(k \<mapsto> ?c)"
    using norun runs by (auto simp: idle_of_def simp del: kstep.simps)
  moreover have "store_of ?s' = (store_of s)(k \<mapsto> PREPARE_FLS)"
    using f(1) body pc by (auto simp: store_of_def fun_eq_iff Let_def)
  moreover have "cpu_of ?s' = cpu_of s"
  proof
    fix q
    show "cpu_of ?s' q = cpu_of s q" using kstep_cpu [OF inv, of p q] pc by (cases "q = p") (auto simp: cpu_of_def Let_def)
  qed
  moreover have "(\<lambda>q. phase_at (kpc_of ?s' q)) = (\<lambda>q. phase_at (kpc_of s q))(p := Out (scast k))" using pc by (auto simp: Let_def)
  ultimately show "atomic_of ?s' = enter_phase p (Out (scast k)) ?A"
    using runs by (simp add: enter_phase_def atomic_of_def del: kstep.simps)
  show "atomic_step p (atomic_of s) (enter_phase p (Over (scast k)) ?A)"
    using atomic_step.created [of "atomic_of s" p sb ss ep arg old k] pc old new by (simp add: runs_of_def store_of_def)
qed

lemma convert_access:
  assumes inv: "fine_inv n s" and loc: "locals s" and pc: "kpc_of s p = Cv_act_thread k"
  shows "(atomic_step p)\<^sup>*\<^sup>* (atomic_of s) (atomic_of (kstep p (kpc_of s p) s))"
proof (rule step_then_return)
  let ?s' = "kstep p (kpc_of s p) s" and ?A = "(atomic_of s)\<lparr>runs := (runs_of s)(p \<mapsto> k), store := (store_of s)(k \<mapsto> PREPARE_FLS)\<rparr>"
  have new: "\<not> known s k" by (rule idsD(4) [OF fine_invD(3) [OF inv], of p]) (simp add: pc)
  obtain t where t: "current_at s p = Some t" using fine_invD(6) [OF inv, of p] pc by auto
  have x: "fls_at s k = Some PREPARE_FLS"
    using loc pc unfolding locals_def by (force simp: body_at_def fls_at_def dest: spec [of _ p])
  have runs: "runs_of ?s' = (runs_of s)(p \<mapsto> k)" "runs_of s p = None"
    using pc t kstep_runs [of p] by (auto simp: runs_of_def)
  have "known ?s' = (known s)(k := True)" "context_at ?s' = context_at s" using pc by simp_all
  then have "idle_of ?s' = idle_of s"
    using new runs by (auto simp: idle_of_def fun_eq_iff simp del: kstep.simps) (metis option.distinct(1))
  moreover have "store_of ?s' = (store_of s)(k \<mapsto> PREPARE_FLS)" using x pc by (auto simp: store_of_def)
  moreover have "cpu_of ?s' = cpu_of s"
  proof
    fix q
    show "cpu_of ?s' q = cpu_of s q" using kstep_cpu [OF inv, of p q] pc by (cases "q = p") (auto simp: cpu_of_def)
  qed
  moreover have "(\<lambda>q. phase_at (kpc_of ?s' q)) = (\<lambda>q. phase_at (kpc_of s q))(p := Out (scast k))" using pc by auto
  ultimately show "atomic_of ?s' = enter_phase p (Out (scast k)) ?A"
    using runs by (simp add: enter_phase_def atomic_of_def del: kstep.simps)
  show "atomic_step p (atomic_of s) (enter_phase p (Over (scast k)) ?A)"
    using atomic_step.converted [of "atomic_of s" p k] pc runs new by (simp add: store_of_def)
qed

lemma conversion_refused:
  assumes inv: "fine_inv n s" and pc: "kpc_of s p = Cv_thread" "current_at s p = Some k"
  shows "(atomic_step p)\<^sup>*\<^sup>* (atomic_of s) (atomic_of (kstep p (kpc_of s p) s))"
proof (rule step_then_return)
  obtain t where t: "thrs s p = Some t" using pc(2) by (auto simp: current_at_def)
  show "atomic_step p (atomic_of s) (enter_phase p (Over (- EEXIST)) (atomic_of s))"
    using atomic_step.converted_before [of "atomic_of s" p k] pc by (simp add: runs_of_def)
  have "atomic_of (kstep p (kpc_of s p) s) = enter_phase p (phase_at (kpc_of (kstep p (kpc_of s p) s) p)) (atomic_of s)"
    using pc(1) t by (intro kstep_phase [OF inv refl]) (simp_all add: runs_of_def cpu_of_def)
  then show "atomic_of (kstep p (kpc_of s p) s) = enter_phase p (Out (- EEXIST)) (atomic_of s)" using pc(1) t by simp
qed

lemma switch_access:
  assumes inv: "fine_inv n s" and pc: "kpc_of s p = Sw_try nxt \<and> locked s nxt \<or> kpc_of s p = Sw_fail nxt"
  shows "atomic_step p (atomic_of s) (atomic_of (kstep p (kpc_of s p) s))"
proof -
  have "atomic_of (kstep p (kpc_of s p) s) = enter_phase p (phase_at (kpc_of (kstep p (kpc_of s p) s) p)) (atomic_of s)"
    using pc by (intro kstep_phase [OF inv refl]) (auto simp: runs_of_def cpu_of_def)
  then show ?thesis
    using pc taken_fiber [OF inv, of p nxt] atomic_step.busy [of "atomic_of s" p nxt] atomic_step.return [of "atomic_of s" p "- EAGAIN"]
    by auto
qed

lemma slot_access:
  assumes inv: "fine_inv n s" and loc: "locals s" and c: "phase_at (kpc_of s p) = In c" "storage_call c"
    and over: "in_user_mode (kstep p (kpc_of s p) s) p"
  shows "(atomic_step p)\<^sup>*\<^sup>* (atomic_of s) (atomic_of (kstep p (kpc_of s p) s))"
proof -
  have ok: "current_ok (current_at s p) (kpc_of s p)" by (rule fine_invD(6) [OF inv])
  have l: "local_ok (task_of s p) (body_at s) (kpc_of s p)" using loc by (simp add: locals_def)
  obtain k where k: "current_at s p = Some k" using ok c by (cases "kpc_of s p") auto
  have "k \<in> held (current_at s p) (kpc_of s p)" using k c ok by (cases "kpc_of s p") auto
  then obtain f where f: "fibs s k = Some f" using held_present [OF inv] by (auto simp: context_at_def)
  have x: "fls_at s k = Some (f_fls f)" using f by (simp add: fls_at_def)
  obtain y r where op: "storage_op c (f_fls f) = (y, r)" by (cases "storage_op c (f_fls f)")
  let ?s' = "kstep p (kpc_of s p) s"
  have res: "kpc_of ?s' p = User r \<and> fls_at ?s' = (fls_at s)(k \<mapsto> y)"
    using c ok l k x f op over
    by (cases "kpc_of s p")
      (auto simp: in_user_mode slot_used_def body_at_def Let_def fls_alloc_slot_def fls_get_slot_def fls_free_slot_def fls_set_slot_def
        change_slot_bit_def write_slot_def split: if_splits)
  have same: "known ?s' = known s \<and> task_of ?s' = task_of s \<and> current_at ?s' = current_at s \<and>
      run_at (current_at s p) (kpc_of s p) = current_at s p \<and> pending (kpc_of s p) = None \<and>
      cpu_of s p = PREPARE_CONTEXT (task_of s p)"
    using c x ok k by (cases "kpc_of s p") (auto simp: cpu_of_def Let_def split: option.split)
  have "index_error c = None" using l c by (cases "kpc_of s p") auto
  then show ?thesis using res same k by (intro storage_access [OF inv c _ _ _ x op refl]) (simp_all add: runs_of_def del: kstep.simps)
qed

lemma kstep_simulated:
  assumes inv: "fine_inv n s" and loc: "locals s" and busy: "\<not> in_user_mode s p"
  shows "(atomic_step p)\<^sup>*\<^sup>* (atomic_of s) (atomic_of (kstep p (kpc_of s p) s))"
proof (cases "phase_at (kpc_of (kstep p (kpc_of s p) s) p) = phase_at (kpc_of s p)")
  case True
  then show ?thesis using silent_access [OF inv busy] by simp
next
  case False
  have ok: "current_ok (current_at s p) (kpc_of s p)" by (rule fine_invD(6) [OF inv])
  note held = held_present [OF inv, of _ p]
  have state: "kpc_of s p \<noteq> Sw_state nxt" for nxt using False expected [OF inv, of p nxt 0] by auto
  have old: "kpc_of s p \<noteq> Sw_old nxt" for nxt
    using False ok held [of "the (current_at s p)"] by (auto simp: context_at_def split: option.splits)
  have cv: "kpc_of s p \<noteq> Cv_try k" "kpc_of s p \<noteq> Cv_state k" for k using False by (auto split: if_splits)
  have thread: "kpc_of s p = Cv_thread \<Longrightarrow> \<exists>k. current_at s p = Some k" using False by (auto simp: current_at_def split: option.splits)
  consider (switch) nxt where "kpc_of s p = Sw_try nxt \<and> locked s nxt \<or> kpc_of s p = Sw_fail nxt"
    | (unlock) old nxt where "kpc_of s p = Unlock old nxt" | (rest) nxt where "kpc_of s p = Rest_fpu nxt"
    | (create) k sb ss ep arg where "kpc_of s p = Cr_context k sb ss ep arg"
    | (refused) k where "kpc_of s p = Cv_thread" "current_at s p = Some k" | (convert) k where "kpc_of s p = Cv_act_thread k"
    | (slot) c where "phase_at (kpc_of s p) = In c" "storage_call c" "in_user_mode (kstep p (kpc_of s p) s) p"
    using False ok busy state old cv held thread
    by (cases "kpc_of s p") (auto simp: in_user_mode Let_def thrs_current present_fls split: option.splits if_splits)
  then show ?thesis
  proof cases
    case switch
    then show ?thesis by (intro r_into_rtranclp switch_access [OF inv])
  next
    case unlock
    then show ?thesis by (intro r_into_rtranclp unlock_access [OF inv loc])
  next
    case rest
    then show ?thesis by (intro r_into_rtranclp restore_access [OF inv])
  next
    case create
    then show ?thesis by (rule create_access [OF inv loc])
  next
    case refused
    then show ?thesis by (rule conversion_refused [OF inv])
  next
    case convert
    then show ?thesis by (rule convert_access [OF inv loc])
  next
    case slot
    then show ?thesis by (rule slot_access [OF inv loc])
  qed
qed

section \<open>The start of a call\<close>

lemma go_user:
  assumes "kpc_of s p = User r" "phase_at c = f" "run_at (current_at s p) c = current_at s p"
    "cpu_at (task_of s p) (context_at s) c = PREPARE_CONTEXT (task_of s p)"
  shows "atomic_of (go p c s) = enter_phase p f (atomic_of s)"
proof -
  have "runs_of (go p c s) = runs_of s" "cpu_of (go p c s) = cpu_of s" using assms by (auto simp: runs_of_def cpu_of_def)
  moreover have "store_of (go p c s) = store_of s" by (simp add: store_of_def fun_eq_iff)
  moreover have "(\<lambda>q. phase_at (kpc_of (go p c s) q)) = (\<lambda>q. phase_at (kpc_of s q))(p := f)" using assms by auto
  ultimately show ?thesis by (simp add: atomic_of_def enter_phase_def idle_of_def fun_eq_iff)
qed

lemma call_enters:
  assumes "kpc_of s p = User r" "s' = go p pc s" "phase_at pc = In c" "run_at (current_at s p) pc = current_at s p"
    "cpu_at (task_of s p) (context_at s) pc = PREPARE_CONTEXT (task_of s p)"
  shows "(atomic_step p)\<^sup>*\<^sup>* (atomic_of s) (atomic_of s')"
  using atomic_step.call [of "atomic_of s" p r c] go_user [OF assms(1,3-5)] assms(1,2) by auto

lemma call_fails:
  assumes "kpc_of s p = User r" "s' = go p (User e) s"
    and "index_error c = Some e \<or> e = - ESRCH \<and> c \<noteq> Convert \<and> index_error c = None \<and> current_at s p = None"
  shows "(atomic_step p)\<^sup>*\<^sup>* (atomic_of s) (atomic_of s')"
proof -
  let ?A = "enter_phase p (In c) (atomic_of s)"
  have 1: "atomic_step p (atomic_of s) ?A" using atomic_step.call [of "atomic_of s" p r c] assms(1) by simp
  have "runs_of s p = current_at s p" using assms(1) by (simp add: runs_of_def)
  then have "atomic_step p ?A (enter_phase p (Over e) (atomic_of s))"
    using assms(3) atomic_step.bad_slot [of ?A p c e] atomic_step.no_fiber [of ?A p c] by auto
  moreover have "atomic_of s' = enter_phase p (Out e) (atomic_of s)" unfolding assms(2) by (rule go_user [OF assms(1)]) simp_all
  ultimately have "(atomic_step p)\<^sup>*\<^sup>* ?A (atomic_of s')" by (rule step_then_return)
  with 1 show ?thesis by (rule converse_rtranclp_into_rtranclp)
qed

lemma with_fiber_simulated:
  assumes inv: "fine_inv n s" and user: "kpc_of s p = User r" and c: "index_error c = None" "c \<noteq> Convert"
    and pc: "\<And>k. phase_at (pc k) = In c" "\<And>k x. run_at x (pc k) = x" "\<And>k t x. cpu_at t x (pc k) = PREPARE_CONTEXT t"
  shows "(atomic_step p)\<^sup>*\<^sup>* (atomic_of s) (atomic_of (with_fiber p pc s))"
proof (cases "current_at s p")
  case None
  then show ?thesis using c by (intro call_fails [OF user, where e = "- ESRCH" and c = c]) (simp_all add: with_fiber_def)
next
  case (Some k)
  then obtain f where "fibs s k = Some f" using held_present [OF inv, of k p] user by (auto simp: context_at_def)
  then show ?thesis using Some pc by (intro call_enters [OF user, where c = c and pc = "pc k"]) (simp_all add: with_fiber_def)
qed

lemma compute_simulated:
  assumes "kpc_of s p = User r"
  shows "atomic_step p (atomic_of s) (atomic_of (s\<lparr>task_of := (task_of s)(p := tsk)\<rparr>))"
proof -
  let ?s' = "s\<lparr>task_of := (task_of s)(p := tsk)\<rparr>"
  have "cpu_of ?s' = (cpu_of s)(p := PREPARE_CONTEXT tsk)" using assms by (auto simp: cpu_of_def)
  moreover have "runs_of ?s' = runs_of s" "store_of ?s' = store_of s" by (simp_all add: runs_of_def store_of_def fun_eq_iff)
  ultimately have "atomic_of ?s' = (atomic_of s)\<lparr>cpu := (cpu (atomic_of s))(p := PREPARE_CONTEXT tsk)\<rparr>"
    by (simp add: atomic_of_def idle_of_def fun_eq_iff)
  then show ?thesis using atomic_step.compute [of "atomic_of s" p r] assms by simp
qed

lemma begin_call_simulated:
  assumes inv: "fine_inv n s" and user: "kpc_of s p = User r" and a: "allowed a s"
  shows "(atomic_step p)\<^sup>*\<^sup>* (atomic_of s) (atomic_of (begin_call p a s))"
proof (cases a)
  case (Compute tsk)
  then show ?thesis using compute_simulated [OF user] by auto
next
  case (Call c)
  note fails = call_fails [OF user, where c = c] and enters = call_enters [OF user, where c = c]
    and fiber = with_fiber_simulated [OF inv user, where c = c]
  show ?thesis
  proof (cases c)
    case (Switch nxt)
    then have "fibs s nxt \<noteq> None" using a Call idsD(2) [OF fine_invD(3) [OF inv], of nxt] by (simp add: fibs_context)
    then show ?thesis
      using Switch Call fails [of _ "- ESRCH"] enters [of _ "Sw_try nxt"] by (cases "thrs s p") (auto simp: current_at_def)
  next
    case (Create sb ss ep arg)
    then show ?thesis
      using Call fails [of _ "- ESRCH"] enters [of _ "Cr_count sb ss ep arg"] by (cases "thrs s p") (simp_all add: current_at_def)
  next
    case Convert
    then show ?thesis using Call enters [of _ Cv_thread] by simp
  next
    case Fls_Alloc
    then show ?thesis using Call fiber [of Fa_scan] by simp
  next
    case (Fls_Get i)
    then show ?thesis using Call fiber [of "\<lambda>k. Fg_test k i"] fails [of _ "- ESRCH"] by simp
  next
    case (Fls_Free i)
    then show ?thesis using Call fiber [of "\<lambda>k. Ff_test k i"] fails [of _ "- EINVAL"] by simp
  next
    case (Fls_Set i v)
    then show ?thesis using Call fiber [of "\<lambda>k. Fs_test k i v"] fails [of _ "- EINVAL"] by simp
  qed (simp add: Call)
qed simp

section \<open>The refinement\<close>

lemma fine_step_simulated:
  assumes "fine_inv n s" "locals s" "allowed a s"
  shows "(atomic_step p)\<^sup>*\<^sup>* (atomic_of s) (atomic_of (fine_step p a s))"
proof (cases "in_user_mode s p")
  case True
  then obtain r where "kpc_of s p = User r" by (auto simp: in_user_mode)
  then show ?thesis using begin_call_simulated [OF assms(1) _ assms(3)] by (simp add: fine_step_def)
next
  case False
  then show ?thesis using kstep_simulated [OF assms(1,2) False] by (simp add: fine_step_busy)
qed

lemma init_atomic: "atomic_of (fine_init tsk l) = atomic_start (\<lambda>p. PREPARE_CONTEXT (tsk p))"
  by (simp add: atomic_of_def atomic_start_def fine_init_def runs_of_def idle_of_def store_of_def cpu_of_def current_at_def fun_eq_iff)

lemma fine_reach_atomic: "fine_reach n s \<Longrightarrow> n < 2 ^ 32 \<Longrightarrow> atomic_reach (atomic_of s)"
proof (induction rule: fine_reach.induct)
  case (start tsk l)
  show ?case unfolding init_atomic by (rule atomic_reach.start)
next
  case (step n s p a)
  have n: "n < 2 ^ 32" using step.prems by simp
  show ?case
    by (rule atomic_reach_steps [OF fine_step_simulated [OF fine_reach_inv [OF step.hyps(1) n] fine_reach_locals [OF step.hyps(1) n]
      step.hyps(3)] step.IH [OF n]])
qed



end
