(* ===== verification/Fiber_Group.thy ===== *)
theory Fiber_Group
  imports Hashtable Lock_Owner
begin

text \<open>
  The first access of a process to the module: \<open>do_convert_thread_to_fiber\<close> looks for the group of
  the process and creates it when there is none, under the global spin lock \<open>plock\<close>. Threads
  of any processes interleave here at every access: the lock, the search, the allocation, the
  insertion. A group is the number of its allocation, with its process. Allocations succeed.
\<close>

section \<open>States and steps\<close>

datatype gpc = G_lock | G_find | G_alloc | G_add nat | G_unlock nat | G_found nat

record group_ref =
  gr_tgid :: pid_t
  gr_obj :: nat

record gstate =
  gtable :: "group_ref htable"
  plock :: bool
  allocated :: nat
  gpc_of :: "pid_t \<Rightarrow> gpc"

definition gmove :: "pid_t \<Rightarrow> gpc \<Rightarrow> gstate \<Rightarrow> gstate" where
  "gmove p c s = s\<lparr>gpc_of := (gpc_of s)(p := c)\<rparr>"

definition find_group :: "hash_fn \<Rightarrow> pid_t \<Rightarrow> gstate \<Rightarrow> nat option" where
  "find_group h g s = map_option gr_obj (hash_search h gr_tgid g (gtable s))"

text \<open>The next access of the thread \<open>p\<close> of the process \<open>g\<close>. A thread that finds the lock taken tries again.\<close>

fun gstep :: "hash_fn \<Rightarrow> pid_t \<Rightarrow> pid_t \<Rightarrow> gpc \<Rightarrow> gstate \<Rightarrow> gstate" where
  "gstep h g p G_lock s = (if plock s then s else gmove p G_find (s\<lparr>plock := True\<rparr>))"
| "gstep h g p G_find s = (case find_group h g s of None \<Rightarrow> gmove p G_alloc s | Some x \<Rightarrow> gmove p (G_unlock x) s)"
| "gstep h g p G_alloc s = gmove p (G_add (allocated s)) (s\<lparr>allocated := Suc (allocated s)\<rparr>)"
| "gstep h g p (G_add x) s =
     gmove p (G_unlock x) (s\<lparr>gtable := hash_add_rcu h (gtable s) \<lparr>gr_tgid = g, gr_obj = x\<rparr> g\<rparr>)"
| "gstep h g p (G_unlock x) s = gmove p (G_found x) (s\<lparr>plock := False\<rparr>)"
| "gstep h g p (G_found x) s = s"

definition group_step :: "hash_fn \<Rightarrow> (pid_t \<Rightarrow> pid_t) \<Rightarrow> pid_t \<Rightarrow> gstate \<Rightarrow> gstate" where
  "group_step h tgid p s = gstep h (tgid p) p (gpc_of s p) s"

definition gstart :: gstate where
  "gstart = \<lparr>gtable = hash_init, plock = False, allocated = 0, gpc_of = (\<lambda>_. G_lock)\<rparr>"

text \<open>A schedule names the thread that makes the next access.\<close>

definition group_run :: "hash_fn \<Rightarrow> (pid_t \<Rightarrow> pid_t) \<Rightarrow> pid_t list \<Rightarrow> gstate" where
  "group_run h tgid ps = fold (group_step h tgid) ps gstart"

section \<open>The invariant\<close>

fun inside :: "gpc \<Rightarrow> bool" where
  "inside G_lock = False"
| "inside (G_found x) = False"
| "inside _ = True"

text \<open>What a thread knows about the table: that its process has no group, or which one it has.\<close>

fun knows :: "gpc \<Rightarrow> nat option \<Rightarrow> bool" where
  "knows G_alloc r \<longleftrightarrow> r = None"
| "knows (G_add x) r \<longleftrightarrow> r = None"
| "knows (G_unlock x) r \<longleftrightarrow> r = Some x"
| "knows (G_found x) r \<longleftrightarrow> r = Some x"
| "knows _ r \<longleftrightarrow> True"

definition ginv :: "hash_fn \<Rightarrow> (pid_t \<Rightarrow> pid_t) \<Rightarrow> gstate \<Rightarrow> bool" where
  "ginv h tgid s \<longleftrightarrow> exclusive (\<lambda>_::unit. plock s) (\<lambda>p. {_. inside (gpc_of s p)}) \<and> hash_wf h gr_tgid (gtable s) \<and>
     (\<forall>p. knows (gpc_of s p) (find_group h (tgid p) s))"

lemma gmove_views [simp]:
  "find_group h g (gmove p c s) = find_group h g s" "plock (gmove p c s) = plock s" "gtable (gmove p c s) = gtable s"
  "gpc_of (gmove p c s) = (gpc_of s)(p := c)"
  "find_group h g (s\<lparr>plock := b\<rparr>) = find_group h g s" "find_group h g (s\<lparr>allocated := n\<rparr>) = find_group h g s"
  by (simp_all add: gmove_def find_group_def)

lemma find_group_add:
  "find_group h k (s\<lparr>gtable := hash_add_rcu h (gtable s) \<lparr>gr_tgid = g, gr_obj = x\<rparr> g\<rparr>) = (if k = g then Some x else find_group h k s)"
  by (simp add: find_group_def hash_add_rcu_def hash_search_def)

text \<open>One access that changes the program point of \<open>p\<close> and perhaps the lock and the table.\<close>

lemma ginv_change:
  assumes inv: "ginv h tgid s" and pc: "gpc_of s' = (gpc_of s)(p := c)"
    and lock: "plock s' \<longleftrightarrow> inside c \<or> \<not> inside (gpc_of s p) \<and> plock s" "inside c \<Longrightarrow> \<not> inside (gpc_of s p) \<Longrightarrow> \<not> plock s"
    and wf: "hash_wf h gr_tgid (gtable s')" and know: "knows c (find_group h (tgid p) s')"
    and other: "\<And>q. q \<noteq> p \<Longrightarrow> knows (gpc_of s q) (find_group h (tgid q) s')"
  shows "ginv h tgid s'"
proof -
  have "exclusive (\<lambda>_::unit. plock s') (\<lambda>q. {_. inside (gpc_of s' q)})"
  proof (rule exclusive_change)
    show "exclusive (\<lambda>_::unit. plock s) (\<lambda>q. {_. inside (gpc_of s q)})" using inv by (simp add: ginv_def)
    show "(\<lambda>q. {_. inside (gpc_of s' q)}) = (\<lambda>q. {_::unit. inside (gpc_of s q)})(p := {_. inside c})" using pc by (simp add: fun_eq_iff)
  qed (use lock in \<open>auto split: if_splits\<close>)
  then show ?thesis using wf know other pc by (simp add: ginv_def)
qed

lemma ginvD:
  assumes "ginv h tgid s"
  shows "inside (gpc_of s p) \<Longrightarrow> plock s" "inside (gpc_of s p) \<Longrightarrow> inside (gpc_of s q) \<Longrightarrow> p = q"
    "hash_wf h gr_tgid (gtable s)" "knows (gpc_of s p) (find_group h (tgid p) s)"
  using assms by (auto simp: ginv_def exclusive_def)

lemma group_step_inv:
  assumes inv: "ginv h tgid s"
  shows "ginv h tgid (group_step h tgid p s)"
proof -
  note D = ginvD [OF inv]
  show ?thesis
  proof (cases "gpc_of s p")
    case G_lock
    then show ?thesis using D(3,4) inv
      by (auto simp: group_step_def intro!: ginv_change [OF inv, where p = p and c = G_find])
  next
    case G_find
    then show ?thesis using D(1) [of p] D(3,4)
      by (auto simp: group_step_def intro!: ginv_change [OF inv, where p = p] split: option.split)
  next
    case G_alloc
    then show ?thesis using D(1) [of p] D(3,4) D(4) [of p]
      by (auto simp: group_step_def intro!: ginv_change [OF inv, where p = p])
  next
    case (G_add x)
    let ?g = "\<lparr>gr_tgid = tgid p, gr_obj = x\<rparr>"
    have none: "find_group h (tgid p) s = None" using D(4) [of p] G_add by simp
    have "hash_wf h gr_tgid (hash_add_rcu h (gtable s) ?g (tgid p))"
      using hash_wf_add [OF D(3), of ?g] none by (simp add: find_group_def)
    moreover have "knows (gpc_of s q) (if tgid q = tgid p then Some x else find_group h (tgid q) s)" if "q \<noteq> p" for q
      using D(4) [of q] D(2) [of p q] that none G_add by (cases "gpc_of s q") (auto split: if_splits)
    ultimately show ?thesis using G_add D(1) [of p]
      by (auto simp: group_step_def find_group_add intro!: ginv_change [OF inv, where p = p and c = "G_unlock x"])
  next
    case (G_unlock x)
    then show ?thesis using D(3,4) D(4) [of p]
      by (auto simp: group_step_def intro!: ginv_change [OF inv, where p = p and c = "G_found x"])
  qed (simp add: group_step_def inv)
qed

text \<open>Different processes have different groups.\<close>

definition separate :: "hash_fn \<Rightarrow> gstate \<Rightarrow> bool" where
  "separate h s \<longleftrightarrow> (\<forall>g x. find_group h g s = Some x \<longrightarrow> x < allocated s) \<and>
     (\<forall>g k x. find_group h g s = Some x \<and> find_group h k s = Some x \<longrightarrow> g = k) \<and>
     (\<forall>p x. gpc_of s p = G_add x \<longrightarrow> x < allocated s \<and> (\<forall>g. find_group h g s \<noteq> Some x))"

lemma separateD:
  assumes "separate h s"
  shows "find_group h g s = Some x \<Longrightarrow> x < allocated s" "find_group h g s = Some x \<Longrightarrow> find_group h k s = Some x \<Longrightarrow> g = k"
    "gpc_of s p = G_add x \<Longrightarrow> x < allocated s" "gpc_of s p = G_add x \<Longrightarrow> find_group h g s \<noteq> Some x"
  using assms unfolding separate_def by blast+

lemma gmove_allocated [simp]: "allocated (gmove p c s) = allocated s"
  by (simp add: gmove_def)

lemma separate_keep:
  assumes "separate h s" "gpc_of s' = (gpc_of s)(p := c)" "\<And>x. c \<noteq> G_add x" "allocated s' = allocated s"
    "\<And>g. find_group h g s' = find_group h g s"
  shows "separate h s'"
  using assms unfolding separate_def by (simp split: if_splits)

lemma group_step_separate:
  assumes inv: "ginv h tgid s" and sep: "separate h s"
  shows "separate h (group_step h tgid p s)"
proof -
  note D = separateD [OF sep]
  show ?thesis
  proof (cases "gpc_of s p")
    case G_lock
    then show ?thesis using sep by (auto simp: group_step_def intro: separate_keep [OF sep, where p = p and c = G_find])
  next
    case G_find
    then show ?thesis by (auto simp: group_step_def intro!: separate_keep [OF sep, where p = p] split: option.split)
  next
    case G_alloc
    then show ?thesis using D unfolding separate_def group_step_def by (auto simp: less_Suc_eq split: if_splits)
  next
    case (G_add x)
    have one: "gpc_of s q \<noteq> G_add y" if "q \<noteq> p" for q y
      using ginvD(2) [OF inv, of p q] that G_add by auto
    show ?thesis using G_add D(1,2) D(3,4) [OF G_add] one unfolding separate_def group_step_def
      by (auto simp: find_group_add split: if_splits)
  next
    case (G_unlock x)
    then show ?thesis by (auto simp: group_step_def intro!: separate_keep [OF sep, where p = p and c = "G_found x"])
  qed (simp add: group_step_def sep)
qed

lemma group_run_inv: "ginv h tgid (group_run h tgid ps) \<and> separate h (group_run h tgid ps)"
  unfolding group_run_def
proof (induction ps rule: rev_induct)
  case Nil
  show ?case by (simp add: ginv_def gstart_def exclusive_def separate_def find_group_def)
qed (simp add: group_step_inv group_step_separate)

section \<open>The properties\<close>

text \<open>
  C30: A process has one group. However the threads of all processes interleave in the search for
  their group, no two groups of the table belong to one process, a thread that has its group has
  the one the table gives for its process, and two threads have the same group exactly when they
  belong to one process.
\<close>

theorem one_group_per_process:
  "distinct (map gr_tgid (hash_entries (gtable (group_run h tgid ps)))) \<and>
   (\<forall>p x. gpc_of (group_run h tgid ps) p = G_found x \<longrightarrow>
      find_group h (tgid p) (group_run h tgid ps) = Some x \<and>
      (\<forall>q y. gpc_of (group_run h tgid ps) q = G_found y \<longrightarrow> (x = y \<longleftrightarrow> tgid p = tgid q)))"
proof -
  have inv: "ginv h tgid (group_run h tgid ps)" and sep: "separate h (group_run h tgid ps)" using group_run_inv by auto
  have found: "find_group h (tgid p) (group_run h tgid ps) = Some x" if "gpc_of (group_run h tgid ps) p = G_found x" for p x
    using ginvD(4) [OF inv, of p] that by simp
  have "x = y \<longleftrightarrow> tgid p = tgid q"
    if "gpc_of (group_run h tgid ps) p = G_found x" "gpc_of (group_run h tgid ps) q = G_found y" for p x q y
    using found [OF that(1)] found [OF that(2)] separateD(2) [OF sep] by auto
  then show ?thesis using found hash_wf_distinct [OF ginvD(3) [OF inv]] by blast
qed

text \<open>Two threads of one process and a thread of another, one access each in turn.\<close>

definition group_demo :: gstate where
  "group_demo = group_run (\<lambda>_. 0) (\<lambda>p. if p = 103 then 200 else 100)
     [101, 102, 103, 101, 102, 101, 101, 103, 101, 102, 103, 102, 102, 103, 103, 103, 103, 103]"

theorem one_group_per_process_witness:
  "gpc_of group_demo 101 = G_found 0 \<and> gpc_of group_demo 102 = G_found 0 \<and> gpc_of group_demo 103 = G_found 1 \<and>
   find_group (\<lambda>_. 0) 100 group_demo = Some 0 \<and> distinct (map gr_tgid (hash_entries (gtable group_demo)))"
proof -
  have pcs: "gpc_of group_demo 101 = G_found 0" "gpc_of group_demo 102 = G_found 0" "gpc_of group_demo 103 = G_found 1"
    unfolding group_demo_def group_run_def gstart_def
    by (simp_all add: group_step_def gmove_def find_group_def hash_search_def hash_init_def hash_add_rcu_def)
  note one = one_group_per_process [of "\<lambda>_. 0" "\<lambda>p. if p = 103 then 200 else 100"
    "[101, 102, 103, 101, 102, 101, 101, 103, 101, 102, 103, 102, 102, 103, 103, 103, 103, 103]", folded group_demo_def]
  have "find_group (\<lambda>_. 0) 100 group_demo = Some 0" using one [THEN conjunct2, rule_format, OF pcs(1)] by simp
  then show ?thesis using pcs one [THEN conjunct1] by simp
qed

text \<open>A thread holds the lock for at most four accesses, whatever the others do.\<close>

fun held_for :: "gpc \<Rightarrow> nat" where
  "held_for G_find = 4"
| "held_for G_alloc = 3"
| "held_for (G_add x) = 2"
| "held_for (G_unlock x) = 1"
| "held_for _ = 0"

lemma group_step_progress:
  "inside (gpc_of s p) \<Longrightarrow> held_for (gpc_of (group_step h tgid p s) p) < held_for (gpc_of s p)"
  "q \<noteq> p \<Longrightarrow> gpc_of (group_step h tgid q s) p = gpc_of s p"
  "gpc_of s p = G_lock \<Longrightarrow> \<not> plock s \<Longrightarrow> gpc_of (group_step h tgid p s) p = G_find"
  by (cases "gpc_of s p"; simp add: group_step_def split: option.split) (cases "gpc_of s q"; simp add: group_step_def split: option.split)+

end
