(* ===== verification/Fiberlib.thy ===== *)
theory Fiberlib
  imports Device
begin

text \<open>
  The user library, \<open>libfibers/fiberlib.c\<close>: seven wrappers around requests to the device.

  A wrapper is a function of the state of the module, the calling task and its process: the
  global \<open>fd\<close>, the descriptors that are open on the device, and the memory. What the
  compiler and the C library choose are arguments: the addresses of the local variables a
  wrapper passes to the kernel, the descriptor \<open>open\<close> returns and the block
  \<open>posix_memalign\<close> returns. A wrapper returns, ends the process (\<open>exit\<close>), accesses memory
  that is not mapped, or the kernel faults. After a successful switch the value is seen by
  the fiber that is resumed, with the registers of the returned task.
\<close>

section \<open>Processes and the C library\<close>

record uproc =
  u_fd :: c_int
  u_dev_fds :: "c_int list"
  u_mem :: umem

datatype 'r lib = Ret kstate task uproc 'r | Exit c_int | Segv | Kernel_oops

text \<open>
  \<open>ioctl\<close> of the C library returns an \<open>int\<close>: -1 for the error results of the system call
  (from -4095 to -1), else the low 32 bits, sign extended where it is stored in a \<open>long\<close>.
  A descriptor that is not open on the device gives an error.
\<close>

definition syscall_ret :: "c_long \<Rightarrow> c_long" where
  "syscall_ret r = (if - 4095 \<le> sint r \<and> sint r < 0 then - 1 else scast (ucast r :: c_int))"

definition ioctl ::
    "kenv \<Rightarrow> addr \<Rightarrow> kstate \<Rightarrow> task \<Rightarrow> uproc \<Rightarrow> c_int \<Rightarrow> c_int \<Rightarrow> c_ulong \<Rightarrow> c_long lib" where
  "ioctl e lim s tsk u d cmd args =
     (if d \<in> set (u_dev_fds u) then
        (case fibers_ioctl e lim s tsk (u_mem u) cmd args of
           Oops \<Rightarrow> Kernel_oops
         | Done s' tsk' (m', r) \<Rightarrow> Ret s' tsk' (u\<lparr>u_mem := m'\<rparr>) (syscall_ret r))
      else Ret s tsk u (- 1))"

fun and_then :: "'a lib \<Rightarrow> (kstate \<Rightarrow> task \<Rightarrow> uproc \<Rightarrow> 'a \<Rightarrow> 'b lib) \<Rightarrow> 'b lib" where
  "and_then (Ret s tsk u r) k = k s tsk u r"
| "and_then (Exit c) k = Exit c"
| "and_then Segv k = Segv"
| "and_then Kernel_oops k = Kernel_oops"

text \<open>A store of the process to its own memory.\<close>

definition poke :: "kstate \<Rightarrow> task \<Rightarrow> uproc \<Rightarrow> addr \<Rightarrow> byte list \<Rightarrow> unit lib" where
  "poke s tsk u a bs =
     (case store_bytes (u_mem u) a bs of
        (m', left) \<Rightarrow> if left \<noteq> 0 then Segv else Ret s tsk (u\<lparr>u_mem := m'\<rparr>) ())"

section \<open>The wrappers\<close>

definition Convert_thread_to_fiber ::
    "kenv \<Rightarrow> addr \<Rightarrow> c_int \<Rightarrow> kstate \<Rightarrow> task \<Rightarrow> uproc \<Rightarrow> pid_t lib" where
  "Convert_thread_to_fiber e lim open_fd s tsk u =
     (if sint open_fd < 0 then Exit (- ENOENT)
      else (let u1 = u\<lparr>u_fd := open_fd, u_dev_fds := open_fd # u_dev_fds u\<rparr>
            in and_then (ioctl e lim s tsk u1 (u_fd u1) IOCTL_CONVERT_THREAD_TO_FIBER 0)
                 (\<lambda>s tsk u ret. Ret s tsk u (ucast ret))))"

definition Create_fiber ::
    "kenv \<Rightarrow> addr \<Rightarrow> addr \<Rightarrow> addr option \<Rightarrow> kstate \<Rightarrow> task \<Rightarrow> uproc \<Rightarrow> c_ulong \<Rightarrow> c_ulong \<Rightarrow> addr \<Rightarrow> pid_t lib" where
  "Create_fiber e lim frame posix_memalign s tsk u stack_size entry_point params =
     (case posix_memalign of
        None \<Rightarrow> Exit (- 125)
      | Some stack_base \<Rightarrow>
          and_then (poke s tsk u frame (enc_fib_args
                      \<lparr>fa_stack_base = stack_base, fa_stack_size = stack_size,
                       fa_entry_point = entry_point, fa_params = params\<rparr>))
            (\<lambda>s tsk u _. and_then (poke s tsk u stack_base (replicate (unat stack_size) 0))
              (\<lambda>s tsk u _. and_then (ioctl e lim s tsk u (u_fd u) IOCTL_CREATE_FIBER frame)
                (\<lambda>s tsk u ret. Ret s tsk u (ucast ret)))))"

definition Switch_to_fiber ::
    "kenv \<Rightarrow> addr \<Rightarrow> addr \<Rightarrow> kstate \<Rightarrow> task \<Rightarrow> uproc \<Rightarrow> addr \<Rightarrow> c_int lib" where
  "Switch_to_fiber e lim frame s tsk u fib =
     and_then (poke s tsk u frame (le_bytes 8 fib))
       (\<lambda>s tsk u _. and_then (ioctl e lim s tsk u (u_fd u) IOCTL_SWITCH_TO_FIBER frame)
         (\<lambda>s tsk u ret. if sint ret < 0 then Ret s tsk u (- EAGAIN) else Ret s tsk u (ucast ret)))"

definition Fls_alloc :: "kenv \<Rightarrow> addr \<Rightarrow> kstate \<Rightarrow> task \<Rightarrow> uproc \<Rightarrow> c_long lib" where
  "Fls_alloc e lim s tsk u =
     and_then (ioctl e lim s tsk u (u_fd u) IOCTL_FLS_ALLOC 0)
       (\<lambda>s tsk u ret. if sint ret < 0 then Ret s tsk u (- EAGAIN) else Ret s tsk u ret)"

definition Fls_get_value ::
    "kenv \<Rightarrow> addr \<Rightarrow> addr \<Rightarrow> addr \<Rightarrow> kstate \<Rightarrow> task \<Rightarrow> uproc \<Rightarrow> c_long \<Rightarrow> c_long lib" where
  "Fls_get_value e lim frame rv s tsk u idx =
     and_then (poke s tsk u rv (le_bytes 8 (0 :: c_long)))
       (\<lambda>s tsk u _. and_then (poke s tsk u frame (enc_fls_args \<lparr>la_idx = idx, la_value = rv\<rparr>))
         (\<lambda>s tsk u _. and_then (ioctl e lim s tsk u (u_fd u) IOCTL_FLS_GET_VALUE frame)
           (\<lambda>s tsk u ret.
              if sint ret < 0 then Ret s tsk u (- EAGAIN)
              else (case load_bytes (u_mem u) rv 8 of
                      None \<Rightarrow> Segv | Some bs \<Rightarrow> Ret s tsk u (le_word bs)))))"

definition Fls_free ::
    "kenv \<Rightarrow> addr \<Rightarrow> addr \<Rightarrow> kstate \<Rightarrow> task \<Rightarrow> uproc \<Rightarrow> c_long \<Rightarrow> c_int lib" where
  "Fls_free e lim frame s tsk u idx =
     and_then (poke s tsk u frame (enc_fls_args \<lparr>la_idx = idx, la_value = 0\<rparr>))
       (\<lambda>s tsk u _. and_then (ioctl e lim s tsk u (u_fd u) IOCTL_FLS_FREE frame)
         (\<lambda>s tsk u ret.
            (let ret' = (ucast ret :: c_int)
             in if sint ret' < 0 then Ret s tsk u (- EAGAIN) else Ret s tsk u ret')))"

definition Fls_set_value ::
    "kenv \<Rightarrow> addr \<Rightarrow> addr \<Rightarrow> kstate \<Rightarrow> task \<Rightarrow> uproc \<Rightarrow> c_long \<Rightarrow> c_long \<Rightarrow> c_long lib" where
  "Fls_set_value e lim frame s tsk u idx value =
     and_then (poke s tsk u frame (enc_fls_args \<lparr>la_idx = idx, la_value = value\<rparr>))
       (\<lambda>s tsk u _. and_then (ioctl e lim s tsk u (u_fd u) IOCTL_FLS_SET_VALUE frame)
         (\<lambda>s tsk u ret. if sint ret < 0 then Ret s tsk u (- EAGAIN) else Ret s tsk u ret))"

section \<open>Lemmas\<close>

text \<open>Memory of the process that the kernel may also access.\<close>

lemma poke_ok:
  assumes "user_ok lim (u_mem u) a (length bs)"
  shows "poke s tsk u a bs = Ret s tsk (u\<lparr>u_mem := fst (copy_to_user lim (u_mem u) a bs)\<rparr>) ()"
  using assms copy_to_user_ok [OF assms] by (auto simp: poke_def copy_to_user_def user_ok_def split: prod.splits)

lemma ioctl_device:
  assumes "d \<in> set (u_dev_fds u)" and "fibers_ioctl e lim s tsk (u_mem u) cmd args = Done s' tsk' (m', r)"
  shows "ioctl e lim s tsk u d cmd args = Ret s' tsk' (u\<lparr>u_mem := m'\<rparr>) (syscall_ret r)"
  using assms by (simp add: ioctl_def)

lemma syscall_ret_small:
  assumes "unat r < 2 ^ 31"
  shows "syscall_ret r = r"
proof -
  have "sint r = int (unat r)" using assms by (intro sint_eq_unat) simp
  moreover have "scast (ucast (of_nat (unat r) :: c_ulong) :: c_int) = (of_nat (unat r) :: c_long)"
    using small_casts(2,4) [OF assms] by simp
  ultimately show ?thesis by (simp add: syscall_ret_def)
qed

lemma lib_set_value:
  assumes fd: "u_fd u \<in> set (u_dev_fds u)" and F: "current_fls e s tsk = Some F" and i: "\<not> bad_index i"
    and used: "fls_view F (unat i) \<noteq> None" and fr: "user_ok lim (u_mem u) frame 16"
  shows "\<exists>s' m'. Fls_set_value e lim frame s tsk u i v = Ret s' tsk (u\<lparr>u_mem := m'\<rparr>) i \<and>
    current_fls e s' tsk = Some (fst (fls_set_slot F (unat i) v)) \<and>
    (\<forall>a n. user_ok lim m' a n = user_ok lim (u_mem u) a n)"
proof -
  let ?bs = "enc_fls_args \<lparr>la_idx = i, la_value = v\<rparr>"
  let ?m = "fst (copy_to_user lim (u_mem u) frame ?bs)"
  have ok: "user_ok lim (u_mem u) frame (length ?bs)" using fr fls_args.length_enc by simp
  obtain s' where s': "do_fls_set_value e s tsk i v = Done s' tsk (snd (fls_set_slot F (unat i) v))"
    "current_fls e s' tsk = Some (fst (fls_set_slot F (unat i) v))"
    using do_fls_set_current [OF F i] .
  have r: "snd (fls_set_slot F (unat i) v) = i" using fls.put_used [OF used, of v] good_index(2) [OF i] by auto
  have "copy_from_user lim ?m frame 16 = Some ?bs"
    using copy_from_user_same [OF ok] fls_args.length_enc by simp
  then have "fibers_ioctl e lim s tsk ?m IOCTL_FLS_SET_VALUE frame = Done s' tsk (?m, i)"
    using s'(1) r by (simp add: fibers_ioctl_eq ioctl_call_def ioctl_result_other fls_args.dec_enc)
  moreover have "syscall_ret i = i" "\<not> sint i < 0"
    using good_index(1) [OF i] i by (auto simp: bad_index_def intro: syscall_ret_small)
  ultimately have "Fls_set_value e lim frame s tsk u i v = Ret s' tsk (u\<lparr>u_mem := ?m\<rparr>) i"
    using fd by (simp add: Fls_set_value_def poke_ok [OF ok] ioctl_def)
  then show ?thesis using s'(2) by (intro exI [of _ s'] exI [of _ ?m]) simp
qed

lemma lib_get_value:
  assumes fd: "u_fd u \<in> set (u_dev_fds u)" and get: "do_fls_get_value e s tsk i = Done s tsk r"
    and fr: "user_ok lim (u_mem u) frame 16" and rv: "user_ok lim (u_mem u) rv 8"
    and dis: "disjoint_ranges frame 16 rv 8"
  shows "\<exists>u'. Fls_get_value e lim frame rv s tsk u i = Ret s tsk u' r"
proof -
  let ?z = "le_bytes 8 (0 :: c_long)" and ?bs = "enc_fls_args \<lparr>la_idx = i, la_value = rv\<rparr>"
  let ?m1 = "fst (copy_to_user lim (u_mem u) rv ?z)"
  let ?m2 = "fst (copy_to_user lim ?m1 frame ?bs)"
  let ?m3 = "fst (copy_to_user lim ?m2 rv (le_bytes 8 r))"
  have ok1: "user_ok lim (u_mem u) rv (length ?z)" using rv by simp
  have ok2: "user_ok lim ?m1 frame (length ?bs)" using fr fls_args.length_enc by simp
  have ok3: "user_ok lim ?m2 rv (length (le_bytes 8 r))" using rv by simp
  have "copy_from_user lim ?m2 frame 16 = Some ?bs"
    using copy_from_user_same [OF ok2] fls_args.length_enc by simp
  from ioctl_get [OF this get] copy_to_user_ok [OF ok3]
  have "fibers_ioctl e lim s tsk ?m2 IOCTL_FLS_GET_VALUE frame = Done s tsk (?m3, 0)"
    by (simp add: split_def)
  moreover have "load_bytes ?m3 rv 8 = Some (le_bytes 8 r)"
    using copy_from_user_same [OF ok3] by (simp add: copy_from_user_def split: if_splits)
  moreover have "syscall_ret 0 = 0" by (simp add: syscall_ret_small)
  ultimately show ?thesis
    using fd poke_ok [OF ok1] poke_ok [of lim "u\<lparr>u_mem := ?m1\<rparr>" frame ?bs] ok2
    by (simp add: Fls_get_value_def ioctl_def long_object.dec_enc)
qed

section \<open>Properties\<close>

text \<open>
  C11: A value stored with the library is read back with the library. For a thread that runs
  a fiber with the slot \<open>i\<close> in use, \<open>Fls_set_value\<close> returns \<open>i\<close> and a following
  \<open>Fls_get_value\<close> returns the stored value, every 64-bit value, through two system calls
  and the argument structures in the caller's memory.
\<close>

theorem library_fls_round_trip:
  assumes "u_fd u \<in> set (u_dev_fds u)" and "current_fls e s tsk = Some F" and "\<not> bad_index i"
    and "fls_view F (unat i) \<noteq> None"
    and "user_ok lim (u_mem u) frame1 16" and "user_ok lim (u_mem u) frame2 16"
    and "user_ok lim (u_mem u) rv 8" and "disjoint_ranges frame2 16 rv 8"
  shows "\<exists>s' u' u''. Fls_set_value e lim frame1 s tsk u i v = Ret s' tsk u' i \<and>
    Fls_get_value e lim frame2 rv s' tsk u' i = Ret s' tsk u'' v"
proof -
  obtain s' m' where set: "Fls_set_value e lim frame1 s tsk u i v = Ret s' tsk (u\<lparr>u_mem := m'\<rparr>) i"
    and F': "current_fls e s' tsk = Some (fst (fls_set_slot F (unat i) v))"
    and ok: "\<And>a n. user_ok lim m' a n = user_ok lim (u_mem u) a n"
    using lib_set_value [OF assms(1-5)] by blast
  have "do_fls_get_value e s' tsk i = Done s' tsk v"
    using do_fls_get_current [OF F' assms(3)] fls.put_then_get [OF assms(4) good_index(1) [OF assms(3)], of v]
    by simp
  from lib_get_value [OF _ this, of "u\<lparr>u_mem := m'\<rparr>" lim frame2 rv] set ok assms show ?thesis by simp
qed

definition demo_proc_mem :: uproc where
  "demo_proc_mem = \<lparr>u_fd = 3, u_dev_fds = [3], u_mem = demo_mem\<rparr>"

theorem library_fls_round_trip_witness:
  "\<exists>s s' u' u''. do_fls_alloc demo_env demo_state (demo_task 100 40) = Done s (demo_task 100 40) 0 \<and>
    Fls_set_value demo_env 1048576 4096 s (demo_task 100 40) demo_proc_mem 0 (- 13) = Ret s' (demo_task 100 40) u' 0 \<and>
    Fls_get_value demo_env 1048576 4096 8192 s' (demo_task 100 40) u' 0 = Ret s' (demo_task 100 40) u'' (- 13)"
proof -
  obtain s F where s: "do_fls_alloc demo_env demo_state (demo_task 100 40) = Done s (demo_task 100 40) 0"
    "current_fls demo_env s (demo_task 100 40) = Some F" "fls_view F 0 = Some 0" by (rule demo_fls)
  show ?thesis
    using s library_fls_round_trip [of demo_proc_mem demo_env s "demo_task 100 40" F 0 1048576 4096 4096 8192 "- 13"]
    by (simp add: demo_proc_mem_def demo_mem_ok bad_index_def disjoint_ranges_def)
qed

section \<open>Creating a fiber and switching to it\<close>

lemma create_then_switch:
  assumes inv: "kstate_inv e s" and g: "get_group e (tsk_tgid tsk) s = Some tg"
    and t: "get_thread e (tsk_pid tsk) tg = Some t" and left: "tg_fid_count tg \<noteq> - 2"
    and ok: "kmalloc_ok e (kmalloc_calls s)"
  shows "\<exists>s1 s2 tsk2. do_create_fiber e s tsk sb ss ep arg = Done s1 tsk (tg_fid_count tg + 1) \<and>
    do_switch_to_fiber e s1 tsk (tg_fid_count tg + 1) = Done s2 tsk2 SUCCESS \<and>
    regs_ip (tsk_regs tsk2) = ep \<and> regs_di (tsk_regs tsk2) = arg \<and> regs_sp (tsk_regs tsk2) = sb + ss - 8"
proof -
  let ?fid = "tg_fid_count tg + 1"
  obtain k1 where k: "kmalloc e s = (True, k1)" using ok by (simp add: kmalloc_def Let_def)
  let ?s1 = "set_group e (create_group e tsk t sb ss ep arg tg) k1"
  let ?f = "ALLOC_CONTEXT ep arg (ALLOC_STACK sb ss (new_fiber tg t tsk))"
  have create: "do_create_fiber e s tsk sb ss ep arg = Done ?s1 tsk ?fid"
    using g t k by (simp add: do_create_eq)
  have inv1: "kstate_inv e ?s1"
    using g left by (intro create_inv [OF inv _ create]) (simp add: fids_left_def)
  have key: "tg_tgid (create_group e tsk t sb ss ep arg tg) = tsk_tgid tsk"
    using group_key [OF g] by (simp add: create_group_def Let_def)
  have look: "get_group e (tsk_tgid tsk) ?s1 = Some (create_group e tsk t sb ss ep arg tg)"
    using g key get_group_cong [OF kmalloc_groups [OF k], of e] by (simp add: get_group_set)
  have f: "fiber_at e ?s1 (tsk_tgid tsk) ?fid = Some ?f" and t1: "thread_at e ?s1 (tsk_tgid tsk) (tsk_pid tsk) = Some t"
    using look t by (simp_all add: fiber_at_def thread_at_def create_group_fiber create_group_thread)
  have "info_state (f_info ?f) = 0" by (simp add: object_defs Let_def)
  from switch_idle_succeeds [OF inv1 t1 f this] create show ?thesis
    by (auto simp: object_defs new_fiber_def PREPARE_CONTEXT_def Let_def)
qed

text \<open>A pointer that holds the id of a fiber: the kernel reads its low four bytes.\<close>

lemma copy_pointer_id:
  assumes "user_ok lim m a 8"
  shows "copy_from_user lim (fst (copy_to_user lim m a (le_bytes 8 p))) a 4 = Some (take 4 (le_bytes 8 p))"
  using copy_from_user_prefix [of lim _ a 8 "le_bytes 8 p" 4] copy_from_user_same [of lim m a "le_bytes 8 p"]
    assms by simp

text \<open>The id of a fiber survives the conversions of the system call and of the library.\<close>

lemma id_result:
  assumes "unat fid < 2 ^ 31"
  shows "ucast (syscall_ret (scast (fid :: pid_t))) = (fid :: pid_t)"
proof -
  have "fid = of_nat (unat fid)" by simp
  then have "scast fid = (of_nat (unat fid) :: c_long)" using small_casts(4) [OF assms] by metis
  then show ?thesis
    using small_casts(1,2) [OF assms] syscall_ret_small [of "of_nat (unat fid)"] assms by simp
qed

lemma lib_convert_eq:
  assumes "\<not> sint fd < 0"
  shows "Convert_thread_to_fiber e lim fd s tsk u =
    (case do_convert_thread_to_fiber e s tsk of
       Done s1 tsk1 fid \<Rightarrow> Ret s1 tsk1 (u\<lparr>u_fd := fd, u_dev_fds := fd # u_dev_fds u\<rparr>) (ucast (syscall_ret (scast fid)))
     | Oops \<Rightarrow> Kernel_oops)"
  using assms by (simp add: Convert_thread_to_fiber_def ioctl_def Let_def fibers_ioctl_eq ioctl_call_def
      ioctl_result_other map_outcome_comp split: outcome.split)

lemma lib_create_eq:
  assumes fd: "u_fd u \<in> set (u_dev_fds u)"
    and fr: "user_ok lim (u_mem u) frame 32" and st: "user_ok lim (u_mem u) sb (unat ss)"
    and dis: "disjoint_ranges frame 32 sb (unat ss)"
  shows "\<exists>m'. Create_fiber e lim frame (Some sb) s tsk u ss ep arg =
      (case do_create_fiber e s tsk sb ss ep arg of
         Done s1 tsk1 fid \<Rightarrow> Ret s1 tsk1 (u\<lparr>u_mem := m'\<rparr>) (ucast (syscall_ret (scast fid)))
       | Oops \<Rightarrow> Kernel_oops) \<and>
    (\<forall>a n. user_ok lim m' a n = user_ok lim (u_mem u) a n) \<and> (\<forall>x. in_range sb (unat ss) x \<longrightarrow> m' x = Some 0)"
proof -
  let ?bs = "enc_fib_args \<lparr>fa_stack_base = sb, fa_stack_size = ss, fa_entry_point = ep, fa_params = arg\<rparr>"
  let ?z = "replicate (unat ss) 0 :: byte list"
  let ?m1 = "fst (copy_to_user lim (u_mem u) frame ?bs)"
  let ?m2 = "fst (copy_to_user lim ?m1 sb ?z)"
  have ok1: "user_ok lim (u_mem u) frame (length ?bs)" using fr fib_args.length_enc by simp
  have ok2: "user_ok lim ?m1 sb (length ?z)" using st by simp
  have "copy_from_user lim ?m2 frame 32 = Some ?bs"
    using copy_from_user_same [OF ok1] fib_args.length_enc dis by (simp add: copy_from_user_disjoint)
  then have "fibers_ioctl e lim s tsk ?m2 IOCTL_CREATE_FIBER frame =
      map_outcome (\<lambda>fid. (?m2, scast fid)) (do_create_fiber e s tsk sb ss ep arg)"
    by (simp add: fibers_ioctl_eq ioctl_call_def ioctl_result_other fib_args.dec_enc map_outcome_comp)
  then have "Create_fiber e lim frame (Some sb) s tsk u ss ep arg =
      (case do_create_fiber e s tsk sb ss ep arg of
         Done s1 tsk1 fid \<Rightarrow> Ret s1 tsk1 (u\<lparr>u_mem := ?m2\<rparr>) (ucast (syscall_ret (scast fid)))
       | Oops \<Rightarrow> Kernel_oops)"
    using fd poke_ok [OF ok1] poke_ok [of lim "u\<lparr>u_mem := ?m1\<rparr>" sb ?z] ok2
    by (simp add: Create_fiber_def ioctl_def split: outcome.split)
  moreover have "?m2 x = Some 0" if "in_range sb (unat ss) x" for x
    using that ok2 store_zeros [of ?m1 sb "unat ss" x] access_ok_bound [of lim sb "unat ss"]
    by (simp add: copy_to_user_def user_ok_def)
  ultimately show ?thesis by (intro exI [of _ ?m2]) simp
qed

lemma lib_create:
  assumes "u_fd u \<in> set (u_dev_fds u)"
    and create: "do_create_fiber e s tsk sb ss ep arg = Done s1 tsk fid" and small: "unat fid < 2 ^ 31"
    and "user_ok lim (u_mem u) frame 32" and "user_ok lim (u_mem u) sb (unat ss)"
    and "disjoint_ranges frame 32 sb (unat ss)"
  shows "\<exists>m'. Create_fiber e lim frame (Some sb) s tsk u ss ep arg = Ret s1 tsk (u\<lparr>u_mem := m'\<rparr>) fid \<and>
    (\<forall>a n. user_ok lim m' a n = user_ok lim (u_mem u) a n) \<and> (\<forall>x. in_range sb (unat ss) x \<longrightarrow> m' x = Some 0)"
  using lib_create_eq [OF assms(1,4-6), of e s tsk ep arg] create id_result [OF small] by simp

lemma lib_switch_eq:
  assumes fd: "u_fd u \<in> set (u_dev_fds u)" and fr: "user_ok lim (u_mem u) frame 8"
  shows "Switch_to_fiber e lim frame s tsk u fib =
    (case do_switch_to_fiber e s tsk (ucast fib) of
       Done s' tsk' r \<Rightarrow> Ret s' tsk' (u\<lparr>u_mem := fst (copy_to_user lim (u_mem u) frame (le_bytes 8 fib))\<rparr>)
         (if sint (syscall_ret (scast r)) < 0 then - EAGAIN else ucast (syscall_ret (scast r)))
     | Oops \<Rightarrow> Kernel_oops)"
proof -
  let ?m = "fst (copy_to_user lim (u_mem u) frame (le_bytes 8 fib))"
  have ok: "user_ok lim (u_mem u) frame (length (le_bytes 8 fib))" using fr by simp
  have "le_word (take 4 (le_bytes 8 fib)) = (ucast fib :: pid_t)" by (rule le_word_take) simp_all
  then have "fibers_ioctl e lim s tsk ?m IOCTL_SWITCH_TO_FIBER frame =
      map_outcome (\<lambda>r. (?m, scast r)) (do_switch_to_fiber e s tsk (ucast fib))"
    by (simp add: fibers_ioctl_eq ioctl_call_def ioctl_result_other copy_pointer_id [OF fr] map_outcome_comp)
  then show ?thesis using fd poke_ok [OF ok] by (simp add: Switch_to_fiber_def ioctl_def split: outcome.split)
qed

lemma lib_switch:
  assumes "u_fd u \<in> set (u_dev_fds u)" and "user_ok lim (u_mem u) frame 8"
    and "do_switch_to_fiber e s tsk (ucast fib) = Done s' tsk' SUCCESS"
  shows "Switch_to_fiber e lim frame s tsk u fib =
    Ret s' tsk' (u\<lparr>u_mem := fst (copy_to_user lim (u_mem u) frame (le_bytes 8 fib))\<rparr>) 0"
  using assms(3) syscall_ret_small [of 0] by (simp add: lib_switch_eq [OF assms(1,2)])

text \<open>
  C10: A fiber created with the library starts on its own stack. When a registered thread
  creates a fiber with a stack block from \<open>posix_memalign\<close> (16-byte aligned, size a multiple
  of 16) and passes the returned id to \<open>Switch_to_fiber\<close>, the call succeeds and the thread
  continues at the entry point with its parameter, the stack pointer eight bytes below the
  end of the block and aligned as the calling convention asks at a function entry; the
  eight bytes there, which the entry function takes for its return address, are zero.
\<close>

theorem library_create_and_switch:
  assumes inv: "kstate_inv e s" and g: "get_group e (tsk_tgid tsk) s = Some tg"
    and t: "get_thread e (tsk_pid tsk) tg = Some t" and left: "unat (tg_fid_count tg + 1) < 2 ^ 31"
    and ok: "kmalloc_ok e (kmalloc_calls s)" and fd: "u_fd u \<in> set (u_dev_fds u)"
    and mem: "user_ok lim (u_mem u) frame 32" "user_ok lim (u_mem u) sb (unat ss)"
      "user_ok lim (u_mem u) frame' 8"
    and dis: "disjoint_ranges frame 32 sb (unat ss)" "disjoint_ranges sb (unat ss) frame' 8"
    and stack: "unat sb mod 16 = 0" "unat ss mod 16 = 0" "0 < unat ss"
  shows "\<exists>fid s1 u1 s2 tsk2 u2.
    Create_fiber e lim frame (Some sb) s tsk u ss ep arg = Ret s1 tsk u1 fid \<and>
    Switch_to_fiber e lim frame' s1 tsk u1 (ucast fid) = Ret s2 tsk2 u2 0 \<and>
    regs_ip (tsk_regs tsk2) = ep \<and> regs_di (tsk_regs tsk2) = arg \<and>
    unat (regs_sp (tsk_regs tsk2)) = unat sb + unat ss - 8 \<and>
    (unat (regs_sp (tsk_regs tsk2)) + 8) mod 16 = 0 \<and>
    load_bytes (u_mem u2) (regs_sp (tsk_regs tsk2)) 8 = Some (replicate 8 0)"
proof -
  let ?fid = "tg_fid_count tg + 1" and ?sp = "sb + ss - 8"
  have "tg_fid_count tg \<noteq> - 2" using left by (auto simp: unat_minus_1_32)
  from create_then_switch [OF inv g t this ok, of sb ss ep arg] obtain s1 s2 tsk2 where
    create: "do_create_fiber e s tsk sb ss ep arg = Done s1 tsk ?fid" and
    switch: "do_switch_to_fiber e s1 tsk ?fid = Done s2 tsk2 SUCCESS" and
    regs: "regs_ip (tsk_regs tsk2) = ep" "regs_di (tsk_regs tsk2) = arg" "regs_sp (tsk_regs tsk2) = ?sp" by blast
  obtain m' where 1: "Create_fiber e lim frame (Some sb) s tsk u ss ep arg = Ret s1 tsk (u\<lparr>u_mem := m'\<rparr>) ?fid"
    and ok': "\<And>a n. user_ok lim m' a n = user_ok lim (u_mem u) a n"
    and zero: "\<And>x. in_range sb (unat ss) x \<Longrightarrow> m' x = Some 0"
    using lib_create [OF fd create left mem(1,2) dis(1)] by blast
  have "(ucast (ucast ?fid :: addr) :: pid_t) = ?fid" by (rule bit_word_eqI) (simp add: bit_ucast_iff)
  then have 2: "Switch_to_fiber e lim frame' s1 tsk (u\<lparr>u_mem := m'\<rparr>) (ucast ?fid) =
      Ret s2 tsk2 (u\<lparr>u_mem := fst (copy_to_user lim m' frame' (le_bytes 8 (ucast ?fid :: addr)))\<rparr>) 0"
    using lib_switch [of "u\<lparr>u_mem := m'\<rparr>" lim frame' e s1 tsk "ucast ?fid"] fd ok' mem(3) switch by simp
  have b: "unat sb + unat ss < 2 ^ 64" using mem(2) access_ok_bound by (auto simp: user_ok_def)
  have ge: "16 \<le> unat ss" using stack(2,3) by (intro dvd_imp_le) (simp_all add: dvd_eq_mod_eq_0)
  have sum: "unat (sb + ss) = unat sb + unat ss" using b by (simp add: unat_word_ariths)
  have sp: "unat ?sp = unat sb + unat ss - 8" using sum ge by (simp add: unat_sub word_le_nat_alt)
  have "fst (copy_to_user lim m' frame' (le_bytes 8 (ucast ?fid :: addr))) x = Some 0" if "in_range ?sp 8 x" for x
  proof -
    have x: "in_range sb (unat ss) x" using that sp ge by (auto simp: in_range_def)
    then have "\<not> in_range frame' 8 x" using dis(2) by (auto simp: in_range_def disjoint_ranges_def)
    then show ?thesis using zero [OF x] by (simp add: copy_to_user_outside)
  qed
  then have "load_bytes (fst (copy_to_user lim m' frame' (le_bytes 8 (ucast ?fid :: addr)))) ?sp 8 =
      Some (replicate 8 0)" using b sp ge by (intro load_zeros) simp_all
  moreover have "(unat ?sp + 8) mod 16 = 0" using sp ge stack by (simp add: mod_add_eq [symmetric])
  ultimately show ?thesis using 1 2 regs sp by fastforce
qed

theorem library_create_and_switch_witness:
  "\<exists>fid s1 u1 s2 tsk2 u2.
    Create_fiber demo_env 1048576 4096 (Some 65536) demo_state (demo_task 100 40) demo_proc_mem 8192 4194304 7 =
      Ret s1 (demo_task 100 40) u1 fid \<and>
    Switch_to_fiber demo_env 1048576 8192 s1 (demo_task 100 40) u1 (ucast fid) = Ret s2 tsk2 u2 0 \<and>
    regs_ip (tsk_regs tsk2) = 4194304 \<and> unat (regs_sp (tsk_regs tsk2)) = 73720"
proof -
  have "tg_fid_count demo_group = 2" by (simp add: demo_group_def demo_state_def demo_defs eval_defs)
  then have "unat (tg_fid_count demo_group + 1) < 2 ^ 31" by simp
  from library_create_and_switch [OF demo_inv _ _ this, of "demo_task 100 40" _ demo_proc_mem 1048576 4096 65536
      8192 8192 4194304 7] demo_get_group demo_threads(1)
  show ?thesis
    by (simp add: demo_proc_mem_def demo_mem_ok disjoint_ranges_def demo_env_def) blast
qed

end
