(* ===== verification/Testbed.thy ===== *)
theory Testbed
  imports Fls "HOL-Library.Word"
begin

text \<open>
  The rest of the testbed under \<open>libfibers/testbed/src\<close>: the local storage and the stacks of
  the fibers in user space (\<open>ult.c\<close>), the creation of threads (\<open>thread.c\<close>), and the start and
  the end of the program (\<open>main.c\<close>).
\<close>

section \<open>Local storage in user space\<close>

text \<open>One array for all fibers; the index is handed out by an atomic increment.\<close>

record ult_fls =
  fls_array :: "64 word list"
  fls_idx :: int

abbreviation (input) MAX_FLS :: nat where "MAX_FLS \<equiv> 4096"

definition fls_start :: ult_fls where
  "fls_start = \<lparr>fls_array = replicate MAX_FLS 0, fls_idx = 0\<rparr>"

definition fls_alloc :: "ult_fls \<Rightarrow> ult_fls \<times> int" where
  "fls_alloc s = (let r = fls_idx s in (s\<lparr>fls_idx := fls_idx s + 1\<rparr>, if r \<ge> int MAX_FLS then - 1 else r))"

text \<open>There is no bounds check: an index outside the array is the result \<open>None\<close>.\<close>

definition fls_get :: "ult_fls \<Rightarrow> int \<Rightarrow> 64 word option" where
  "fls_get s i = (if 0 \<le> i \<and> i < int (length (fls_array s)) then Some (fls_array s ! nat i) else None)"

definition fls_free :: "ult_fls \<Rightarrow> int \<Rightarrow> bool" where
  "fls_free s i = True"

definition fls_set :: "ult_fls \<Rightarrow> int \<Rightarrow> 64 word \<Rightarrow> ult_fls option" where
  "fls_set s i v = (if 0 \<le> i \<and> i < int (length (fls_array s)) then Some (s\<lparr>fls_array := (fls_array s)[nat i := v]\<rparr>) else None)"

subsection \<open>What the loop of a fiber needs of the storage\<close>

text \<open>
  The loop of a fiber keeps its queue and its state in two slots. It needs that slots it
  allocates are different, and that a value stays in its slot until the slot is written
  again. Both implementations the testbed can be built with provide this: the one above
  and the storage of the kernel module.
\<close>

locale local_slots =
  fixes ok :: "'s \<Rightarrow> bool" and used :: "'s \<Rightarrow> 'i \<Rightarrow> bool" and failed :: "'i \<Rightarrow> bool"
    and alloc :: "'s \<Rightarrow> 's \<times> 'i" and get :: "'s \<Rightarrow> 'i \<Rightarrow> 'v" and put :: "'s \<Rightarrow> 'i \<Rightarrow> 'v \<Rightarrow> 's"
  assumes alloc_new: "ok s \<Longrightarrow> alloc s = (s', i) \<Longrightarrow> \<not> failed i \<Longrightarrow>
      ok s' \<and> \<not> used s i \<and> used s' i \<and> (\<forall>j. used s j \<longrightarrow> used s' j \<and> get s' j = get s j)"
    and put_same: "ok s \<Longrightarrow> used s i \<Longrightarrow> ok (put s i v) \<and> used (put s i v) = used s \<and> get (put s i v) i = v"
    and put_other: "ok s \<Longrightarrow> used s i \<Longrightarrow> used s j \<Longrightarrow> j \<noteq> i \<Longrightarrow> get (put s i v) j = get s j"
begin

lemma two_slots:
  assumes "ok s" "alloc s = (s1, i)" "\<not> failed i" "alloc s1 = (s2, j)" "\<not> failed j"
  shows "i \<noteq> j \<and> get (put (put s2 i v) j w) i = v \<and> get (put (put s2 i v) j w) j = w"
proof -
  have s1: "ok s1" "used s1 i" using alloc_new [OF assms(1-3)] by blast+
  have s2: "ok s2" "\<not> used s1 j" "used s2 j" "used s2 i" using alloc_new [OF s1(1) assms(4,5)] s1(2) by blast+
  have ne: "i \<noteq> j" using s1(2) s2(2) by blast
  have p: "ok (put s2 i v)" "used (put s2 i v) = used s2" "get (put s2 i v) i = v" using put_same [OF s2(1,4)] by blast+
  then have "used (put s2 i v) j" "used (put s2 i v) i" using s2 by simp_all
  then show ?thesis using put_same [OF p(1)] put_other [OF p(1)] p(3) ne by metis
qed

end

definition ult_fls_ok :: "ult_fls \<Rightarrow> bool" where
  "ult_fls_ok s \<longleftrightarrow> length (fls_array s) = MAX_FLS \<and> 0 \<le> fls_idx s"

definition ult_fls_used :: "ult_fls \<Rightarrow> int \<Rightarrow> bool" where
  "ult_fls_used s i \<longleftrightarrow> 0 \<le> i \<and> i < int MAX_FLS \<and> i < fls_idx s"

interpretation ult_slots: local_slots ult_fls_ok ult_fls_used "\<lambda>i. i = - 1" fls_alloc
    "\<lambda>s i. the (fls_get s i)" "\<lambda>s i v. the (fls_set s i v)"
proof unfold_locales
  fix s s' :: ult_fls and i
  assume "ult_fls_ok s" "fls_alloc s = (s', i)" "i \<noteq> - 1"
  then show "ult_fls_ok s' \<and> \<not> ult_fls_used s i \<and> ult_fls_used s' i \<and>
      (\<forall>j. ult_fls_used s j \<longrightarrow> ult_fls_used s' j \<and> the (fls_get s' j) = the (fls_get s j))"
    by (auto simp: fls_alloc_def ult_fls_ok_def ult_fls_used_def fls_get_def Let_def split: if_splits)
next
  fix s :: ult_fls and i v
  assume "ult_fls_ok s" "ult_fls_used s i"
  then show "ult_fls_ok (the (fls_set s i v)) \<and> ult_fls_used (the (fls_set s i v)) = ult_fls_used s \<and>
      the (fls_get (the (fls_set s i v)) i) = v"
    by (auto simp: ult_fls_ok_def ult_fls_used_def fls_get_def fls_set_def fun_eq_iff nat_less_iff)
next
  fix s :: ult_fls and i j v
  assume "ult_fls_ok s" "ult_fls_used s i" "ult_fls_used s j" "j \<noteq> i"
  then show "the (fls_get (the (fls_set s i v)) j) = the (fls_get s j)"
    by (auto simp: ult_fls_ok_def ult_fls_used_def fls_get_def fls_set_def nth_list_update eq_nat_nat_iff)
qed

lemma unat_slot: "i < FLS_MAX_SIZE \<Longrightarrow> unat (of_nat i :: c_long) = i"
  by (simp add: unsigned_of_nat take_bit_nat_eq_self)

interpretation kernel_slots: local_slots "\<lambda>_. True" "\<lambda>s i. fls_view s (unat i) \<noteq> None" "\<lambda>i. i = - EINVAL"
    fls_alloc_slot "\<lambda>s i. fls_get_slot s (unat i)" "\<lambda>s i v. fst (fls_set_slot s (unat i) v)"
proof unfold_locales
  fix s s' :: fls_t and i :: c_long
  assume a: "fls_alloc_slot s = (s', i)" "i \<noteq> - EINVAL"
  obtain k v where k: "k < FLS_MAX_SIZE" "i = of_nat k" "fls_view s k = None" "fls_view s' = (fls_view s)(k \<mapsto> v)"
    using a by (cases s rule: fls.alloc_cases) auto
  have "fls_get_slot s' (unat j) = fls_get_slot s (unat j)" if "fls_view s (unat j) \<noteq> None" for j :: c_long
    using that k fls.get_used by (metis fun_upd_other option.exhaust)
  then have "\<forall>j :: c_long. fls_view s (unat j) \<noteq> None \<longrightarrow> fls_view s' (unat j) \<noteq> None \<and>
      fls_get_slot s' (unat j) = fls_get_slot s (unat j)" using k(4) by simp
  then show "True \<and> \<not> fls_view s (unat i) \<noteq> None \<and> fls_view s' (unat i) \<noteq> None \<and>
      (\<forall>j :: c_long. fls_view s (unat j) \<noteq> None \<longrightarrow> fls_view s' (unat j) \<noteq> None \<and> fls_get_slot s' (unat j) = fls_get_slot s (unat j))"
    using k(3,4) by (simp only: k(2) unat_slot [OF k(1)]) simp
next
  fix s :: fls_t and i v :: c_long
  assume u: "fls_view s (unat i) \<noteq> None"
  obtain s' where s': "fls_set_slot s (unat i) v = (s', of_nat (unat i))" "fls_view s' = (fls_view s)(unat i \<mapsto> v)"
    using fls.put_used [OF u] by blast
  then show "True \<and> (\<lambda>j :: c_long. fls_view (fst (fls_set_slot s (unat i) v)) (unat j) \<noteq> None) = (\<lambda>j. fls_view s (unat j) \<noteq> None) \<and>
      fls_get_slot (fst (fls_set_slot s (unat i) v)) (unat i) = v"
    using u fls.get_used [of s' "unat i" v] by (auto simp: fun_eq_iff)
next
  fix s :: fls_t and i j v :: c_long
  assume u: "fls_view s (unat i) \<noteq> None" "fls_view s (unat j) \<noteq> None" "j \<noteq> i"
  then have "unat j < FLS_MAX_SIZE" "unat j \<noteq> unat i" by (auto simp: fls.view_cap word_unat_eq_iff)
  then show "fls_get_slot (fst (fls_set_slot s (unat i) v)) (unat j) = fls_get_slot s (unat j)"
    using fls.put_then_get [OF u(1), of "unat j" v] by simp
qed

section \<open>Stacks\<close>

text \<open>
  The size of a new stack, rounded up to pages, the number of bytes that are allocated and
  the number of bytes that are set to zero. The page size and \<open>SIGSTKSZ\<close> are arguments.
\<close>

abbreviation (input) STACK_SIZE :: nat where "STACK_SIZE \<equiv> 8192"

record ult_stack =
  stack_alloc :: nat
  stack_zeroed :: nat

definition get_ult_stack :: "nat \<Rightarrow> nat \<Rightarrow> nat \<Rightarrow> ult_stack" where
  "get_ult_stack page sigstksz sz =
     (let sz = (if sz \<le> 0 then sigstksz else sz);
          reminder = sz mod page;
          sz = (if reminder \<noteq> 0 then sz + (page - reminder) else sz)
      in \<lparr>stack_alloc = STACK_SIZE, stack_zeroed = sz\<rparr>)"

lemma page_round:
  assumes "0 < page" "0 < sz"
  shows "let z = stack_zeroed (get_ult_stack page k sz) in sz \<le> z \<and> z < sz + page \<and> page dvd z"
proof (cases "sz mod page = 0")
  case False
  have "sz mod page < page" using assms(1) by simp
  moreover have "(sz + (page - sz mod page)) mod page = 0"
    using calculation by (metis le_add_diff_inverse less_imp_le_nat mod_add_left_eq mod_self)
  moreover have "stack_zeroed (get_ult_stack page k sz) = sz + (page - sz mod page)"
    using False assms(2) by (simp add: get_ult_stack_def Let_def)
  ultimately show ?thesis using False by (simp only: Let_def dvd_eq_mod_eq_0) (intro conjI; linarith)
qed (use assms in \<open>auto simp: get_ult_stack_def Let_def\<close>)

text \<open>
  The allocation ignores the size that was asked for: a stack larger than 8192 bytes is set
  to zero beyond the memory that was allocated for it.
\<close>

lemma stack_zeroed_beyond:
  assumes "0 < page" "STACK_SIZE < sz"
  shows "stack_alloc (get_ult_stack page k sz) < stack_zeroed (get_ult_stack page k sz)"
  using page_round [OF assms(1), of sz k] assms(2) by (simp add: Let_def) (simp add: get_ult_stack_def Let_def)

section \<open>Threads\<close>

text \<open>
  The start of a thread is a sequence of accesses to shared memory: the loop that takes a
  number by compare-and-swap, the read of the argument, the start routine and the release
  of the argument, which all threads share. A step of a thread gives the next state or an
  access to released memory.
\<close>

datatype thread_pc = Begin | Read "32 word" | Numbered "32 word" | Running "32 word" | Ended "32 word"

record thread_state =
  thread_counter :: "32 word"
  arg_freed :: bool
  threads_pc :: "nat \<Rightarrow> thread_pc"

definition threads_start :: thread_state where
  "threads_start = \<lparr>thread_counter = 0, arg_freed = False, threads_pc = (\<lambda>_. Begin)\<rparr>"

fun helper_create_thread :: "nat \<Rightarrow> thread_pc \<Rightarrow> thread_state \<Rightarrow> thread_state option" where
  "helper_create_thread t Begin s = Some (s\<lparr>threads_pc := (threads_pc s)(t := Read (thread_counter s))\<rparr>)"
| "helper_create_thread t (Read old) s =
     (let tid = old + 1
      in if thread_counter s = old
         then Some (s\<lparr>thread_counter := tid, threads_pc := (threads_pc s)(t := Numbered tid)\<rparr>)
         else Some (s\<lparr>threads_pc := (threads_pc s)(t := Begin)\<rparr>))"
| "helper_create_thread t (Numbered tid) s =
     (if arg_freed s then None else Some (s\<lparr>threads_pc := (threads_pc s)(t := Running tid)\<rparr>))"
| "helper_create_thread t (Running tid) s =
     (if arg_freed s then None else Some (s\<lparr>arg_freed := True, threads_pc := (threads_pc s)(t := Ended tid)\<rparr>))"
| "helper_create_thread t (Ended tid) s = Some s"

definition thread_step :: "nat \<Rightarrow> thread_state \<Rightarrow> thread_state option" where
  "thread_step t s = helper_create_thread t (threads_pc s t) s"

text \<open>\<open>create_threads\<close> takes the number of threads as a short.\<close>

definition create_threads :: "32 word \<Rightarrow> nat set" where
  "create_threads n = {..<unat (ucast n :: 16 word)}"

inductive thread_reach :: "nat set \<Rightarrow> thread_state \<Rightarrow> bool" for T where
  start: "thread_reach T threads_start"
| step: "thread_reach T s \<Longrightarrow> t \<in> T \<Longrightarrow> thread_step t s = Some s' \<Longrightarrow> thread_reach T s'"

fun tid_of :: "thread_pc \<Rightarrow> 32 word option" where
  "tid_of Begin = None"
| "tid_of (Read old) = None"
| "tid_of (Numbered tid) = Some tid"
| "tid_of (Running tid) = Some tid"
| "tid_of (Ended tid) = Some tid"

definition numbered :: "thread_state \<Rightarrow> nat set" where
  "numbered s = {t. tid_of (threads_pc s t) \<noteq> None}"

definition tids_ok :: "nat set \<Rightarrow> thread_state \<Rightarrow> bool" where
  "tids_ok T s \<longleftrightarrow> numbered s \<subseteq> T \<and> unat (thread_counter s) = card (numbered s) \<and>
     (\<forall>t n. tid_of (threads_pc s t) = Some n \<longrightarrow> 1 \<le> unat n \<and> unat n \<le> card (numbered s)) \<and>
     (\<forall>t u n. tid_of (threads_pc s t) = Some n \<and> tid_of (threads_pc s u) = Some n \<longrightarrow> t = u)"

lemma tids_ok_same:
  assumes "tids_ok T s" "thread_counter s' = thread_counter s"
    and "\<And>u. tid_of (threads_pc s' u) = tid_of (threads_pc s u)"
  shows "tids_ok T s'"
  using assms by (simp add: tids_ok_def numbered_def)

lemma thread_step_ok:
  assumes T: "finite T" "card T < 2 ^ 32" and ok: "tids_ok T s" and t: "t \<in> T" and step: "thread_step t s = Some s'"
  shows "tids_ok T s'"
proof (cases "\<exists>old. threads_pc s t = Read old \<and> thread_counter s = old")
  case False
  then show ?thesis using step
    by (intro tids_ok_same [OF ok]) (cases "threads_pc s t"; auto simp: thread_step_def Let_def split: if_splits)+
next
  case True
  then obtain old where old: "threads_pc s t = Read old" "thread_counter s = old" by blast
  then have s': "s' = s\<lparr>thread_counter := old + 1, threads_pc := (threads_pc s)(t := Numbered (old + 1))\<rparr>"
    using step by (simp add: thread_step_def Let_def)
  have n: "numbered s' = insert t (numbered s)" "t \<notin> numbered s" using old by (auto simp: s' numbered_def)
  have fin: "finite (numbered s)" using ok T(1) finite_subset by (auto simp: tids_ok_def)
  have "insert t (numbered s) \<subseteq> T" using ok t by (simp add: tids_ok_def)
  then have "card (insert t (numbered s)) \<le> card T" by (rule card_mono [OF T(1)])
  then have "Suc (card (numbered s)) \<le> card T" by (simp only: card_insert_disjoint [OF fin n(2)])
  then have plus: "unat (old + 1) = Suc (unat old)" using ok T(2) old(2) by (simp add: tids_ok_def unat_word_ariths)
  have c: "card (numbered s') = Suc (card (numbered s))" using n fin by simp
  have count: "unat old = card (numbered s)" using ok old(2) by (simp add: tids_ok_def)
  have tid: "tid_of (threads_pc s' u) = (if u = t then Some (old + 1) else tid_of (threads_pc s u))" for u by (simp add: s')
  have range: "1 \<le> unat n \<and> unat n \<le> card (numbered s)" if "tid_of (threads_pc s u) = Some n" for u n
    using ok that unfolding tids_ok_def by blast
  have new: "tid_of (threads_pc s u) \<noteq> Some (old + 1)" for u using range [of u "old + 1"] plus count by auto
  show ?thesis unfolding tids_ok_def
  proof (intro conjI allI impI)
    show "numbered s' \<subseteq> T" using n(1) ok t by (simp add: tids_ok_def)
    show "unat (thread_counter s') = card (numbered s')" using plus count c by (simp add: s')
    show "1 \<le> unat m" "unat m \<le> card (numbered s')" if "tid_of (threads_pc s' u) = Some m" for u m
      using that range [of u m] plus count by (auto simp: tid c split: if_splits)
    show "u = v" if "tid_of (threads_pc s' u) = Some m \<and> tid_of (threads_pc s' v) = Some m" for u v m
    proof (cases "u = t \<or> v = t")
      case True
      then show ?thesis using that new [of u] new [of v] by (auto simp: tid split: if_splits)
    next
      case False
      then show ?thesis using that ok unfolding tids_ok_def by (simp add: tid)
    qed
  qed
qed

lemma thread_reach_ok:
  assumes "finite T" "card T < 2 ^ 32" "thread_reach T s"
  shows "tids_ok T s"
  using assms(3)
proof (induction rule: thread_reach.induct)
  case start
  then show ?case by (simp add: tids_ok_def threads_start_def numbered_def)
next
  case (step s t s')
  then show ?case using thread_step_ok [OF assms(1,2)] by blast
qed

text \<open>
  C34: However the threads made by \<open>create_threads\<close> interleave, each thread that has left the
  loop has its own number between 1 and the number of threads that have left it, and the
  counter is that number.
\<close>

theorem thread_numbers_unique:
  assumes "thread_reach (create_threads n) s"
  shows "unat (thread_counter s) = card (numbered s) \<and>
    (tid_of (threads_pc s t) = Some i \<longrightarrow> 1 \<le> unat i \<and> unat i \<le> card (numbered s)) \<and>
    (tid_of (threads_pc s t) = Some i \<and> tid_of (threads_pc s u) = Some i \<longrightarrow> t = u)"
proof -
  have "unat (ucast n :: 16 word) < 2 ^ 16" using unsigned_less [where ?'a = nat, of "ucast n :: 16 word"] by simp
  then have "tids_ok (create_threads n) s" using assms by (intro thread_reach_ok) (auto simp: create_threads_def)
  then show ?thesis unfolding tids_ok_def by blast
qed

fun thread_run :: "nat list \<Rightarrow> thread_state \<Rightarrow> thread_state option" where
  "thread_run [] s = Some s"
| "thread_run (t # ts) s = Option.bind (thread_step t s) (thread_run ts)"

lemma thread_run_reach: "thread_reach T s \<Longrightarrow> set ts \<subseteq> T \<Longrightarrow> thread_run ts s = Some s' \<Longrightarrow> thread_reach T s'"
  by (induction ts arbitrary: s) (auto intro: thread_reach.step split: Option.bind_splits)

lemma two_threads: "create_threads 2 = {0, 1}"
proof -
  have "unat (ucast (2 :: 32 word) :: 16 word) = 2" by simp
  then show ?thesis by (auto simp: create_threads_def)
qed

lemma demo_thread_run:
  "\<exists>s. thread_run [0, 1, 0, 1, 1, 1] threads_start = Some s \<and> threads_pc s 0 = Numbered 1 \<and> threads_pc s 1 = Numbered 2"
  by (simp add: thread_step_def threads_start_def)

theorem thread_numbers_unique_witness:
  "\<exists>s. thread_run [0, 1, 0, 1, 1, 1] threads_start = Some s \<and> threads_pc s 0 = Numbered 1 \<and>
     threads_pc s 1 = Numbered 2 \<and> unat (thread_counter s) = card (numbered s)"
proof -
  obtain s where s: "thread_run [0, 1, 0, 1, 1, 1] threads_start = Some s" "threads_pc s 0 = Numbered 1" "threads_pc s 1 = Numbered 2"
    using demo_thread_run by blast
  have "thread_reach (create_threads 2) s"
    by (rule thread_run_reach [OF thread_reach.start _ s(1)]) (simp add: two_threads)
  from thread_numbers_unique [OF this, of 0 1 1] show ?thesis using s by blast
qed

text \<open>
  The argument is released once per thread: a second thread whose start routine returns
  releases it again. The start routine of the testbed does not return.
\<close>

lemma thread_argument_freed_twice:
  "\<exists>s. thread_run [0, 0, 1, 1, 0, 1, 0] threads_start = Some s \<and> thread_step 1 s = None"
  by (simp add: thread_step_def threads_start_def)

section \<open>The start and the end of the program\<close>

text \<open>
  The checks of \<open>main\<close> on the number of processors, the number of arguments, the value
  \<open>strtoll\<close> returns and \<open>errno\<close>; the result is the number of fibers.
\<close>

definition main_checks :: "32 word \<Rightarrow> int \<Rightarrow> int \<Rightarrow> bool \<Rightarrow> 32 word option" where
  "main_checks cpus argc parsed einval =
     (if cpus < 1 then None
      else if argc < 2 then None
      else (let num_fibers = of_int parsed
        in if num_fibers = 0 \<and> einval then None
           else if num_fibers \<le> cpus then None
           else Some num_fibers))"

definition get_random_fiber :: "32 word \<Rightarrow> nat \<Rightarrow> nat" where
  "get_random_fiber num_fibers random = random mod unat num_fibers"

text \<open>The identifiers the fibers are created with, in the order of the array.\<close>

definition fiber_ids :: "32 word \<Rightarrow> nat list" where
  "fiber_ids num_fibers = 1 # map (\<lambda>i. i + 1) [1..<unat num_fibers]"

record progress =
  completed_fibers :: "32 word"
  exec_millis :: "64 word"

definition start_progress :: "32 word \<Rightarrow> progress" where
  "start_progress num_fibers = \<lparr>completed_fibers = num_fibers, exec_millis = 0\<rparr>"

text \<open>The end of the loop of a fiber: two atomic updates.\<close>

definition fiber_done :: "32 word \<Rightarrow> progress \<Rightarrow> progress" where
  "fiber_done millis p =
     p\<lparr>exec_millis := exec_millis p + ucast millis, completed_fibers := completed_fibers p - 1\<rparr>"

definition waiting :: "progress \<Rightarrow> bool" where
  "waiting p \<longleftrightarrow> completed_fibers p > 0"

lemma fold_done:
  "completed_fibers (fold fiber_done ms p) = completed_fibers p - of_nat (length ms) \<and>
   exec_millis (fold fiber_done ms p) = exec_millis p + sum_list (map ucast ms)"
  by (induction ms arbitrary: p) (auto simp: fiber_done_def algebra_simps)

text \<open>
  When the checks of \<open>main\<close> pass, there are more fibers than processors, the fibers have
  the identifiers from 1 to their number, each once, and every random choice is an index of
  the array. The fiber with identifier 1 waits for the others until exactly all of them
  have left their loop, and the time it prints is the sum of their times.
\<close>

lemma main_waits_for_all:
  assumes "main_checks cpus argc parsed einval = Some n" "length ms \<le> unat n"
  shows "cpus < n \<and> fiber_ids n = [1..<unat n + 1] \<and> get_random_fiber n r < length (fiber_ids n) \<and>
    (waiting (fold fiber_done ms (start_progress n)) \<longleftrightarrow> length ms < unat n) \<and>
    exec_millis (fold fiber_done ms (start_progress n)) = sum_list (map ucast ms)"
proof -
  have n: "cpus < n" using assms(1) by (auto simp: main_checks_def Let_def split: if_splits)
  then have pos: "0 < unat n" by (simp add: word_less_nat_alt)
  have ids: "fiber_ids n = [1..<unat n + 1]"
  proof -
    have "[1..<unat n + 1] = 1 # [Suc 1..<unat n + 1]" using pos by (simp add: upt_rec)
    also have "[Suc 1..<unat n + 1] = map (\<lambda>i. i + 1) [1..<unat n]" using map_Suc_upt [of 1 "unat n"] by simp
    finally show ?thesis by (simp add: fiber_ids_def)
  qed
  have small: "length ms < 2 ^ 32" using assms(2) unsigned_less [where ?'a = nat, of n] by simp
  have "unat (of_nat (length ms) :: 32 word) = length ms" using small by (simp add: unsigned_of_nat take_bit_nat_eq_self)
  then have "n - of_nat (length ms) > 0 \<longleftrightarrow> length ms < unat n" using assms(2)
    by (simp add: word_less_nat_alt unat_sub word_le_nat_alt)
  then show ?thesis using n ids pos fold_done [of ms "start_progress n"]
    by (simp add: waiting_def start_progress_def get_random_fiber_def)
qed

lemma main_waits_for_all_witness:
  "main_checks 4 2 6 False = Some 6 \<and> waiting (fold fiber_done [10, 20] (start_progress 6)) \<and>
   \<not> waiting (fold fiber_done [10, 20, 30, 40, 50, 60] (start_progress 6))"
proof -
  have c: "main_checks 4 2 6 False = Some 6" by (simp add: main_checks_def)
  show ?thesis using c main_waits_for_all [OF c, of "[10, 20]" 0] main_waits_for_all [OF c, of "[10, 20, 30, 40, 50, 60]" 0]
    by simp
qed

end
