(* ===== verification/Testbed_Main.thy ===== *)
theory Testbed_Main
  imports Fiberlib Testbed
begin

text \<open>
  The start of the testbed (\<open>main\<close>, \<open>thread_initialization\<close> and \<open>schedule\<close> of
  \<open>libfibers/testbed/src/main.c\<close>) on top of the user library and the kernel module: the
  main thread converts itself, creates the fibers and then lets the threads switch to them.
  The address of \<open>main_loop\<close>, the random numbers and what the compiler and the C library
  choose (the addresses of local variables, the descriptors, the stacks) are arguments. The
  array \<open>fibers\<close> holds pointers that are made from the ids the library returns; it is the
  list of these ids, and a pointer is made where it is passed on.
\<close>

section \<open>Creating and choosing fibers\<close>

text \<open>The argument of the fiber with the index \<open>i\<close>: \<open>(void *)(i + 1)\<close>, computed at 32 bits.\<close>

definition fiber_arg :: "nat \<Rightarrow> addr" where
  "fiber_arg i = ucast (of_nat i + 1 :: 32 word)"

fun create_loop ::
    "kenv \<Rightarrow> addr \<Rightarrow> addr \<Rightarrow> (nat \<Rightarrow> addr option) \<Rightarrow> c_ulong \<Rightarrow> nat list \<Rightarrow>
     kstate \<Rightarrow> task \<Rightarrow> uproc \<Rightarrow> pid_t list \<Rightarrow> pid_t list lib" where
  "create_loop e lim frame posix_memalign loop [] s tsk u fibers = Ret s tsk u fibers"
| "create_loop e lim frame posix_memalign loop (i # is) s tsk u fibers =
     and_then (Create_fiber e lim frame (posix_memalign i) s tsk u (of_nat STACK_SIZE) loop (fiber_arg i))
       (\<lambda>s tsk u fib. create_loop e lim frame posix_memalign loop is s tsk u (fibers @ [fib]))"

definition main_fibers ::
    "kenv \<Rightarrow> addr \<Rightarrow> c_int \<Rightarrow> addr \<Rightarrow> (nat \<Rightarrow> addr option) \<Rightarrow> c_ulong \<Rightarrow> 32 word \<Rightarrow>
     kstate \<Rightarrow> task \<Rightarrow> uproc \<Rightarrow> pid_t list lib" where
  "main_fibers e lim open_fd frame posix_memalign loop num_fibers s tsk u =
     and_then (Convert_thread_to_fiber e lim open_fd s tsk u)
       (\<lambda>s tsk u fib. create_loop e lim frame posix_memalign loop [1..<unat num_fibers] s tsk u [fib])"

text \<open>
  \<open>schedule\<close>, and the body of the loop of \<open>thread_initialization\<close>: switch to a fiber that is
  chosen at random. The result is not looked at.
\<close>

definition schedule ::
    "kenv \<Rightarrow> addr \<Rightarrow> addr \<Rightarrow> pid_t list \<Rightarrow> 32 word \<Rightarrow> nat \<Rightarrow> kstate \<Rightarrow> task \<Rightarrow> uproc \<Rightarrow> c_int lib" where
  "schedule e lim frame fibers num_fibers random s tsk u =
     (let f = get_random_fiber num_fibers random
      in if f < length fibers then Switch_to_fiber e lim frame s tsk u (scast (fibers ! f)) else Segv)"

section \<open>The main thread among the other threads\<close>

text \<open>
  \<open>starting e lim tsk loop k s u fibers\<close>: after \<open>k\<close> steps the module is in the state \<open>s\<close>, the
  process in \<open>u\<close>, and the main thread \<open>tsk\<close> has filled the array with \<open>fibers\<close>. Until all
  fibers exist the other threads of the process convert themselves and then only wait for
  \<open>init_complete\<close>; tasks of other processes may do anything. Block and argument structure
  of a creation lie in mapped memory and do not overlap.
\<close>

inductive starting :: "kenv \<Rightarrow> addr \<Rightarrow> task \<Rightarrow> c_ulong \<Rightarrow> nat \<Rightarrow> kstate \<Rightarrow> uproc \<Rightarrow> pid_t list \<Rightarrow> bool"
  for e lim tsk loop where
  launched: "reachable e k s \<Longrightarrow> get_group e (tsk_tgid tsk) s = None \<Longrightarrow> starting e lim tsk loop k s u []"
| converted: "starting e lim tsk loop k s u [] \<Longrightarrow>
     Convert_thread_to_fiber e lim fd s tsk u = Ret s' tsk' u' fib \<Longrightarrow> starting e lim tsk loop (Suc k) s' u' [fib]"
| created: "starting e lim tsk loop k s u fibers \<Longrightarrow> fibers \<noteq> [] \<Longrightarrow>
     user_ok lim (u_mem u) frame 32 \<Longrightarrow> user_ok lim (u_mem u) sb STACK_SIZE \<Longrightarrow>
     disjoint_ranges frame 32 sb STACK_SIZE \<Longrightarrow>
     Create_fiber e lim frame (Some sb) s tsk u (of_nat STACK_SIZE) loop (fiber_arg (length fibers)) =
       Ret s' tsk' u' fib \<Longrightarrow>
     starting e lim tsk loop (Suc k) s' u' (fibers @ [fib])"
| other_thread: "starting e lim tsk loop k s u fibers \<Longrightarrow> tsk_tgid t = tsk_tgid tsk \<Longrightarrow>
     tsk_pid t \<noteq> tsk_pid tsk \<Longrightarrow> tsk_pid t \<noteq> 0 \<Longrightarrow>
     Convert_thread_to_fiber e lim fd s t u = Ret s' t' u' r \<Longrightarrow> starting e lim tsk loop (Suc k) s' u' fibers"
| other_process: "starting e lim tsk loop k s u fibers \<Longrightarrow> tsk_tgid t \<noteq> tsk_tgid tsk \<Longrightarrow> tsk_pid t \<noteq> 0 \<Longrightarrow>
     syscall e s t c = Done s' t' r \<Longrightarrow> starting e lim tsk loop (Suc k) s' u fibers"

text \<open>A fiber that nobody runs and that will start in \<open>main_loop\<close> at the top of its stack.\<close>

definition fresh_worker :: "c_ulong \<Rightarrow> addr \<Rightarrow> fiber \<Rightarrow> bool" where
  "fresh_worker loop arg f \<longleftrightarrow> info_state (f_info f) = 0 \<and>
     regs_ip (ctx_regs (f_context f)) = loop \<and> regs_di (ctx_regs (f_context f)) = arg \<and>
     regs_sp (ctx_regs (f_context f)) = f_stack_limit f - 8 \<and>
     f_stack_limit f = f_stack_base f + of_nat STACK_SIZE"

definition main_runs_first :: "kenv \<Rightarrow> task \<Rightarrow> kstate \<Rightarrow> pid_t list \<Rightarrow> bool" where
  "main_runs_first e tsk s fibers \<longleftrightarrow>
     (case thread_at e s (tsk_tgid tsk) (tsk_pid tsk) of
        None \<Rightarrow> fibers = []
      | Some t \<Rightarrow> fibers \<noteq> [] \<and> t_current_fid t = hd fibers)"

definition workers_fresh :: "kenv \<Rightarrow> task \<Rightarrow> c_ulong \<Rightarrow> kstate \<Rightarrow> pid_t list \<Rightarrow> bool" where
  "workers_fresh e tsk loop s fibers \<longleftrightarrow>
     (\<forall>i \<in> {1..<length fibers}. \<exists>f. fiber_at e s (tsk_tgid tsk) (fibers ! i) = Some f \<and> fresh_worker loop (fiber_arg i) f)"

definition bed_inv :: "kenv \<Rightarrow> task \<Rightarrow> c_ulong \<Rightarrow> nat \<Rightarrow> kstate \<Rightarrow> uproc \<Rightarrow> pid_t list \<Rightarrow> bool" where
  "bed_inv e tsk loop k s u fibers \<longleftrightarrow> kstate_inv e s \<and> fids_bound e k s \<and> distinct fibers \<and>
     main_runs_first e tsk s fibers \<and> workers_fresh e tsk loop s fibers \<and>
     (fibers \<noteq> [] \<longrightarrow> u_fd u \<in> set (u_dev_fds u))"

section \<open>What the conversion of another thread leaves alone\<close>

lemma find_or_generate_at:
  assumes "kstate_inv e s" "find_or_generate e s g = (Inr tg, s1)"
  shows "fiber_at e s1 g k = fiber_at e s g k" "thread_at e s1 g p = thread_at e s g p"
proof -
  have g: "get_group e g s1 = Some tg" using find_or_generate_inv(2) [OF assms] .
  have "get_group e g s = Some tg \<or>
      (get_group e g s = None \<and> tg_threads tg = hash_init \<and> tg_fibers tg = hash_init)"
    using assms(2) by (auto simp: find_or_generate_def generate_group_def Let_def
        split: option.splits prod.splits bool.splits)
  then show "fiber_at e s1 g k = fiber_at e s g k" "thread_at e s1 g p = thread_at e s g p"
    using g by (auto simp: fiber_at_def thread_at_def get_fiber_def get_thread_def hash_search_def hash_init_def)
qed

lemma convert_frame:
  assumes inv: "kstate_inv e s" and conv: "do_convert_thread_to_fiber e s t = Done s' t' r"
  shows "fiber_at e s (tsk_tgid t) k = Some f \<Longrightarrow> fiber_at e s' (tsk_tgid t) k = Some f"
    and "p \<noteq> tsk_pid t \<Longrightarrow> thread_at e s' (tsk_tgid t) p = thread_at e s (tsk_tgid t) p"
    and "thread_at e s (tsk_tgid t) (tsk_pid t) = None \<Longrightarrow>
      thread_at e s' (tsk_tgid t) (tsk_pid t) = Some \<lparr>t_pid = tsk_pid t, t_current_fid = r\<rparr>"
proof -
  have "(fiber_at e s (tsk_tgid t) k = Some f \<longrightarrow> fiber_at e s' (tsk_tgid t) k = Some f) \<and>
    (p \<noteq> tsk_pid t \<longrightarrow> thread_at e s' (tsk_tgid t) p = thread_at e s (tsk_tgid t) p) \<and>
    (thread_at e s (tsk_tgid t) (tsk_pid t) = None \<longrightarrow>
      thread_at e s' (tsk_tgid t) (tsk_pid t) = Some \<lparr>t_pid = tsk_pid t, t_current_fid = r\<rparr>)"
    using conv
  proof (cases rule: do_convert_cases)
    case (exists tg th)
    note at = find_or_generate_at [OF inv exists(1)]
    have "thread_at e s' (tsk_tgid t) (tsk_pid t) = Some th"
      using find_or_generate_inv(2) [OF inv exists(1)] exists(2) by (simp add: thread_at_def)
    then show ?thesis using at by simp
  next
    case (new tg s1 s2 s3)
    note at = find_or_generate_at [OF inv new(1)]
    have g: "get_group e (tsk_tgid t) s1 = Some tg" and key: "tg_tgid (convert_group e t tg) = tsk_tgid t"
      using find_or_generate_inv [OF inv new(1)] group_key by auto
    have "fids_dense e tg" using kstate_invD [OF find_or_generate_inv(1,2) [OF inv new(1)]] by (simp add: group_inv_def)
    then have fresh: "get_fiber e (tg_fid_count tg + 1) tg = None" by (rule next_fid_fresh)
    have gs: "groups s3 = groups s1" using kmalloc_groups [OF new(3)] kmalloc_groups [OF new(4)] by simp
    have "fiber_at e s' (tsk_tgid t) k = get_fiber e k (convert_group e t tg)"
      "\<And>q. thread_at e s' (tsk_tgid t) q = get_thread e q (convert_group e t tg)"
      using g key gs by (simp_all add: new(5) fiber_at_set_group thread_at_set_group)
    then show ?thesis using fresh new(6,7) at [symmetric]
      by (auto simp: convert_group_fiber convert_group_thread fiber_at_group [OF g] thread_at_group [OF g])
  qed
  then show "fiber_at e s (tsk_tgid t) k = Some f \<Longrightarrow> fiber_at e s' (tsk_tgid t) k = Some f"
    and "p \<noteq> tsk_pid t \<Longrightarrow> thread_at e s' (tsk_tgid t) p = thread_at e s (tsk_tgid t) p"
    and "thread_at e s (tsk_tgid t) (tsk_pid t) = None \<Longrightarrow>
      thread_at e s' (tsk_tgid t) (tsk_pid t) = Some \<lparr>t_pid = tsk_pid t, t_current_fid = r\<rparr>" by blast+
qed

section \<open>What the creation of a fiber does\<close>

lemma create_frame:
  assumes inv: "kstate_inv e s" and t: "thread_at e s (tsk_tgid tsk) (tsk_pid tsk) = Some t"
    and create: "do_create_fiber e s tsk sb (of_nat STACK_SIZE) loop arg = Done s' tsk' r"
  shows "fiber_at e s (tsk_tgid tsk) r = None"
    and "\<exists>f. fiber_at e s' (tsk_tgid tsk) r = Some f \<and> fresh_worker loop arg f"
    and "k \<noteq> r \<Longrightarrow> fiber_at e s' (tsk_tgid tsk) k = fiber_at e s (tsk_tgid tsk) k"
    and "thread_at e s' (tsk_tgid tsk) p = thread_at e s (tsk_tgid tsk) p"
proof -
  obtain tg where g: "get_group e (tsk_tgid tsk) s = Some tg" and t': "get_thread e (tsk_pid tsk) tg = Some t"
    using t by (auto simp: thread_at_def split: option.splits)
  obtain s1 where k: "kmalloc e s = (True, s1)" and r: "r = tg_fid_count tg + 1"
    and s': "s' = set_group e (create_group e tsk t sb (of_nat STACK_SIZE) loop arg tg) s1"
    using create g t' by (auto simp: do_create_eq split: prod.splits bool.splits)
  have key: "tg_tgid (create_group e tsk t sb (of_nat STACK_SIZE) loop arg tg) = tsk_tgid tsk"
    using group_key [OF g] by simp
  have "fids_dense e tg" using kstate_invD [OF inv g] by (simp add: group_inv_def)
  then show "fiber_at e s (tsk_tgid tsk) r = None" using next_fid_fresh r by (simp add: fiber_at_group [OF g])
  have at: "fiber_at e s' (tsk_tgid tsk) j = get_fiber e j (create_group e tsk t sb (of_nat STACK_SIZE) loop arg tg)"
    "thread_at e s' (tsk_tgid tsk) p = get_thread e p (create_group e tsk t sb (of_nat STACK_SIZE) loop arg tg)" for j
    using g key kmalloc_groups [OF k] by (simp_all add: s' fiber_at_set_group thread_at_set_group)
  show "\<exists>f. fiber_at e s' (tsk_tgid tsk) r = Some f \<and> fresh_worker loop arg f"
    unfolding at create_group_fiber r by (simp add: fresh_worker_def object_defs Let_def)
  show "k \<noteq> r \<Longrightarrow> fiber_at e s' (tsk_tgid tsk) k = fiber_at e s (tsk_tgid tsk) k"
    unfolding at create_group_fiber r by (simp add: fiber_at_group [OF g])
  show "thread_at e s' (tsk_tgid tsk) p = thread_at e s (tsk_tgid tsk) p"
    unfolding at create_group_thread by (simp add: thread_at_group [OF g])
qed

section \<open>The invariant\<close>

lemma fiber_id_bound:
  assumes "kstate_inv e s" "fids_bound e n s" "fiber_at e s g j \<noteq> None"
  shows "unat j < n"
proof -
  obtain tg where g: "get_group e g s = Some tg" and j: "get_fiber e j tg \<noteq> None"
    using assms(3) by (auto simp: fiber_at_def split: option.splits)
  have "unat j < fids_used tg" using kstate_invD [OF assms(1) g] j by (simp add: group_inv_def fids_dense_def fids_used_def)
  then show ?thesis using assms(2) g by (force simp: fids_bound_def)
qed

lemma current_fiber_at:
  assumes "kstate_inv e s" "thread_at e s g p = Some t"
  shows "\<exists>f. fiber_at e s g (t_current_fid t) = Some f \<and> info_state (f_info f) = p \<and> p \<noteq> 0"
proof -
  obtain tg where g: "get_group e g s = Some tg" and t: "get_thread e p tg = Some t"
    using assms(2) by (auto simp: thread_at_def split: option.splits)
  then show ?thesis using kstate_invD [OF assms(1) g]
    by (auto simp: group_inv_def owner_inv_def thread_running_def fiber_at_group [OF g])
qed

lemma array_ids_exist:
  assumes "bed_inv e tsk loop k s u fibers" "j \<in> set fibers"
  shows "fiber_at e s (tsk_tgid tsk) j \<noteq> None"
proof -
  obtain i where i: "i < length fibers" "j = fibers ! i" using assms(2) by (auto simp: in_set_conv_nth)
  show ?thesis
  proof (cases "i = 0")
    case True
    then obtain t where "thread_at e s (tsk_tgid tsk) (tsk_pid tsk) = Some t" "t_current_fid t = j"
      using assms(1) i by (auto simp: bed_inv_def main_runs_first_def hd_conv_nth split: option.splits)
    then show ?thesis using current_fiber_at assms(1) by (fastforce simp: bed_inv_def)
  next
    case False
    then show ?thesis using assms(1) i by (auto simp: bed_inv_def workers_fresh_def)
  qed
qed

text \<open>A step that leaves the fibers of the process and the main thread alone.\<close>

lemma bed_inv_frame:
  assumes inv: "bed_inv e tsk loop k s u fibers" and s': "kstate_inv e s'" "fids_bound e (Suc k) s'"
    and fib: "\<And>j f. fiber_at e s (tsk_tgid tsk) j = Some f \<Longrightarrow> fiber_at e s' (tsk_tgid tsk) j = Some f"
    and thr: "thread_at e s' (tsk_tgid tsk) (tsk_pid tsk) = thread_at e s (tsk_tgid tsk) (tsk_pid tsk)"
    and u': "u_fd u \<in> set (u_dev_fds u) \<Longrightarrow> u_fd u' \<in> set (u_dev_fds u')"
  shows "bed_inv e tsk loop (Suc k) s' u' fibers"
  using inv s' thr u' fib unfolding bed_inv_def main_runs_first_def workers_fresh_def by fastforce

lemma lib_convert_cases:
  assumes "Convert_thread_to_fiber e lim fd s t u = Ret s' t' u' r"
  obtains r0 where "do_convert_thread_to_fiber e s t = Done s' t' r0" "r = ucast (syscall_ret (scast r0))"
    "u_fd u' \<in> set (u_dev_fds u')" "u_mem u' = u_mem u"
proof -
  have fd: "\<not> sint fd < 0" using assms by (auto simp: Convert_thread_to_fiber_def)
  show ?thesis using that assms by (cases "do_convert_thread_to_fiber e s t") (auto simp: lib_convert_eq [OF fd])
qed

lemma lib_create_cases:
  assumes "Create_fiber e lim frame (Some sb) s tsk u ss ep arg = Ret s' tsk' u' r"
    and "u_fd u \<in> set (u_dev_fds u)" "user_ok lim (u_mem u) frame 32" "user_ok lim (u_mem u) sb (unat ss)"
    and "disjoint_ranges frame 32 sb (unat ss)"
  obtains r0 where "do_create_fiber e s tsk sb ss ep arg = Done s' tsk' r0" "r = ucast (syscall_ret (scast r0))"
    "u_fd u' \<in> set (u_dev_fds u')"
  using that assms(1,2) lib_create_eq [OF assms(2-5), of e s tsk ep arg]
  by (cases "do_create_fiber e s tsk sb ss ep arg") auto

lemma bed_step_inv:
  assumes "bed_inv e tsk loop k s u fibers" "tsk_pid t \<noteq> 0" "k < 2 ^ 31" "syscall e s t c = Done s' t' r"
  shows "kstate_inv e s'" "fids_bound e (Suc k) s'"
proof -
  have inv: "kstate_inv e s" "fids_bound e k s" using assms(1) by (simp_all add: bed_inv_def)
  have left: "fids_left e s t" using fids_bound_left [OF inv(2)] assms(3) by simp
  show "kstate_inv e s'" using syscall_inv [OF inv(1) assms(2) left assms(4)] .
  show "fids_bound e (Suc k) s'" using syscall_fids_bound [OF inv left assms(4)] .
qed

lemma bed_main_converts:
  assumes inv: "bed_inv e tsk loop k s u []" and pid: "tsk_pid tsk \<noteq> 0" and k: "k < 2 ^ 31"
    and conv: "Convert_thread_to_fiber e lim fd s tsk u = Ret s' tsk' u' fib"
  shows "bed_inv e tsk loop (Suc k) s' u' [fib]"
proof -
  obtain r0 where r0: "do_convert_thread_to_fiber e s tsk = Done s' tsk' r0" "fib = ucast (syscall_ret (scast r0))"
    "u_fd u' \<in> set (u_dev_fds u')" using lib_convert_cases [OF conv] .
  have ks: "kstate_inv e s" and none: "thread_at e s (tsk_tgid tsk) (tsk_pid tsk) = None"
    using inv by (auto simp: bed_inv_def main_runs_first_def split: option.splits)
  have "syscall e s tsk Convert = Done s' tsk' (scast r0)" using r0(1) by simp
  note s' = bed_step_inv [OF inv pid k this]
  note t = convert_frame(3) [OF ks r0(1) none]
  have "unat r0 < Suc k" using current_fiber_at [OF s'(1) t] by (intro fiber_id_bound [OF s']) auto
  then have "fib = r0" using k id_result [of r0] r0(2) by simp
  then show ?thesis using s' t r0(3) by (simp add: bed_inv_def main_runs_first_def workers_fresh_def)
qed

lemma bed_main_creates:
  assumes inv: "bed_inv e tsk loop k s u fibers" and pid: "tsk_pid tsk \<noteq> 0" and k: "k < 2 ^ 31"
    and ne: "fibers \<noteq> []" and mem: "user_ok lim (u_mem u) frame 32" "user_ok lim (u_mem u) sb STACK_SIZE"
      "disjoint_ranges frame 32 sb STACK_SIZE"
    and create: "Create_fiber e lim frame (Some sb) s tsk u (of_nat STACK_SIZE) loop (fiber_arg (length fibers)) =
       Ret s' tsk' u' fib"
  shows "bed_inv e tsk loop (Suc k) s' u' (fibers @ [fib])"
proof -
  have fd: "u_fd u \<in> set (u_dev_fds u)" and ks: "kstate_inv e s" using inv ne by (simp_all add: bed_inv_def)
  obtain r0 where r0: "do_create_fiber e s tsk sb (of_nat STACK_SIZE) loop (fiber_arg (length fibers)) = Done s' tsk' r0"
    "fib = ucast (syscall_ret (scast r0))" "u_fd u' \<in> set (u_dev_fds u')"
    using lib_create_cases [OF create fd mem(1)] mem(2,3) by auto
  obtain t where t: "thread_at e s (tsk_tgid tsk) (tsk_pid tsk) = Some t" and cur: "t_current_fid t = hd fibers"
    using inv ne by (auto simp: bed_inv_def main_runs_first_def split: option.splits)
  note frame = create_frame [OF ks t r0(1)]
  have "syscall e s tsk (Create sb (of_nat STACK_SIZE) loop (fiber_arg (length fibers))) = Done s' tsk' (scast r0)"
    using r0(1) by simp
  note s' = bed_step_inv [OF inv pid k this]
  have "unat r0 < Suc k" using frame(2) by (intro fiber_id_bound [OF s']) auto
  then have fib: "fib = r0" using k id_result [of r0] r0(2) by simp
  have new: "r0 \<notin> set fibers" using array_ids_exist [OF inv] frame(1) by blast
  have "workers_fresh e tsk loop s' (fibers @ [r0])" unfolding workers_fresh_def
  proof
    fix i assume i: "i \<in> {1..<length (fibers @ [r0])}"
    show "\<exists>f. fiber_at e s' (tsk_tgid tsk) ((fibers @ [r0]) ! i) = Some f \<and> fresh_worker loop (fiber_arg i) f"
    proof (cases "i = length fibers")
      case True
      then show ?thesis using frame(2) by simp
    next
      case False
      then have lt: "i \<in> {1..<length fibers}" using i by simp
      then have "fibers ! i \<noteq> r0" using new by auto
      then show ?thesis using lt inv frame(3) by (simp add: bed_inv_def workers_fresh_def nth_append)
    qed
  qed
  then show ?thesis using s' inv new r0(3) ne t cur frame(4) by (simp add: bed_inv_def main_runs_first_def fib)
qed

lemma starting_inv:
  assumes "starting e lim tsk loop k s u fibers" and pid: "tsk_pid tsk \<noteq> 0" and "k \<le> 2 ^ 31"
  shows "bed_inv e tsk loop k s u fibers"
  using assms(1,3)
proof (induction rule: starting.induct)
  case (launched k s u)
  then show ?case using reachable_inv [OF launched(1)]
    by (simp add: bed_inv_def main_runs_first_def workers_fresh_def thread_at_def)
next
  case (converted k s u fd s' tsk' u' fib)
  then show ?case using bed_main_converts [OF _ pid] by simp
next
  case (created k s u fibers frame sb s' tsk' u' fib)
  then show ?case using bed_main_creates [OF _ pid] by simp
next
  case (other_thread k s u fibers t fd s' t' u' r)
  then have inv: "bed_inv e tsk loop k s u fibers" and k: "k < 2 ^ 31" by simp_all
  then have ks: "kstate_inv e s" by (simp add: bed_inv_def)
  obtain r0 where r0: "do_convert_thread_to_fiber e s t = Done s' t' r0" "u_fd u' \<in> set (u_dev_fds u')"
    using lib_convert_cases [OF other_thread.hyps(5)] by blast
  have "syscall e s t Convert = Done s' t' (scast r0)" using r0(1) by simp
  note s' = bed_step_inv [OF inv other_thread.hyps(4) k this]
  show ?case using r0(2) convert_frame(1,2) [OF ks r0(1)] other_thread.hyps(2,3)
    by (intro bed_inv_frame [OF inv s']) simp_all
next
  case (other_process k s u fibers t c s' t' r)
  then have inv: "bed_inv e tsk loop k s u fibers" and k: "k < 2 ^ 31" by simp_all
  then have ks: "kstate_inv e s" by (simp add: bed_inv_def)
  note s' = bed_step_inv [OF inv other_process.hyps(3) k other_process.hyps(4)]
  have "get_group e (tsk_tgid tsk) s' = get_group e (tsk_tgid tsk) s"
    using syscall_other [OF ks _ other_process.hyps(4)] other_process.hyps(2) by metis
  then show ?case by (intro bed_inv_frame [OF inv s']) (simp_all add: fiber_at_def thread_at_def)
qed

lemma fiber_arg_value:
  assumes "i + 1 < 2 ^ 32"
  shows "fiber_arg i = of_nat (i + 1)"
proof -
  have "unat (of_nat (i + 1) :: 32 word) = i + 1" using assms by (simp only: unsigned_of_nat) (simp add: take_bit_nat_eq_self)
  moreover have "(of_nat i + 1 :: 32 word) = of_nat (i + 1)" by simp
  ultimately have "unat (of_nat i + 1 :: 32 word) = i + 1" by metis
  moreover have "fiber_arg i = of_nat (unat (of_nat i + 1 :: 32 word))" unfolding fiber_arg_def by simp
  ultimately show ?thesis by metis
qed

lemma starting_length: "starting e lim tsk loop k s u fibers \<Longrightarrow> length fibers \<le> k"
  by (induction rule: starting.induct) simp_all

section \<open>Properties\<close>


lemma switch_busy:
  assumes "thread_at e s (tsk_tgid tsk) (tsk_pid tsk) = Some t"
    and "fiber_at e s (tsk_tgid tsk) k = Some f" "info_state (f_info f) \<noteq> 0"
  shows "\<exists>s'. do_switch_to_fiber e s tsk k = Done s' tsk (- EAGAIN)"
  using assms by (auto simp: thread_at_def fiber_at_def do_switch_eq Let_def split: option.splits)

lemma ucast_scast_id: "(ucast (scast (k :: pid_t) :: addr) :: pid_t) = k"
proof (rule bit_word_eqI)
  fix n assume "n < LENGTH(32)"
  then have "n < 31 \<or> n = 31" by auto
  then show "bit (ucast (scast k :: addr) :: pid_t) n = bit k n" by (auto simp: bit_ucast_iff bit_signed_iff)
qed

text \<open>
  C21: The first switch after the start. When the array is complete, a thread of the process
  that has been converted and picks a fiber at random enters \<open>main_loop\<close> of that fiber with
  its identifier, one more than the index; when it picks the fiber of the main thread it
  stays in its own fiber and gets \<open>-EAGAIN\<close>.
\<close>

theorem first_schedule:
  assumes "starting e lim tsk loop k s u fibers" "tsk_pid tsk \<noteq> 0" "k \<le> 2 ^ 31"
    and "length fibers = unat n" "0 < n" and "tsk_tgid t = tsk_tgid tsk"
    and "thread_at e s (tsk_tgid t) (tsk_pid t) \<noteq> None" and "user_ok lim (u_mem u) frame 8"
  shows "\<exists>s' t' u' r'. schedule e lim frame fibers n r s t u = Ret s' t' u' r' \<and>
    (if get_random_fiber n r = 0 then t' = t \<and> r' = - EAGAIN
     else r' = 0 \<and> regs_ip (tsk_regs t') = loop \<and> regs_di (tsk_regs t') = of_nat (get_random_fiber n r + 1))"
proof -
  let ?f = "get_random_fiber n r"
  note inv = starting_inv [OF assms(1-3)]
  have pos: "0 < unat n" using assms(5) by (simp add: word_less_nat_alt)
  then have f: "?f < unat n" by (simp add: get_random_fiber_def)
  have ne: "fibers \<noteq> []" using pos assms(4) by auto
  have fd: "u_fd u \<in> set (u_dev_fds u)" and ks: "kstate_inv e s" using inv ne by (simp_all add: bed_inv_def)
  obtain th where th: "thread_at e s (tsk_tgid t) (tsk_pid t) = Some th" using assms(7) by blast
  have sched: "schedule e lim frame fibers n r s t u =
      Switch_to_fiber e lim frame s t u (scast (fibers ! ?f))" using f assms(4) by (simp add: schedule_def Let_def)
  show ?thesis
  proof (cases "?f = 0")
    case True
    obtain m where m: "thread_at e s (tsk_tgid tsk) (tsk_pid tsk) = Some m" "t_current_fid m = fibers ! ?f"
      using inv ne True by (auto simp: bed_inv_def main_runs_first_def hd_conv_nth split: option.splits)
    obtain g where g: "fiber_at e s (tsk_tgid t) (fibers ! ?f) = Some g" "info_state (f_info g) \<noteq> 0"
      using current_fiber_at [OF ks m(1)] m(2) assms(6) by auto
    obtain s' where "do_switch_to_fiber e s t (fibers ! ?f) = Done s' t (- EAGAIN)" using switch_busy [OF th g] by blast
    moreover have "sint (syscall_ret (scast (- EAGAIN :: c_int))) < 0" by (simp add: syscall_ret_def)
    ultimately show ?thesis using True sched by (simp add: lib_switch_eq [OF fd assms(8)] ucast_scast_id)
  next
    case False
    then have "?f \<in> {1..<length fibers}" using f assms(4) by simp
    then obtain g where g: "fiber_at e s (tsk_tgid t) (fibers ! ?f) = Some g" "fresh_worker loop (fiber_arg ?f) g"
      using inv unfolding bed_inv_def workers_fresh_def assms(6) by blast
    have "fiber_arg ?f = of_nat (?f + 1)" using f unsigned_less [where ?'a = nat, of n] by (intro fiber_arg_value) simp
    moreover obtain s' where "do_switch_to_fiber e s t (fibers ! ?f) =
        Done s' (t\<lparr>tsk_regs := ctx_regs (f_context g), tsk_fx := ctx_fpu (f_context g)\<rparr>) SUCCESS"
      using switch_idle_succeeds [OF ks th g(1)] g(2) by (auto simp: fresh_worker_def)
    ultimately show ?thesis using False sched g(2) lib_switch [OF fd assms(8), of e s t "scast (fibers ! ?f)"]
      by (simp add: ucast_scast_id fresh_worker_def)
  qed
qed

section \<open>The start completes\<close>

text \<open>The memory the start needs: the argument structure, and a block for every stack.\<close>

definition start_memory :: "addr \<Rightarrow> addr \<Rightarrow> (nat \<Rightarrow> addr option) \<Rightarrow> nat \<Rightarrow> umem \<Rightarrow> bool" where
  "start_memory lim frame posix_memalign n m \<longleftrightarrow> user_ok lim m frame 32 \<and>
     (\<forall>i \<in> {1..<n}. case posix_memalign i of
        None \<Rightarrow> False
      | Some sb \<Rightarrow> user_ok lim m sb STACK_SIZE \<and> disjoint_ranges frame 32 sb STACK_SIZE)"

lemma start_memoryE:
  assumes "start_memory lim frame posix_memalign n m" "i \<in> {1..<n}"
  obtains sb where "posix_memalign i = Some sb" "user_ok lim m sb STACK_SIZE" "disjoint_ranges frame 32 sb STACK_SIZE"
    "user_ok lim m frame 32"
  using that assms unfolding start_memory_def by (cases "posix_memalign i") (force dest: bspec)+

lemma do_convert_total:
  assumes "\<And>n. kmalloc_ok e n"
  shows "\<exists>s' r. do_convert_thread_to_fiber e s tsk = Done s' tsk r"
proof -
  obtain tg s1 where "find_or_generate e s (tsk_tgid tsk) = (Inr tg, s1)" using find_or_generate_total [OF assms] by blast
  moreover obtain s2 where "kmalloc e s1 = (True, s2)" using kmalloc_total [OF assms] by blast
  moreover obtain s3 where "kmalloc e s2 = (True, s3)" using kmalloc_total [OF assms] by blast
  ultimately show ?thesis by (cases "get_thread e (tsk_pid tsk) tg") (simp_all add: do_convert_eq)
qed

lemma do_create_total:
  assumes "thread_at e s (tsk_tgid tsk) (tsk_pid tsk) = Some t" "\<And>n. kmalloc_ok e n"
  shows "\<exists>s' r. do_create_fiber e s tsk sb ss ep arg = Done s' tsk r"
  using assms by (auto simp: thread_at_def do_create_eq kmalloc_def Let_def split: option.splits)

lemma create_loop_completes:
  assumes "starting e lim tsk loop k s u fibers" "fibers \<noteq> []" "tsk_pid tsk \<noteq> 0" "\<And>n. kmalloc_ok e n"
    and "start_memory lim frame posix_memalign n (u_mem u)" "length fibers \<le> n" "k + (n - length fibers) \<le> 2 ^ 31"
  shows "\<exists>s' u' fibers'. create_loop e lim frame posix_memalign loop [length fibers..<n] s tsk u fibers = Ret s' tsk u' fibers' \<and>
    length fibers' = n \<and> starting e lim tsk loop (k + (n - length fibers)) s' u' fibers' \<and>
    (\<forall>a n. user_ok lim (u_mem u') a n = user_ok lim (u_mem u) a n)"
  using assms(1,2,5-7)
proof (induction "n - length fibers" arbitrary: k s u fibers)
  case 0
  then show ?case by auto
next
  case (Suc d)
  let ?i = "length fibers"
  have lt: "?i < n" using Suc.hyps(2) by simp
  then have "?i \<in> {1..<n}" using Suc.prems(2) by (cases fibers) auto
  then obtain sb where sb: "posix_memalign ?i = Some sb" "user_ok lim (u_mem u) sb STACK_SIZE"
    "disjoint_ranges frame 32 sb STACK_SIZE" and fr: "user_ok lim (u_mem u) frame 32"
    using Suc.prems(3) start_memoryE by blast
  have inv: "bed_inv e tsk loop k s u fibers" using starting_inv [OF Suc.prems(1) assms(3)] Suc.prems(5) by simp
  have fd: "u_fd u \<in> set (u_dev_fds u)" using inv Suc.prems(2) by (simp add: bed_inv_def)
  obtain t where "thread_at e s (tsk_tgid tsk) (tsk_pid tsk) = Some t"
    using inv Suc.prems(2) by (auto simp: bed_inv_def main_runs_first_def split: option.splits)
  then obtain s1 r where "do_create_fiber e s tsk sb (of_nat STACK_SIZE) loop (fiber_arg ?i) = Done s1 tsk r"
    using do_create_total [OF _ assms(4)] by blast
  then obtain m' fib where create: "Create_fiber e lim frame (Some sb) s tsk u (of_nat STACK_SIZE) loop (fiber_arg ?i) =
      Ret s1 tsk (u\<lparr>u_mem := m'\<rparr>) fib" and m': "\<And>a n. user_ok lim m' a n = user_ok lim (u_mem u) a n"
    using lib_create_eq [OF fd fr, of sb "of_nat STACK_SIZE" e s tsk loop "fiber_arg ?i"] sb(2,3) by auto
  have st: "starting e lim tsk loop (Suc k) s1 (u\<lparr>u_mem := m'\<rparr>) (fibers @ [fib])"
    by (rule starting.created [OF Suc.prems(1,2) fr sb(2,3) create])
  have mem: "start_memory lim frame posix_memalign n (u_mem (u\<lparr>u_mem := m'\<rparr>))"
    using Suc.prems(3) by (simp add: start_memory_def m' cong: option.case_cong)
  have "[?i..<n] = ?i # [length (fibers @ [fib])..<n]" using lt by (simp add: upt_conv_Cons)
  moreover have "k + (n - ?i) = Suc k + (n - length (fibers @ [fib]))" "d = n - length (fibers @ [fib])"
    using lt Suc.hyps(2) by simp_all
  ultimately show ?case using Suc.hyps(1) [OF _ st _ mem] Suc.prems(5) lt sb(1) create m' by simp
qed

lemma main_fibers_completes:
  assumes "reachable e k s" "get_group e (tsk_tgid tsk) s = None" "tsk_pid tsk \<noteq> 0" "\<And>n. kmalloc_ok e n"
    and "\<not> sint fd < 0" "start_memory lim frame posix_memalign (unat n) (u_mem u)" "0 < n" "k + unat n \<le> 2 ^ 31"
  shows "\<exists>s' u' fibers. main_fibers e lim fd frame posix_memalign loop n s tsk u = Ret s' tsk u' fibers \<and>
    length fibers = unat n \<and> starting e lim tsk loop (k + unat n) s' u' fibers \<and>
    (\<forall>a n. user_ok lim (u_mem u') a n = user_ok lim (u_mem u) a n)"
proof -
  have pos: "0 < unat n" using assms(7) by (simp add: word_less_nat_alt)
  have st: "starting e lim tsk loop k s u []" using assms(1,2) by (rule starting.launched)
  obtain s1 r where "do_convert_thread_to_fiber e s tsk = Done s1 tsk r" using do_convert_total [OF assms(4)] by blast
  then obtain u1 fib where conv: "Convert_thread_to_fiber e lim fd s tsk u = Ret s1 tsk u1 fib" "u_mem u1 = u_mem u"
    by (simp add: lib_convert_eq [OF assms(5)])
  have "starting e lim tsk loop (Suc k) s1 u1 [fib]" by (rule starting.converted [OF st conv(1)])
  from create_loop_completes [OF this _ assms(3,4), of frame posix_memalign "unat n"]
  show ?thesis using assms(6,8) conv pos by (simp add: main_fibers_def)
qed

text \<open>
  C24: The start of the testbed completes. When the main thread is the first of its process
  to use the device, allocations succeed, the device can be opened and every stack block is
  mapped memory apart from the argument structure, the conversion and the creation of all
  fibers return, without an exit and without a fault, in a state that \<open>starting\<close> describes,
  and the array has an entry for every fiber.
\<close>

theorem testbed_start_completes:
  assumes "reachable e k s" "get_group e (tsk_tgid tsk) s = None" "tsk_pid tsk \<noteq> 0" "\<And>n. kmalloc_ok e n"
    and "\<not> sint fd < 0" "start_memory lim frame posix_memalign (unat n) (u_mem u)" "0 < n" "k + unat n \<le> 2 ^ 31"
  shows "\<exists>s' u' fibers. main_fibers e lim fd frame posix_memalign loop n s tsk u = Ret s' tsk u' fibers \<and>
    length fibers = unat n \<and> starting e lim tsk loop (k + unat n) s' u' fibers"
  using main_fibers_completes [OF assms] by blast

section \<open>A start with three fibers\<close>

definition demo_stacks :: "nat \<Rightarrow> addr option" where
  "demo_stacks i = Some (65536 + 8192 * of_nat i)"

lemma demo_start_memory: "start_memory 1048576 4096 demo_stacks 3 (u_mem demo_proc_mem)"
proof -
  have "user_ok 1048576 demo_mem (65536 + 8192 * of_nat i) STACK_SIZE \<and>
      disjoint_ranges 4096 32 (65536 + 8192 * of_nat i) STACK_SIZE" if "i \<in> {1..<3}" for i
  proof -
    have "i = 1 \<or> i = 2" using that by auto
    then show ?thesis by (auto simp: demo_mem_ok disjoint_ranges_def)
  qed
  then show ?thesis by (simp add: start_memory_def demo_stacks_def demo_proc_mem_def demo_mem_ok)
qed

theorem testbed_start_completes_witness:
  "\<exists>s' u' fibers. main_fibers demo_env 1048576 3 4096 demo_stacks 4194304 3 init_kstate (demo_task 100 10) demo_proc_mem =
     Ret s' (demo_task 100 10) u' fibers \<and> length fibers = 3"
  using testbed_start_completes [OF reachable.start, of demo_env "demo_task 100 10" 3 1048576 4096 demo_stacks 3 demo_proc_mem 4194304]
    demo_start_memory by (auto simp: demo_env_def)

lemma demo_started:
  obtains s u fibers where
    "main_fibers demo_env 1048576 3 4096 demo_stacks 4194304 3 init_kstate (demo_task 100 10) demo_proc_mem =
       Ret s (demo_task 100 10) u fibers" "length fibers = 3"
    "starting demo_env 1048576 (demo_task 100 10) 4194304 3 s u fibers" "user_ok 1048576 (u_mem u) 8192 8"
  using main_fibers_completes [OF reachable.start, of demo_env "demo_task 100 10" 3 1048576 4096 demo_stacks 3 demo_proc_mem 4194304]
    demo_start_memory that by (auto simp: demo_env_def demo_proc_mem_def demo_mem_ok)


theorem first_schedule_witness:
  "\<exists>s u fibers s' t' u'. main_fibers demo_env 1048576 3 4096 demo_stacks 4194304 3 init_kstate (demo_task 100 10)
      demo_proc_mem = Ret s (demo_task 100 10) u fibers \<and>
    schedule demo_env 1048576 8192 fibers 3 5 s (demo_task 100 10) u = Ret s' t' u' 0 \<and>
    regs_ip (tsk_regs t') = 4194304 \<and> regs_di (tsk_regs t') = 3"
proof -
  obtain s u fibers where s: "main_fibers demo_env 1048576 3 4096 demo_stacks 4194304 3 init_kstate (demo_task 100 10)
      demo_proc_mem = Ret s (demo_task 100 10) u fibers" "length fibers = 3"
    "starting demo_env 1048576 (demo_task 100 10) 4194304 3 s u fibers" "user_ok 1048576 (u_mem u) 8192 8"
    by (rule demo_started)
  have "bed_inv demo_env (demo_task 100 10) 4194304 3 s u fibers" by (rule starting_inv [OF s(3)]) simp_all
  then have t: "thread_at demo_env s 100 100 \<noteq> None"
    using s(2) by (auto simp: bed_inv_def main_runs_first_def split: option.splits)
  have f: "get_random_fiber 3 5 = 2" by (simp add: get_random_fiber_def)
  show ?thesis using first_schedule [OF s(3), of 3 "demo_task 100 10" 8192 5] s(1,2,4) t by (auto simp: f)
qed

end
