(* ===== verification/Testbed_Slots.thy ===== *)
theory Testbed_Slots
  imports Testbed_Main "HOL-Library.Signed_Division"
begin

text \<open>
  Two pieces that every fiber of the testbed uses around its loop: the slots of the fiber local
  storage in which \<open>main_loop\<close> keeps the queue and the state of the fiber, through the user
  library and the kernel module; and the timer of \<open>libfibers/testbed/src/timer.h\<close>.
\<close>

section \<open>The slots of a fiber\<close>

text \<open>
  The beginning of \<open>main_loop\<close>: two slots, the first for the queue that \<open>malloc\<close> returned, the
  second empty. The indices are kept as \<open>int\<close>; \<open>frame\<close> is the address of the argument
  structure of the library.
\<close>

definition main_slots ::
    "kenv \<Rightarrow> addr \<Rightarrow> addr \<Rightarrow> c_long \<Rightarrow> kstate \<Rightarrow> task \<Rightarrow> uproc \<Rightarrow> (c_int \<times> c_int) lib" where
  "main_slots e lim frame queue s tsk u =
     and_then (Fls_alloc e lim s tsk u)
       (\<lambda>s tsk u a. and_then (Fls_alloc e lim s tsk u)
         (\<lambda>s tsk u b.
            (let q_idx = (ucast a :: c_int); state_idx = (ucast b :: c_int)
             in if q_idx = - 1 \<or> state_idx = - 1 then Exit 1
                else and_then (Fls_set_value e lim frame s tsk u (scast q_idx) queue)
                  (\<lambda>s tsk u _. and_then (Fls_set_value e lim frame s tsk u (scast state_idx) 0)
                    (\<lambda>s tsk u _. Ret s tsk u (q_idx, state_idx))))))"

text \<open>What the loop reads in a round, and what it stores after the first event.\<close>

definition slot_value ::
    "kenv \<Rightarrow> addr \<Rightarrow> addr \<Rightarrow> addr \<Rightarrow> c_int \<Rightarrow> kstate \<Rightarrow> task \<Rightarrow> uproc \<Rightarrow> c_long lib" where
  "slot_value e lim frame rv idx s tsk u = Fls_get_value e lim frame rv s tsk u (scast idx)"

definition keep_state ::
    "kenv \<Rightarrow> addr \<Rightarrow> addr \<Rightarrow> c_int \<Rightarrow> c_long \<Rightarrow> kstate \<Rightarrow> task \<Rightarrow> uproc \<Rightarrow> c_long lib" where
  "keep_state e lim frame state_idx ret s tsk u = Fls_set_value e lim frame s tsk u (scast state_idx) ret"

definition slots_hold :: "kenv \<Rightarrow> task \<Rightarrow> c_long \<Rightarrow> c_long \<Rightarrow> kstate \<Rightarrow> bool" where
  "slots_hold e tsk q st s \<longleftrightarrow>
     (\<exists>F. current_fls e s tsk = Some F \<and> fls_view F 0 = Some q \<and> fls_view F (Suc 0) = Some st)"

text \<open>Memory and descriptor as the library needs them.\<close>

definition lib_ready :: "addr \<Rightarrow> addr \<Rightarrow> addr \<Rightarrow> uproc \<Rightarrow> bool" where
  "lib_ready lim frame rv u \<longleftrightarrow> u_fd u \<in> set (u_dev_fds u) \<and> user_ok lim (u_mem u) frame 16 \<and> user_ok lim (u_mem u) rv 8"

lemma lib_alloc:
  assumes fd: "u_fd u \<in> set (u_dev_fds u)" and F: "current_fls e s tsk = Some F"
    and free: "i < FLS_MAX_SIZE" "fls_view F i = None" "\<And>j. j < i \<Longrightarrow> fls_view F j \<noteq> None"
  shows "\<exists>s' F' v. Fls_alloc e lim s tsk u = Ret s' tsk u (of_nat i) \<and> current_fls e s' tsk = Some F' \<and>
    fls_view F' = (fls_view F)(i \<mapsto> v)"
proof -
  obtain F' v where a: "fls_alloc_slot F = (F', of_nat i)" and F': "fls_view F' = (fls_view F)(i \<mapsto> v)"
    using fls.alloc_first [OF free] by auto
  obtain s' where s': "do_fls_alloc e s tsk = Done s' tsk (of_nat i)" "current_fls e s' tsk = Some F'"
    using do_fls_alloc_current [OF F] a by (metis fst_conv snd_conv)
  have "unat (of_nat i :: c_long) = i" using small_casts(1) [of i] free(1) by simp
  then have small: "unat (of_nat i :: c_long) < 2 ^ 31" using free(1) by simp
  then have "syscall_ret (of_nat i) = of_nat i" "\<not> sint (of_nat i :: c_long) < 0"
    using syscall_ret_small sint_eq_unat [of "of_nat i :: c_long"] by simp_all
  moreover have "fibers_ioctl e lim s tsk (u_mem u) IOCTL_FLS_ALLOC 0 = Done s' tsk (u_mem u, of_nat i)"
    using s'(1) by (simp add: fibers_ioctl_eq ioctl_call_def ioctl_result_other)
  ultimately show ?thesis using fd s'(2) F' by (auto simp: Fls_alloc_def ioctl_def)
qed

lemma slots_read:
  assumes "slots_hold e tsk q st s" "lib_ready lim frame rv u" "disjoint_ranges frame 16 rv 8"
  shows "\<exists>u'. slot_value e lim frame rv 0 s tsk u = Ret s tsk u' q"
    and "\<exists>u'. slot_value e lim frame rv 1 s tsk u = Ret s tsk u' st"
proof -
  obtain F where F: "current_fls e s tsk = Some F" "fls_view F 0 = Some q" "fls_view F (Suc 0) = Some st"
    using assms(1) by (auto simp: slots_hold_def)
  have "do_fls_get_value e s tsk 0 = Done s tsk q" "do_fls_get_value e s tsk 1 = Done s tsk st"
    using do_fls_get_current [OF F(1)] fls.get_used F(2,3) by (simp_all add: bad_index_def)
  then show "\<exists>u'. slot_value e lim frame rv 0 s tsk u = Ret s tsk u' q"
    and "\<exists>u'. slot_value e lim frame rv 1 s tsk u = Ret s tsk u' st"
    using assms(2,3) lib_get_value by (simp_all add: slot_value_def lib_ready_def)
qed

lemma lib_set_slot:
  assumes "lib_ready lim frame rv u" "current_fls e s tsk = Some F" "\<not> bad_index i" "fls_view F (unat i) \<noteq> None"
  shows "\<exists>s' u' F'. Fls_set_value e lim frame s tsk u i v = Ret s' tsk u' i \<and> current_fls e s' tsk = Some F' \<and>
    fls_view F' = (fls_view F)(unat i \<mapsto> v) \<and> lib_ready lim frame rv u'"
proof -
  obtain s' m' where s': "Fls_set_value e lim frame s tsk u i v = Ret s' tsk (u\<lparr>u_mem := m'\<rparr>) i"
    "current_fls e s' tsk = Some (fst (fls_set_slot F (unat i) v))" "\<And>a n. user_ok lim m' a n = user_ok lim (u_mem u) a n"
    using lib_set_value [of u e s tsk F i lim frame v] assms by (auto simp: lib_ready_def)
  moreover obtain F' where "fls_set_slot F (unat i) v = (F', of_nat (unat i))" "fls_view F' = (fls_view F)(unat i \<mapsto> v)"
    using fls.put_used [OF assms(4), of v] by blast
  ultimately show ?thesis using assms(1) by (auto simp: lib_ready_def)
qed

lemma main_slots_start:
  assumes r: "lib_ready lim frame rv u" and F: "current_fls e s tsk = Some PREPARE_FLS"
  shows "\<exists>s' u'. main_slots e lim frame queue s tsk u = Ret s' tsk u' (0, 1) \<and> slots_hold e tsk queue 0 s' \<and> lib_ready lim frame rv u'"
proof -
  have fd: "u_fd u \<in> set (u_dev_fds u)" using r by (simp add: lib_ready_def)
  have empty: "fls_view PREPARE_FLS = Map.empty" by (simp add: fun_eq_iff fls_view_def PREPARE_FLS_def)
  obtain s1 F1 v where 1: "Fls_alloc e lim s tsk u = Ret s1 tsk u 0" "current_fls e s1 tsk = Some F1" "fls_view F1 = [0 \<mapsto> v]"
    using lib_alloc [OF fd F, of 0 lim] by (auto simp: empty)
  obtain s2 F2 w where 2: "Fls_alloc e lim s1 tsk u = Ret s2 tsk u 1" "current_fls e s2 tsk = Some F2" "fls_view F2 = [0 \<mapsto> v, 1 \<mapsto> w]"
    using lib_alloc [OF fd 1(2), of 1 lim] by (auto simp: 1(3))
  obtain s3 u3 F3 where 3: "Fls_set_value e lim frame s2 tsk u 0 queue = Ret s3 tsk u3 0" "current_fls e s3 tsk = Some F3"
      "fls_view F3 = [Suc 0 \<mapsto> w, 0 \<mapsto> queue]" "lib_ready lim frame rv u3"
    using lib_set_slot [OF r 2(2), of 0 queue] by (auto simp: 2(3) bad_index_def)
  obtain s4 u4 F4 where 4: "Fls_set_value e lim frame s3 tsk u3 1 0 = Ret s4 tsk u4 1" "current_fls e s4 tsk = Some F4"
      "fls_view F4 = [0 \<mapsto> queue, Suc 0 \<mapsto> 0]" "lib_ready lim frame rv u4"
    using lib_set_slot [OF 3(4,2), of 1 0] by (auto simp: 3(3) bad_index_def)
  show ?thesis using 1(1) 2(1) 3(1) 4 by (simp add: main_slots_def slots_hold_def Let_def)
qed

lemma keep_state_holds:
  assumes r: "lib_ready lim frame rv u" and "slots_hold e tsk q st s"
  shows "\<exists>s' u'. keep_state e lim frame 1 ret s tsk u = Ret s' tsk u' 1 \<and> slots_hold e tsk q ret s' \<and> lib_ready lim frame rv u'"
proof -
  obtain F where F: "current_fls e s tsk = Some F" "fls_view F 0 = Some q" "fls_view F (Suc 0) = Some st"
    using assms(2) by (auto simp: slots_hold_def)
  from lib_set_slot [OF r F(1), of 1 ret] F(2,3) show ?thesis
    by (auto simp: keep_state_def slots_hold_def bad_index_def)
qed

text \<open>
  C23: The local storage serves the loop of a fiber. On a fiber with the fresh storage of a new
  fiber, the beginning of \<open>main_loop\<close> gets the slots 0 and 1, through the library and the
  kernel module; from then on the loop reads its queue from the first and, before and after
  it has stored the state of the fiber, what belongs there from the second.
\<close>

theorem main_loop_slots:
  assumes "lib_ready lim frame rv u" "disjoint_ranges frame 16 rv 8" "current_fls e s tsk = Some PREPARE_FLS"
  shows "\<exists>s1 u1 u2 u3 s4 u4 u5 u6. main_slots e lim frame queue s tsk u = Ret s1 tsk u1 (0, 1) \<and>
    slot_value e lim frame rv 0 s1 tsk u1 = Ret s1 tsk u2 queue \<and> slot_value e lim frame rv 1 s1 tsk u1 = Ret s1 tsk u3 0 \<and>
    keep_state e lim frame 1 state s1 tsk u1 = Ret s4 tsk u4 1 \<and>
    slot_value e lim frame rv 0 s4 tsk u4 = Ret s4 tsk u5 queue \<and> slot_value e lim frame rv 1 s4 tsk u4 = Ret s4 tsk u6 state"
proof -
  obtain s1 u1 where 1: "main_slots e lim frame queue s tsk u = Ret s1 tsk u1 (0, 1)" "slots_hold e tsk queue 0 s1" "lib_ready lim frame rv u1"
    using main_slots_start [OF assms(1,3)] by blast
  obtain s4 u4 where 4: "keep_state e lim frame 1 state s1 tsk u1 = Ret s4 tsk u4 1" "slots_hold e tsk queue state s4" "lib_ready lim frame rv u4"
    using keep_state_holds [OF 1(3,2)] by blast
  show ?thesis using 1(1) 4(1) slots_read [OF 1(2,3) assms(2)] slots_read [OF 4(2,3) assms(2)] by blast
qed

theorem main_loop_slots_witness:
  "\<exists>s1 u1. main_slots demo_env 1048576 4096 77 demo_state (demo_task 100 40) demo_proc_mem = Ret s1 (demo_task 100 40) u1 (0, 1)"
proof -
  have "current_fls demo_env demo_state (demo_task 100 40) = Some PREPARE_FLS"
    by (simp add: demo_state_def demo_defs eval_defs current_fls_def)
  moreover have "lib_ready 1048576 4096 8192 demo_proc_mem" by (simp add: lib_ready_def demo_proc_mem_def demo_mem_ok)
  ultimately show ?thesis using main_loop_slots [of 1048576 4096 8192 demo_proc_mem demo_env demo_state "demo_task 100 40" 77 0]
    by (auto simp: disjoint_ranges_def)
qed

section \<open>The timer\<close>

record timeval =
  tv_sec :: c_long
  tv_usec :: c_long

text \<open>The time of day that \<open>gettimeofday\<close> stores is an argument.\<close>

definition timer_start :: "timeval \<Rightarrow> timeval" where
  "timer_start now = now"

definition timeval_milli :: "timeval \<Rightarrow> c_long" where
  "timeval_milli t = tv_sec t * 1000 + of_int (sint (tv_usec t) sdiv 1000)"

text \<open>The difference is an \<open>int\<close>: the milliseconds are cut to 32 bits at both assignments.\<close>

definition timer_value_milli :: "timeval \<Rightarrow> timeval \<Rightarrow> c_int" where
  "timer_value_milli now timer_name =
     (let dif = (ucast (timeval_milli now) :: c_int) in ucast (scast dif - timeval_milli timer_name))"

definition micros :: "timeval \<Rightarrow> int" where
  "micros t = sint (tv_sec t) * 1000000 + sint (tv_usec t)"

definition proper :: "timeval \<Rightarrow> bool" where
  "proper t \<longleftrightarrow> 0 \<le> sint (tv_usec t) \<and> sint (tv_usec t) < 1000000"

lemma cut_of_int: "(ucast (of_int x :: c_long) :: c_int) = of_int x"
  by (transfer; simp)

lemma timeval_milli_eq: "proper t \<Longrightarrow> timeval_milli t = of_int (micros t div 1000)"
proof -
  assume p: "proper t"
  have "micros t div 1000 = sint (tv_sec t) * 1000 + sint (tv_usec t) div 1000" by (simp add: micros_def)
  moreover have "sint (tv_usec t) sdiv 1000 = sint (tv_usec t) div 1000" using p
    by (cases "sint (tv_usec t) = 0") (simp_all add: proper_def signed_divide_int_def)
  ultimately show ?thesis by (simp add: timeval_milli_def)
qed

lemma timer_value_eq:
  assumes "proper now" "proper t"
  shows "timer_value_milli now t = of_int (micros now div 1000 - micros t div 1000)"
proof -
  let ?a = "micros now div 1000" and ?b = "micros t div 1000"
  define d :: c_int where "d = of_int ?a"
  have "(scast d :: c_long) = of_int (sint d)" by simp
  then have "timer_value_milli now t = ucast (of_int (sint d - ?b) :: c_long)"
    by (simp add: timer_value_milli_def timeval_milli_eq assms cut_of_int d_def)
  also have "\<dots> = of_int (sint d - ?b)" by (rule cut_of_int)
  also have "\<dots> = d - of_int ?b" by simp
  finally show ?thesis by (simp add: d_def)
qed

text \<open>
  The timers are exact to a millisecond. When fewer than \<open>2 ^ 31 - 1\<close> milliseconds (about 24
  days) pass between the start and the reading of a timer, the value that is read is not
  negative and differs from the elapsed time by less than one millisecond, although the
  time of day itself does not fit into the \<open>int\<close> in which it is computed.
\<close>

lemma timer_exact:
  assumes "proper now" "proper start" "micros start \<le> micros now" "micros now - micros start < (2 ^ 31 - 1) * 1000"
  shows "0 \<le> sint (timer_value_milli now (timer_start start)) \<and>
    \<bar>1000 * sint (timer_value_milli now (timer_start start)) - (micros now - micros start)\<bar> < 1000"
proof -
  let ?e = "micros now div 1000 - micros start div 1000"
  have e: "0 \<le> ?e" "?e < 2 ^ 31" using assms(3,4) by simp_all
  have "sint (of_int x :: c_int) = x" if "0 \<le> x" "x < 2 ^ 31" for x
    using that by (simp add: sint_sbintrunc' signed_take_bit_int_eq_self)
  from this [OF e] have "sint (of_int ?e :: c_int) = ?e" .
  then have v: "sint (timer_value_milli now (timer_start start)) = ?e" using timer_value_eq [OF assms(1,2)] by (simp add: timer_start_def)
  have "\<bar>1000 * (a div 1000 - b div 1000) - (a - b)\<bar> < 1000" for a b :: int
  proof -
    have "1000 * (a div 1000 - b div 1000) - (a - b) = b mod 1000 - a mod 1000"
      by (simp add: right_diff_distrib minus_mod_eq_mult_div [symmetric])
    moreover have "x mod 1000 \<in> {0..<1000}" for x :: int by simp
    from this [of a] this [of b] have "b mod 1000 - a mod 1000 < 1000" "a mod 1000 - b mod 1000 < 1000"
      unfolding atLeastLessThan_iff by linarith+
    ultimately show ?thesis by (simp add: abs_less_iff)
  qed
  then show ?thesis unfolding v using e(1) by blast
qed

lemma timer_exact_witness:
  "\<bar>1000 * sint (timer_value_milli \<lparr>tv_sec = 1700000001, tv_usec = 200\<rparr> (timer_start \<lparr>tv_sec = 1700000000, tv_usec = 999900\<rparr>)) - 300\<bar> < 1000"
  using timer_exact [of "\<lparr>tv_sec = 1700000001, tv_usec = 200\<rparr>" "\<lparr>tv_sec = 1700000000, tv_usec = 999900\<rparr>"]
  by (simp add: proper_def micros_def)

end
