(* ===== verification/Testbed_Run.thy ===== *)
theory Testbed_Run
  imports Testbed_Main
begin

text \<open>
  The testbed after its start: the loops of \<open>thread_initialization\<close> and of \<open>main_loop\<close> that switch
  to fibers at random for ever, and \<open>schedule\<close> as the handler of the alarm signal, which can
  come at any point of a fiber. All of them are the function \<open>schedule\<close> of \<open>Testbed_Main\<close>,
  called by any thread, with any registers, at any time.
\<close>

section \<open>Runs\<close>

text \<open>
  \<open>running e lim tsk loop fibers k s u\<close>: \<open>k\<close> steps of the program lead to the state \<open>s\<close> of the
  module and \<open>u\<close> of the process. Besides scheduling, the threads of the process compute, use the
  local storage of their fiber and, at the beginning, convert themselves; tasks of other
  processes may do anything.
\<close>

inductive running ::
    "kenv \<Rightarrow> addr \<Rightarrow> task \<Rightarrow> c_ulong \<Rightarrow> pid_t list \<Rightarrow> nat \<Rightarrow> kstate \<Rightarrow> uproc \<Rightarrow> bool"
  for e lim tsk loop fibers where
  begun: "starting e lim tsk loop k s u fibers \<Longrightarrow> fibers \<noteq> [] \<Longrightarrow> running e lim tsk loop fibers k s u"
| scheduled: "running e lim tsk loop fibers k s u \<Longrightarrow> tsk_tgid t = tsk_tgid tsk \<Longrightarrow> tsk_pid t \<noteq> 0 \<Longrightarrow>
     user_ok lim (u_mem u) frame 8 \<Longrightarrow> schedule e lim frame fibers n r s t u = Ret s' t' u' v \<Longrightarrow>
     running e lim tsk loop fibers (Suc k) s' u'"
| computed: "running e lim tsk loop fibers k s u \<Longrightarrow> running e lim tsk loop fibers (Suc k) s (u\<lparr>u_mem := m\<rparr>)"
| stored: "running e lim tsk loop fibers k s u \<Longrightarrow> tsk_tgid t = tsk_tgid tsk \<Longrightarrow> tsk_pid t \<noteq> 0 \<Longrightarrow>
     c \<in> {Fls_Alloc, Fls_Get i, Fls_Free i, Fls_Set i v} \<Longrightarrow> syscall e s t c = Done s' t' r \<Longrightarrow>
     running e lim tsk loop fibers (Suc k) s' u"
| converted: "running e lim tsk loop fibers k s u \<Longrightarrow> tsk_tgid t = tsk_tgid tsk \<Longrightarrow> tsk_pid t \<noteq> 0 \<Longrightarrow>
     Convert_thread_to_fiber e lim fd s t u = Ret s' t' u' r \<Longrightarrow> running e lim tsk loop fibers (Suc k) s' u'"
| other_process: "running e lim tsk loop fibers k s u \<Longrightarrow> tsk_tgid t \<noteq> tsk_tgid tsk \<Longrightarrow> tsk_pid t \<noteq> 0 \<Longrightarrow>
     syscall e s t c = Done s' t' r \<Longrightarrow> running e lim tsk loop fibers (Suc k) s' u"

definition run_inv :: "kenv \<Rightarrow> task \<Rightarrow> pid_t list \<Rightarrow> nat \<Rightarrow> kstate \<Rightarrow> uproc \<Rightarrow> bool" where
  "run_inv e tsk fibers k s u \<longleftrightarrow> kstate_inv e s \<and> fids_bound e k s \<and> u_fd u \<in> set (u_dev_fds u) \<and>
     (\<forall>j \<in> set fibers. fiber_at e s (tsk_tgid tsk) j \<noteq> None)"

section \<open>No step loses a fiber\<close>

lemma switch_keeps_fibers:
  assumes "do_switch_to_fiber e s t nxt = Done s' t' r"
  shows "fiber_at e s' (tsk_tgid t) j = None \<longleftrightarrow> fiber_at e s (tsk_tgid t) j = None"
  using assms
proof (cases rule: do_switch_cases)
  case (busy tg th f)
  then show ?thesis using group_key [OF busy(1)]
    by (simp add: fiber_at_set_group fiber_at_group [OF busy(1)] table_simps)
next
  case (orphan tg th f)
  then show ?thesis using group_key [OF orphan(1)]
    by (simp add: fiber_at_set_group fiber_at_group [OF orphan(1)] table_simps)
next
  case (switched tg th f old_f f')
  then show ?thesis using group_key [OF switched(1)]
    by (simp add: fiber_at_set_group fiber_at_group [OF switched(1)] switch_group_present)
qed simp

lemma storage_keeps_fibers:
  assumes "c \<in> {Fls_Alloc, Fls_Get i, Fls_Free i, Fls_Set i v}" "syscall e s t c = Done s' t' r"
  shows "fiber_at e s' (tsk_tgid t) j = None \<longleftrightarrow> fiber_at e s (tsk_tgid t) j = None"
proof -
  have "s' = s \<or> (\<exists>tg th f x. find_current e s t = Some (tg, th, f) \<and> s' = put_fls e s tg th x)"
    using assms by (auto simp: do_fls_alloc_def do_fls_get_value_def do_fls_free_def do_fls_set_value_def
        split: option.splits prod.splits if_splits)
  moreover have "fiber_at e (put_fls e s tg th x) (tsk_tgid t) j = None \<longleftrightarrow> fiber_at e s (tsk_tgid t) j = None"
    if "find_current e s t = Some (tg, th, f)" for tg th f x
    using find_current_SomeD(1) [OF that] group_key
    by (simp add: put_fls_def fiber_at_set_group fiber_at_group [OF find_current_SomeD(1) [OF that]] table_simps)
  ultimately show ?thesis by auto
qed

lemma run_step_inv:
  assumes inv: "run_inv e tsk fibers k s u" and k: "k < 2 ^ 31" and pid: "tsk_pid t \<noteq> 0"
    and sys: "syscall e s t c = Done s' t' r" and fd: "u_fd u' \<in> set (u_dev_fds u')"
    and keep: "\<And>j. fiber_at e s (tsk_tgid tsk) j \<noteq> None \<Longrightarrow> fiber_at e s' (tsk_tgid tsk) j \<noteq> None"
  shows "run_inv e tsk fibers (Suc k) s' u'"
proof -
  have ks: "kstate_inv e s" "fids_bound e k s" using inv by (simp_all add: run_inv_def)
  have left: "fids_left e s t" using fids_bound_left [OF ks(2)] k by simp
  show ?thesis using inv fd keep syscall_inv [OF ks(1) pid left sys] syscall_fids_bound [OF ks left sys]
    by (auto simp: run_inv_def)
qed

lemma schedule_cases:
  assumes "schedule e lim frame fibers n r s t u = Ret s' t' u' v" "u_fd u \<in> set (u_dev_fds u)" "user_ok lim (u_mem u) frame 8"
  obtains r0 where "do_switch_to_fiber e s t (fibers ! get_random_fiber n r) = Done s' t' r0"
    "u_fd u' \<in> set (u_dev_fds u')"
proof -
  let ?f = "fibers ! get_random_fiber n r"
  have "Switch_to_fiber e lim frame s t u (scast ?f) = Ret s' t' u' v"
    using assms(1) by (simp add: schedule_def Let_def split: if_splits)
  then show ?thesis using that assms(2)
    by (cases "do_switch_to_fiber e s t ?f") (auto simp: lib_switch_eq [OF assms(2,3)] ucast_scast_id)
qed

lemma running_inv: "running e lim tsk loop fibers k s u \<Longrightarrow> tsk_pid tsk \<noteq> 0 \<Longrightarrow> k \<le> 2 ^ 31 \<Longrightarrow> run_inv e tsk fibers k s u"
proof (induction rule: running.induct)
  case (begun k s u)
  note inv = starting_inv [OF begun(1,3,4)]
  show ?case using inv begun(2) array_ids_exist [OF inv] by (auto simp: run_inv_def bed_inv_def)
next
  case (scheduled k s u t frame n r s' t' u' v)
  then have inv: "run_inv e tsk fibers k s u" by simp
  then have fd: "u_fd u \<in> set (u_dev_fds u)" by (simp add: run_inv_def)
  obtain r0 where r0: "do_switch_to_fiber e s t (fibers ! get_random_fiber n r) = Done s' t' r0" "u_fd u' \<in> set (u_dev_fds u')"
    using schedule_cases [OF scheduled.hyps(5) fd scheduled.hyps(4)] .
  then have sys: "syscall e s t (Switch (fibers ! get_random_fiber n r)) = Done s' t' (scast r0)" by simp
  show ?case using scheduled switch_keeps_fibers [OF r0(1)] r0(2) by (intro run_step_inv [OF inv _ _ sys]) auto
next
  case (computed k s u m)
  then have inv: "run_inv e tsk fibers k s u" by simp
  then have "fids_bound e (Suc k) s" unfolding run_inv_def fids_bound_def by (meson le_SucI)
  then show ?case using inv by (simp add: run_inv_def)
next
  case (stored k s u t c i v s' t' r)
  then have inv: "run_inv e tsk fibers k s u" by simp
  then show ?case using stored storage_keeps_fibers [OF stored.hyps(4,5)]
    by (intro run_step_inv [OF inv _ _ stored.hyps(5)]) (auto simp: run_inv_def)
next
  case (converted k s u t fd s' t' u' r)
  then have inv: "run_inv e tsk fibers k s u" by simp
  then have ks: "kstate_inv e s" by (simp add: run_inv_def)
  obtain r0 where r0: "do_convert_thread_to_fiber e s t = Done s' t' r0" "u_fd u' \<in> set (u_dev_fds u')"
    using lib_convert_cases [OF converted.hyps(4)] by blast
  then have sys: "syscall e s t Convert = Done s' t' (scast r0)" by simp
  show ?case using converted convert_frame(1) [OF ks r0(1)] r0(2) by (intro run_step_inv [OF inv _ _ sys]) auto
next
  case (other_process k s u t c s' t' r)
  then have inv: "run_inv e tsk fibers k s u" by simp
  then have ks: "kstate_inv e s" by (simp add: run_inv_def)
  have "get_group e (tsk_tgid tsk) s' = get_group e (tsk_tgid tsk) s"
    using syscall_other [OF ks _ other_process.hyps(4)] other_process.hyps(2) by metis
  then show ?case using other_process inv
    by (intro run_step_inv [OF inv _ _ other_process.hyps(4)]) (auto simp: run_inv_def fiber_at_def)
qed

section \<open>Random switches\<close>

lemma do_switch_thread:
  assumes "do_switch_to_fiber e s t nxt = Done s' t' SUCCESS" "thread_at e s (tsk_tgid t) (tsk_pid t) = Some th"
  shows "thread_at e s' (tsk_tgid t) (tsk_pid t) = Some (th\<lparr>t_current_fid := nxt\<rparr>)"
  using assms(1)
proof (cases rule: do_switch_cases)
  case (switched tg th1 f old_f f')
  have "th1 = th" "t_pid th = tsk_pid t"
    using assms(2) switched(1,2) thr.lookup_key [OF switched(2)] by (simp_all add: thread_at_group)
  then show ?thesis using switched(1,2,8) group_key [OF switched(1)]
    by (simp add: thread_at_set_group switch_group_thread)
qed auto

lemma switch_busy_thread:
  assumes "do_switch_to_fiber e s t nxt = Done s' t' (- EAGAIN)"
  shows "thread_at e s' (tsk_tgid t) q = thread_at e s (tsk_tgid t) q"
  using assms
proof (cases rule: do_switch_cases)
  case (busy tg th f)
  then show ?thesis using group_key [OF busy(1)]
    by (simp add: thread_at_set_group thread_at_group [OF busy(1)] table_simps)
qed auto

text \<open>
  C22: A random switch never fails in another way than it should. At any time after the start
  of the testbed, when a converted thread, in its loop or in the handler of the alarm, switches
  to a fiber at random, the call returns. If nobody runs the fiber, the thread continues with
  the registers and the FPU state that the fiber was left with and is recorded as its runner;
  if some thread runs it, the switch reports \<open>-EAGAIN\<close> and the thread continues in the fiber it
  was in, with its own registers.
\<close>

theorem random_switch:
  assumes run: "running e lim tsk loop fibers k s u" "tsk_pid tsk \<noteq> 0" "k \<le> 2 ^ 31" and n: "length fibers = unat n" "0 < n"
    and t: "tsk_tgid t = tsk_tgid tsk" "thread_at e s (tsk_tgid t) (tsk_pid t) = Some th" and fr: "user_ok lim (u_mem u) frame 8"
  shows "\<exists>s' t' u' v g. schedule e lim frame fibers n r s t u = Ret s' t' u' v \<and>
    fiber_at e s (tsk_tgid t) (fibers ! get_random_fiber n r) = Some g \<and>
    (if info_state (f_info g) = 0
     then v = SUCCESS \<and> t' = t\<lparr>tsk_regs := ctx_regs (f_context g), tsk_fx := ctx_fpu (f_context g)\<rparr> \<and>
       thread_at e s' (tsk_tgid t) (tsk_pid t) = Some (th\<lparr>t_current_fid := fibers ! get_random_fiber n r\<rparr>)
     else v = - EAGAIN \<and> t' = t \<and> thread_at e s' (tsk_tgid t) (tsk_pid t) = Some th)"
proof -
  let ?f = "fibers ! get_random_fiber n r"
  note inv = running_inv [OF run]
  have ks: "kstate_inv e s" and fd: "u_fd u \<in> set (u_dev_fds u)" using inv by (simp_all add: run_inv_def)
  have "0 < unat n" using n(2) by (simp add: word_less_nat_alt)
  then have lt: "get_random_fiber n r < length fibers" using n(1) by (simp add: get_random_fiber_def)
  then obtain g where g: "fiber_at e s (tsk_tgid t) ?f = Some g" using inv t(1) nth_mem by (fastforce simp: run_inv_def)
  have sched: "schedule e lim frame fibers n r s t u = Switch_to_fiber e lim frame s t u (scast ?f)"
    using lt by (simp add: schedule_def Let_def)
  show ?thesis
  proof (cases "info_state (f_info g) = 0")
    case True
    obtain s' where s': "do_switch_to_fiber e s t ?f = Done s' (t\<lparr>tsk_regs := ctx_regs (f_context g), tsk_fx := ctx_fpu (f_context g)\<rparr>) SUCCESS"
      using switch_idle_succeeds [OF ks t(2) g True] by blast
    have "thread_at e s' (tsk_tgid t) (tsk_pid t) = Some (th\<lparr>t_current_fid := ?f\<rparr>)"
      using do_switch_thread [OF s'] t(2) by simp
    then show ?thesis using True sched g s' lib_switch [OF fd fr, of e s t "scast ?f"] by (simp add: ucast_scast_id)
  next
    case False
    obtain s' where s': "do_switch_to_fiber e s t ?f = Done s' t (- EAGAIN)" using switch_busy [OF t(2) g False] by blast
    moreover have "sint (syscall_ret (scast (- EAGAIN :: c_int))) < 0" by (simp add: syscall_ret_def)
    moreover have "thread_at e s' (tsk_tgid t) (tsk_pid t) = Some th" using switch_busy_thread [OF s'] t(2) by simp
    ultimately show ?thesis using False sched g by (simp add: lib_switch_eq [OF fd fr] ucast_scast_id)
  qed
qed

theorem random_switch_witness:
  "\<exists>s u fibers s' t' u' v. main_fibers demo_env 1048576 3 4096 demo_stacks 4194304 3 init_kstate (demo_task 100 10)
      demo_proc_mem = Ret s (demo_task 100 10) u fibers \<and>
    schedule demo_env 1048576 8192 fibers 3 5 s (demo_task 100 10) u = Ret s' t' u' v"
proof -
  obtain s u fibers where s: "main_fibers demo_env 1048576 3 4096 demo_stacks 4194304 3 init_kstate (demo_task 100 10)
      demo_proc_mem = Ret s (demo_task 100 10) u fibers" "length fibers = 3"
    "starting demo_env 1048576 (demo_task 100 10) 4194304 3 s u fibers" "user_ok 1048576 (u_mem u) 8192 8"
    by (rule demo_started)
  have "bed_inv demo_env (demo_task 100 10) 4194304 3 s u fibers" by (rule starting_inv [OF s(3)]) simp_all
  then obtain th where t: "thread_at demo_env s 100 100 = Some th"
    using s(2) by (auto simp: bed_inv_def main_runs_first_def split: option.splits)
  have "fibers \<noteq> []" using s(2) by auto
  then have run: "running demo_env 1048576 (demo_task 100 10) 4194304 fibers 3 s u" using s(3) by (intro running.begun)
  show ?thesis using random_switch [OF run, of 3 "demo_task 100 10" th 8192 5] s t by auto
qed

end
