(* ===== verification/Spec2Isabelle.thy ===== *)
theory Spec2Isabelle
  imports Probes Calqueue_Props Simulation Ult Jmp Fiber_Refine Fiber_Group Testbed_Slots Testbed_Run
begin

text \<open>
  Fibers: a verification of a kernel module for fibers, of its user library and of the
  testbed that runs on them.

  \<^bold>\<open>The program.\<close> A fiber is a context of execution that a thread enters and leaves by an
  explicit switch. The kernel module (\<open>fibers/\<close>) keeps, per process, its threads and its
  fibers in hash tables; a thread is converted to a fiber, creates fibers, switches to
  them, and uses the local storage of the fiber it runs. The module is driven by requests
  to a character device, reports its fibers in the process file system, where two probes
  add a directory, and cleans up when a descriptor is closed. The library
  (\<open>libfibers/fiberlib.c\<close>) wraps the requests. The testbed (\<open>libfibers/testbed/src/\<close>) is an
  event simulation of a cell of a telephone network: every fiber runs a loop that takes
  the next event from its own calendar queue. The testbed can be built on the library or
  on its own implementation of fibers in user space.

  \<^bold>\<open>The kernel module.\<close>
  \<^item> \<open>Fibers_Prelude\<close>: C types as words of their width, error numbers, shared lemmas;
    \<open>Hashtable\<close>: the chained tables of the kernel, with the locale of a keyed table.
  \<^item> \<open>Fiber\<close>: the structures and macros of \<open>fiber.h\<close> as records and functions and all handlers of
    \<open>fiber.c\<close>, each with every branch and error code; a handler returns the new state of the
    module, the task with its registers, and its result, or a fault. \<open>Fls\<close>: the local storage
    of a fiber and the contract \<open>slot_store\<close>. \<open>Fiber_Tables\<close>, \<open>Fiber_Inv\<close>, \<open>Fiber_Pres\<close>,
    \<open>Fiber_Run\<close>: the tables meet their interface, the invariant (well-formed chains; a fiber is
    marked with the thread that runs it and is locked exactly then) and its preservation.
  \<^item> \<open>Fiber_Spec\<close> and \<open>Fiber_Sched\<close>: an abstract scheduler and the refinement of the three
    scheduling handlers; exclusive execution. \<open>Fiber_Context\<close>: what a switch does, and that
    a fiber is resumed with the context it was left with. \<open>Fiber_Storage\<close>: the storage
    handlers. \<open>Fiber_Cleanup\<close>, \<open>Fiber_Lifetime\<close>: what the cleanup removes and frees, and when
    the module faults. \<open>Fiber_Field\<close>: properties of single fibers over runs, as a locale.
    \<open>Fiber_Demo\<close>: the run on which the general theorems are instantiated.
  \<^item> \<open>Fiber_Fine\<close>: the three scheduling and the four storage handlers again, as sequences of
    single accesses to what the threads of a process share, interleaved in any order.
    \<open>Fiber_Fine_Seq\<close>: without interruption they equal the handlers of \<open>Fiber\<close>. \<open>Lock_Owner\<close>, \<open>Fiber_Fine_Inv\<close>: who holds
    which lock at every program point, and the invariant of all interleavings.
    \<open>Fiber_Fine_Props\<close>: exclusive execution, resumption, bounded calls, and the races of a
    process that uses ids before they are returned.
  \<^item> \<open>Fiber_Atomic\<close>: the contract of the handlers under concurrency, an object whose calls take effect in
    one step each between their start and their return. \<open>Fiber_Private\<close>: what a task knows in the
    middle of a handler. \<open>Fiber_Refine\<close>: the interleaved handlers implement the object, by a
    simulation in which every access is matched by steps of the same task.
  \<^item> \<open>Fiber_Group\<close>: how the threads of all processes find or create the group of their process under
    the global lock, interleaved at every access.
  \<^item> \<open>Usermem\<close>: user memory as bytes, the copies of the kernel and the layout of the argument
    structures (locale \<open>c_object\<close>). \<open>Device\<close>: \<open>device.c\<close>, its request codes, the dispatch of
    requests and the registration of the device; the dispatch equals decoding followed by the
    operation, and no sequence of requests breaks the invariant.
  \<^item> \<open>Format\<close>, \<open>Proc\<close>, \<open>Probes\<close>: the texts and files of \<open>proc.c\<close>, the handlers of \<open>probes.c\<close> and
    the load and unload functions of \<open>module.c\<close>.
  \<^item> \<open>Fiberlib\<close>: the wrappers of \<open>fiberlib.c\<close> through the device, with the argument structures
    in the memory of the process.

  \<^bold>\<open>The testbed.\<close>
  \<^item> \<open>Double\<close>: double precision numbers. The rounding of the machine is an argument; what a
    property needs of it is the hypothesis \<open>ieee_rounding\<close>, or nothing.
  \<^item> \<open>Numerical\<close>: \<open>numerical.c\<close>, with the seed as two 32-bit halves.
  \<^item> \<open>Calqueue\<close>: \<open>calqueue.c\<close>. \<open>Calqueue_Inv\<close>, \<open>Calqueue_Scan\<close>, \<open>Calqueue_Resize\<close>: its
    invariant, the search for the next event and the resizing, for any rounding.
    \<open>Calqueue_Order\<close>: when the next event is the earliest one. \<open>Event_Queue\<close>: the contract of
    an event queue as a locale over multisets, interpreted on the calendar queue.
    \<open>Calqueue_Props\<close>: the properties.
  \<^item> \<open>Channel\<close>: the bitmap and the list of radio channels of \<open>channel.c\<close>. \<open>Model\<close>: the events of
    \<open>model.c\<close> and the loop of a fiber of \<open>main.c\<close>. \<open>Simulation\<close>: the invariant that ties the
    channels in use to the events in the queue, and that the loop never aborts.
  \<^item> \<open>Ult\<close>: the fibers in user space of \<open>ult.c\<close>, as a step relation in which threads interleave
    at every access to shared memory; there a context is one value. \<open>Jmp\<close>: the assembly that
    saves and restores a context (\<open>jmp.S\<close>, \<open>jmp.h\<close>), instruction by instruction. \<open>Testbed\<close>: their
    storage and stacks, the numbering of threads (\<open>thread.c\<close>), the start and the end of \<open>main.c\<close>;
    the locale \<open>local_slots\<close> is what the loop of a fiber needs of the storage, and both
    implementations are instances of it.
  \<^item> \<open>Testbed_Main\<close>: \<open>main\<close>, \<open>thread_initialization\<close> and \<open>schedule\<close> on the library and the module.
    The step relation \<open>starting\<close> interleaves the main thread, which converts itself and
    creates the fibers, with the other threads and other processes; in every state of it the
    fibers are ready to start, the start completes, and the first switch enters \<open>main_loop\<close>.
    \<open>Testbed_Run\<close>: what follows the start, where any thread may switch to a random fiber at
    any time, in its loop or in the handler of the alarm. \<open>Testbed_Slots\<close>: the storage slots that
    \<open>main_loop\<close> uses, and the timer of \<open>timer.h\<close>.

  \<^bold>\<open>Results and errors.\<close> Every operation is total. An error code, a fault of the kernel, an
  exit of the program, undefined behaviour of C and an access outside an array are
  different results, and the properties say which of them can occur.

  \<^bold>\<open>Fuel and bounds.\<close> The operations of the calendar queue take a bound on nested resizings;
  one is enough, and a larger one gives the same result (\<open>calqueue_resizes_once\<close>). The walk
  over the buckets takes at most \<open>nbuckets\<close> steps. The loop of a fiber runs for as many
  iterations as it is given states of the random number generator; its properties hold for
  every number. The counter of fiber identifiers of the module is a 32-bit integer that can
  wrap; properties over runs assume that it has not been used up. A handler makes at
  most fourteen accesses (\<open>accesses_left\<close>), the bound of \<open>uninterrupted\<close>.

  \<^bold>\<open>Parameters.\<close> The kernel's hash function, the outcome of its allocations and
  registrations, its own functions on the process file system and the format of pointers;
  of the C library \<open>open\<close>, \<open>posix_memalign\<close>, \<open>random\<close>, \<open>log\<close>, \<open>pow\<close> and the values of
  uninitialised memory. In the testbed \<open>malloc\<close> and \<open>pthread_create\<close> are taken to succeed.

  \<^bold>\<open>Not modelled.\<close> Log messages and output; the interleaving of the cleanup and file
  system handlers inside one request (each of these is one step), and the reordering of
  accesses by processors with weak memory; in the testbed the time at which the alarm
  comes (\<open>Testbed_Run\<close> allows every time); the benchmark script.
\<close>

end
